(* ===== verification/Prelude.thy ===== *)
theory Prelude
  imports Main "HOL-Library.Word" "HOL-Library.Code_Target_Numeral"
begin

text \<open>
  Shared vocabulary of the development: the names of the Go types, the collections of
  facts the component theories extend, decimal printing (the \<open>%d\<close> verb and
  \<open>strconv\<close>), and the generic list lemmas every component uses.
\<close>

section \<open>Types and fact collections\<close>

text \<open>
  A Go string is a sequence of bytes, and so is Isabelle's \<open>string\<close> (a \<open>char\<close> is
  an 8-bit value). A rune is a Unicode code point.
\<close>

type_synonym gostring = string
type_synonym rune = nat

abbreviation byte :: "char \<Rightarrow> nat" where
  "byte c \<equiv> of_char c"

abbreviation newline :: char where
  "newline \<equiv> CHR 0x0A"

abbreviation carriage_return :: char where
  "carriage_return \<equiv> CHR 0x0D"

named_theorems utf8_simps "rewrite rules for decoding, counting and encoding runes"
named_theorems trim_simps "rewrite rules for the trimming functions"
named_theorems err_simps "rewrite rules for errors.Is and errors.As"
named_theorems db_simps "rewrite rules for the fields of the database after an operation"
named_theorems inv_intros "introduction rules: an operation keeps an invariant"

lemma byte_less_256 [simp]: "byte c < 256"
  by (rule nat_of_char_less_256)

lemma byte_eq_iff: "byte c = byte d \<longleftrightarrow> c = d"
  by (simp add: of_char_eq_iff)

lemma char_of_byte [simp]: "char_of (byte c) = c"
  by simp

lemma byte_char_of: "n < 256 \<Longrightarrow> byte (char_of n) = n"
  by (simp add: of_char_of)

section \<open>Lists\<close>

text \<open>Trimming a list at both ends, the shape of every \<open>strings.Trim\<close> variant.\<close>

definition trim_list :: "('a \<Rightarrow> bool) \<Rightarrow> 'a list \<Rightarrow> 'a list" where
  "trim_list p xs = rev (dropWhile p (rev (dropWhile p xs)))"

definition trim_right :: "('a \<Rightarrow> bool) \<Rightarrow> 'a list \<Rightarrow> 'a list" where
  "trim_right p xs = rev (dropWhile p (rev xs))"

lemma trim_list_Nil [simp]: "trim_list p [] = []"
  by (simp add: trim_list_def)

lemma trim_right_split: "xs = trim_right p xs @ rev (takeWhile p (rev xs))"
proof -
  have "rev xs = takeWhile p (rev xs) @ dropWhile p (rev xs)" by simp
  then have "rev (rev xs) = rev (takeWhile p (rev xs) @ dropWhile p (rev xs))" by (rule arg_cong)
  then show ?thesis by (simp only: rev_rev_ident rev_append trim_right_def)
qed

lemma trim_list_right: "trim_list p xs = trim_right p (dropWhile p xs)"
  by (simp add: trim_list_def trim_right_def)

lemma trim_list_split:
  "\<exists>us vs. xs = us @ trim_list p xs @ vs \<and> (\<forall>x\<in>set us. p x) \<and> (\<forall>x\<in>set vs. p x)"
proof (intro exI conjI)
  show "xs = takeWhile p xs @ trim_list p xs @ rev (takeWhile p (rev (dropWhile p xs)))"
    by (simp only: trim_list_right trim_right_split [symmetric] takeWhile_dropWhile_id)
qed (auto dest: set_takeWhileD)

lemma trim_list_empty_iff: "trim_list p xs = [] \<longleftrightarrow> (\<forall>x\<in>set xs. p x)"
proof
  assume "trim_list p xs = []"
  then show "\<forall>x\<in>set xs. p x" using trim_list_split [of xs p] by auto
next
  assume "\<forall>x\<in>set xs. p x"
  then show "trim_list p xs = []" by (auto simp: trim_list_def dest: set_dropWhileD)
qed

lemma set_trim_list: "set (trim_list p xs) \<subseteq> set xs"
  by (auto simp: trim_list_def dest!: set_dropWhileD)

lemma trim_list_head: "trim_list p xs \<noteq> [] \<Longrightarrow> \<not> p (hd (trim_list p xs))"
proof -
  assume ne: "trim_list p xs \<noteq> []"
  let ?ys = "dropWhile p xs"
  have "hd ?ys = hd (trim_list p xs)"
    using ne trim_right_split [of ?ys p] by (metis hd_append2 trim_list_right)
  moreover have "?ys \<noteq> []" using ne by (metis dropWhile.simps(1) rev.simps(1) trim_list_def)
  ultimately show ?thesis using hd_dropWhile by metis
qed

lemma trim_list_last: "trim_list p xs \<noteq> [] \<Longrightarrow> \<not> p (last (trim_list p xs))"
  by (simp add: trim_list_def last_rev hd_dropWhile)

lemma dropWhile_id: "xs = [] \<or> \<not> p (hd xs) \<Longrightarrow> dropWhile p xs = xs"
  by (cases xs) auto

lemma trim_list_id: "xs \<noteq> [] \<Longrightarrow> \<not> p (hd xs) \<Longrightarrow> \<not> p (last xs) \<Longrightarrow> trim_list p xs = xs"
  by (simp add: trim_list_def dropWhile_id hd_rev)

lemma trim_list_idem [simp]: "trim_list p (trim_list p xs) = trim_list p xs"
  using trim_list_id [of "trim_list p xs" p] trim_list_head [of p xs] trim_list_last [of p xs]
  by (cases "trim_list p xs = []") auto

lemma filter_trim_list: "filter (\<lambda>x. \<not> p x) (trim_list p xs) = filter (\<lambda>x. \<not> p x) xs"
proof -
  from trim_list_split [of xs p] obtain us vs where eq: "xs = us @ trim_list p xs @ vs"
    and p: "\<forall>x\<in>set us. p x" "\<forall>x\<in>set vs. p x"
    by (elim exE conjE)
  from p have "filter (\<lambda>x. \<not> p x) us = []" "filter (\<lambda>x. \<not> p x) vs = []"
    by (simp_all add: filter_empty_conv)
  then show ?thesis by (subst (2) eq) simp
qed

text \<open>A loop invariant: what every step keeps holds after the fold.\<close>

lemma foldl_invariant:
  assumes "P s" "\<And>s x. x \<in> set xs \<Longrightarrow> P s \<Longrightarrow> P (f s x)"
  shows "P (foldl f s xs)"
  using assms by (induction xs arbitrary: s) auto

text \<open>Splitting at the first occurrence of a separator is unique.\<close>

lemma split_first: "c \<notin> set x \<Longrightarrow> c \<notin> set y \<Longrightarrow> x @ c # us = y @ c # vs \<Longrightarrow> x = y \<and> us = vs"
proof (induction x arbitrary: y)
  case Nil
  then show ?case by (cases y) auto
next
  case (Cons a x)
  then show ?case by (cases y) auto
qed

text \<open>\<open>strings.Join\<close>.\<close>

fun join :: "'a list \<Rightarrow> 'a list list \<Rightarrow> 'a list" where
  "join sep [] = []"
| "join sep [x] = x"
| "join sep (x # y # xs) = x @ sep @ join sep (y # xs)"

lemma join_snoc: "xs \<noteq> [] \<Longrightarrow> join sep (xs @ [y]) = join sep xs @ sep @ y"
  by (induction sep xs rule: join.induct) auto

lemma join_eq_Nil: "join sep xs = [] \<Longrightarrow> x \<in> set xs \<Longrightarrow> x = []"
  by (induction sep xs rule: join.induct) auto

section \<open>Decimal numbers\<close>

text \<open>The \<open>%d\<close> verb of \<open>fmt\<close> on a non-negative and on a signed integer.\<close>

definition digit_char :: "nat \<Rightarrow> char" where
  "digit_char d = char_of (48 + d)"

fun show_nat :: "nat \<Rightarrow> string" where
  "show_nat n = (if n < 10 then [digit_char n] else show_nat (n div 10) @ [digit_char (n mod 10)])"

declare show_nat.simps [simp del]

definition show_int :: "int \<Rightarrow> string" where
  "show_int i = (if i < 0 then CHR ''-'' # show_nat (nat (- i)) else show_nat (nat i))"

definition is_digit :: "char \<Rightarrow> bool" where
  "is_digit c \<longleftrightarrow> 48 \<le> byte c \<and> byte c \<le> 57"

definition digits_value :: "string \<Rightarrow> nat" where
  "digits_value s = foldl (\<lambda>n c. n * 10 + (byte c - 48)) 0 s"

lemma byte_digit_char: "d < 10 \<Longrightarrow> byte (digit_char d) = 48 + d"
  by (simp add: digit_char_def byte_char_of)

lemma show_nat_digits: "c \<in> set (show_nat n) \<Longrightarrow> is_digit c"
proof (induction n arbitrary: c rule: show_nat.induct)
  case (1 n)
  then show ?case
    by (subst (asm) (2) show_nat.simps) (auto simp: is_digit_def byte_digit_char split: if_splits)
qed

lemma show_nat_nonempty [simp]: "show_nat n \<noteq> []"
  by (subst show_nat.simps) simp

lemma digits_value_show_nat [simp]: "digits_value (show_nat n) = n"
proof (induction n rule: show_nat.induct)
  case (1 n)
  show ?case
  proof (cases "n < 10")
    case True
    then show ?thesis by (subst show_nat.simps) (simp add: digits_value_def byte_digit_char)
  next
    case False
    then show ?thesis using 1
      by (subst show_nat.simps) (simp add: digits_value_def byte_digit_char)
  qed
qed

lemma show_nat_inject [simp]: "show_nat m = show_nat n \<longleftrightarrow> m = n"
  by (metis digits_value_show_nat)

lemma show_int_inject [simp]: "show_int i = show_int j \<longleftrightarrow> i = j"
proof -
  have minus: "CHR ''-'' # xs \<noteq> show_nat n" for xs n
  proof
    assume "CHR ''-'' # xs = show_nat n"
    then have "is_digit (CHR ''-'')" by (metis list.set_intros(1) show_nat_digits)
    then show False by (simp add: is_digit_def)
  qed
  show ?thesis by (auto simp: show_int_def minus minus [symmetric] nat_eq_iff2)
qed

end
