(* ===== verification/GoUtf8.thy ===== *)
theory GoUtf8
  imports Prelude
begin

text \<open>
  The part of Go's \<open>unicode/utf8\<close> and of the string conversions the program uses:
  decoding one rune (\<open>DecodeRuneInString\<close>, \<open>range\<close> over a string, \<open>[]rune(s)\<close>),
  counting runes (\<open>RuneCountInString\<close>), and encoding (\<open>string(runes)\<close>,
  \<open>WriteRune\<close>). Invalid input decodes to U+FFFD of width one, as in Go, so the
  functions are total on arbitrary bytes. The lemmas show how decoding distributes over
  concatenation, that encoding is decoded back, and that a valid string is the encoding
  of its runes.
\<close>

section \<open>Decoding\<close>

abbreviation rune_error :: rune where
  "rune_error \<equiv> 0xFFFD"

definition within :: "nat \<Rightarrow> nat \<Rightarrow> char \<Rightarrow> bool" where
  "within lo hi c \<longleftrightarrow> lo \<le> byte c \<and> byte c \<le> hi"

text \<open>\<open>utf8.RuneStart\<close>: the byte is not a continuation byte.\<close>

definition rune_start :: "char \<Rightarrow> bool" where
  "rune_start c \<longleftrightarrow> \<not> within 0x80 0xBF c"

text \<open>
  The length of the sequence a leading byte announces, and the range its second byte must
  lie in (the \<open>first\<close> and \<open>acceptRanges\<close> tables); \<open>None\<close> for a byte that
  cannot lead.
\<close>

definition lead :: "nat \<Rightarrow> (nat \<times> nat \<times> nat) option" where
  "lead b =
     (if b < 0xC2 then None
      else if b < 0xE0 then Some (2, 0x80, 0xBF)
      else if b = 0xE0 then Some (3, 0xA0, 0xBF)
      else if b = 0xED then Some (3, 0x80, 0x9F)
      else if b < 0xF0 then Some (3, 0x80, 0xBF)
      else if b = 0xF0 then Some (4, 0x90, 0xBF)
      else if b < 0xF4 then Some (4, 0x80, 0xBF)
      else if b = 0xF4 then Some (4, 0x80, 0x8F)
      else None)"

definition rune2 :: "nat \<Rightarrow> nat \<Rightarrow> rune" where
  "rune2 b0 b1 = (b0 - 0xC0) * 64 + (b1 - 0x80)"

definition rune3 :: "nat \<Rightarrow> nat \<Rightarrow> nat \<Rightarrow> rune" where
  "rune3 b0 b1 b2 = (b0 - 0xE0) * 4096 + (b1 - 0x80) * 64 + (b2 - 0x80)"

definition rune4 :: "nat \<Rightarrow> nat \<Rightarrow> nat \<Rightarrow> nat \<Rightarrow> rune" where
  "rune4 b0 b1 b2 b3 = (b0 - 0xF0) * 262144 + (b1 - 0x80) * 4096 + (b2 - 0x80) * 64 + (b3 - 0x80)"

text \<open>\<open>DecodeRuneInString\<close>: the rune and its width in bytes.\<close>

definition decode_multi :: "char \<Rightarrow> gostring \<Rightarrow> rune \<times> nat" where
  "decode_multi c cs =
     (case lead (byte c) of
        None \<Rightarrow> (rune_error, 1)
      | Some (n, lo, hi) \<Rightarrow>
          (case cs of
             [] \<Rightarrow> (rune_error, 1)
           | c1 # cs1 \<Rightarrow>
               if \<not> within lo hi c1 then (rune_error, 1)
               else if n = 2 then (rune2 (byte c) (byte c1), 2)
               else (case cs1 of
                       [] \<Rightarrow> (rune_error, 1)
                     | c2 # cs2 \<Rightarrow>
                         if \<not> within 0x80 0xBF c2 then (rune_error, 1)
                         else if n = 3 then (rune3 (byte c) (byte c1) (byte c2), 3)
                         else (case cs2 of
                                 [] \<Rightarrow> (rune_error, 1)
                               | c3 # _ \<Rightarrow>
                                   if \<not> within 0x80 0xBF c3 then (rune_error, 1)
                                   else (rune4 (byte c) (byte c1) (byte c2) (byte c3), 4)))))"

fun decode_rune :: "gostring \<Rightarrow> rune \<times> nat" where
  "decode_rune [] = (rune_error, 0)"
| "decode_rune (c # cs) = (if byte c < 0x80 then (byte c, 1) else decode_multi c cs)"

lemma decode_multi_width:
  "1 \<le> snd (decode_multi c cs) \<and> snd (decode_multi c cs) \<le> Suc (length cs)"
  by (auto simp: decode_multi_def split: option.splits list.splits)

lemma decode_rune_width:
  "s \<noteq> [] \<Longrightarrow> 1 \<le> snd (decode_rune s) \<and> snd (decode_rune s) \<le> length s"
  using decode_multi_width by (cases s) auto

text \<open>
  A string as the list of its runes, each with the bytes it was decoded from: the view
  \<open>range\<close> gives of a string.
\<close>

function segs :: "gostring \<Rightarrow> (rune \<times> gostring) list" where
  "segs [] = []"
| "segs (c # cs) =
     (let (r, n) = decode_rune (c # cs)
      in (r, take n (c # cs)) # segs (drop n (c # cs)))"
  by pat_completeness auto
termination
proof (relation "measure length", simp, goal_cases)
  case (1 c cs x r n)
  then show ?case using decode_rune_width [of "c # cs"] by (cases "decode_rune (c # cs)") auto
qed

declare segs.simps(2) [simp del]

definition runes :: "gostring \<Rightarrow> rune list" where
  "runes s = map fst (segs s)"

definition rune_count :: "gostring \<Rightarrow> nat" where
  "rune_count s = length (runes s)"

lemma segs_unfold:
  "s \<noteq> [] \<Longrightarrow>
     segs s = (fst (decode_rune s), take (snd (decode_rune s)) s) # segs (drop (snd (decode_rune s)) s)"
  by (cases s) (auto simp: segs.simps(2) split: prod.splits)

lemma segs_bytes: "concat (map snd (segs s)) = s"
proof (induction s rule: segs.induct)
  case (2 c cs)
  show ?case
    using "2.IH" [of _ "fst (decode_rune (c # cs))" "snd (decode_rune (c # cs))"]
    by (simp add: segs_unfold)
qed simp

lemma segs_eq_Nil [simp]: "segs s = [] \<longleftrightarrow> s = []"
  by (cases s) (simp_all add: segs_unfold)

lemma seg_nonempty: "(r, b) \<in> set (segs s) \<Longrightarrow> b \<noteq> []"
proof (induction s rule: segs.induct)
  case (2 c cs)
  then show ?case
    using decode_rune_width [of "c # cs"] "2.IH" [of _ "fst (decode_rune (c # cs))" "snd (decode_rune (c # cs))"]
    by (auto simp: segs_unfold)
qed simp

lemma rune_count_Nil [utf8_simps]: "rune_count [] = 0"
  by (simp add: rune_count_def runes_def)

lemma runes_Nil [utf8_simps]: "runes [] = []"
  by (simp add: runes_def)

lemma rune_count_0_iff [simp]: "rune_count s = 0 \<longleftrightarrow> s = []"
  by (simp add: rune_count_def runes_def)

section \<open>Decoding a concatenation\<close>

text \<open>
  A byte that is not a continuation byte ends every sequence before it, so decoding up to
  it does not look at what follows.
\<close>

lemma within_not_start: "within lo hi c \<Longrightarrow> 0x80 \<le> lo \<Longrightarrow> hi \<le> 0xBF \<Longrightarrow> \<not> rune_start c"
  by (auto simp: within_def rune_start_def)

lemma lead_range: "lead b = Some (n, lo, hi) \<Longrightarrow> 0x80 \<le> lo \<and> hi \<le> 0xBF \<and> n \<in> {2, 3, 4}"
  by (auto simp: lead_def split: if_splits)

lemma decode_multi_append:
  assumes "t = [] \<or> rune_start (hd t)"
  shows "decode_multi c (cs @ t) = decode_multi c cs"
proof (cases "lead (byte c)")
  case None
  then show ?thesis by (simp add: decode_multi_def)
next
  case (Some p)
  obtain n lo hi where p: "p = (n, lo, hi)" by (cases p)
  have r: "0x80 \<le> lo" "hi \<le> 0xBF" using lead_range Some p by auto
  have stop: "\<not> within lo hi d" "\<not> within 0x80 0xBF d" if "t = d # t'" for d t'
    using that assms r within_not_start [of lo hi d] by (auto simp: rune_start_def)
  show ?thesis
    using Some p stop
    by (cases t; cases cs; cases "tl cs"; cases "tl (tl cs)")
      (auto simp: decode_multi_def split: list.splits)
qed

lemma decode_rune_append:
  "s \<noteq> [] \<Longrightarrow> t = [] \<or> rune_start (hd t) \<Longrightarrow> decode_rune (s @ t) = decode_rune s"
  by (cases s) (auto simp: decode_multi_append)

lemma segs_append:
  assumes "t = [] \<or> rune_start (hd t)"
  shows "segs (s @ t) = segs s @ segs t"
proof (induction s rule: segs.induct)
  case (2 c cs)
  let ?s = "c # cs" and ?n = "snd (decode_rune (c # cs))"
  have dec: "decode_rune (?s @ t) = decode_rune ?s"
    using assms by (intro decode_rune_append) auto
  have n: "?n \<le> length ?s" using decode_rune_width [of ?s] by simp
  have "segs (?s @ t) = (fst (decode_rune ?s), take ?n (?s @ t)) # segs (drop ?n (?s @ t))"
    using dec segs_unfold [of "?s @ t"] by simp
  also have "drop ?n (?s @ t) = drop ?n ?s @ t" using n by (simp only: drop_append) simp
  also have "take ?n (?s @ t) = take ?n ?s" using n by (simp only: take_append) simp
  also have "segs (drop ?n ?s @ t) = segs (drop ?n ?s) @ segs t"
    using "2.IH" by (metis prod.collapse)
  finally show ?case by (simp add: segs_unfold [of ?s])
qed simp

lemma segs_ascii: "byte c < 0x80 \<Longrightarrow> segs (c # cs) = (byte c, [c]) # segs cs"
  by (simp add: segs_unfold)

lemma rune_start_ascii [simp]: "byte c < 0x80 \<Longrightarrow> rune_start c"
  by (simp add: rune_start_def within_def)

lemma segs_sep: "byte c < 0x80 \<Longrightarrow> segs (s @ c # t) = segs s @ (byte c, [c]) # segs t"
  using segs_append [of "c # t" s] by (simp add: segs_ascii)

lemma runes_sep [utf8_simps]: "byte c < 0x80 \<Longrightarrow> runes (s @ c # t) = runes s @ byte c # runes t"
  by (simp add: runes_def segs_sep)

lemma runes_ascii [utf8_simps]: "byte c < 0x80 \<Longrightarrow> runes (c # t) = byte c # runes t"
  by (simp add: runes_def segs_ascii)

lemma rune_count_ascii_Cons [utf8_simps]: "byte c < 0x80 \<Longrightarrow> rune_count (c # t) = Suc (rune_count t)"
  by (simp add: rune_count_def utf8_simps)

lemma rune_count_sep [utf8_simps]:
  "byte c < 0x80 \<Longrightarrow> rune_count (s @ c # t) = rune_count s + Suc (rune_count t)"
  by (simp add: rune_count_def utf8_simps)

lemma runes_all_ascii: "\<forall>c\<in>set s. byte c < 0x80 \<Longrightarrow> runes s = map of_char s"
  by (induction s) (simp_all add: utf8_simps)

section \<open>Encoding\<close>

text \<open>\<open>utf8.AppendRune\<close>: surrogates and values past U+10FFFF become U+FFFD.\<close>

definition valid_rune :: "rune \<Rightarrow> bool" where
  "valid_rune r \<longleftrightarrow> r < 0xD800 \<or> 0xE000 \<le> r \<and> r < 0x110000"

definition enc2 :: "rune \<Rightarrow> gostring" where
  "enc2 r = [char_of (0xC0 + r div 64), char_of (0x80 + r mod 64)]"

definition enc3 :: "rune \<Rightarrow> gostring" where
  "enc3 r = [char_of (0xE0 + r div 4096), char_of (0x80 + r div 64 mod 64), char_of (0x80 + r mod 64)]"

definition enc4 :: "rune \<Rightarrow> gostring" where
  "enc4 r = [char_of (0xF0 + r div 262144), char_of (0x80 + r div 4096 mod 64),
             char_of (0x80 + r div 64 mod 64), char_of (0x80 + r mod 64)]"

definition encode_rune :: "rune \<Rightarrow> gostring" where
  "encode_rune r =
     (if r < 0x80 then [char_of r]
      else if r < 0x800 then enc2 r
      else if \<not> valid_rune r then enc3 rune_error
      else if r < 0x10000 then enc3 r
      else enc4 r)"

text \<open>The conversion \<open>string(runes)\<close>.\<close>

definition of_runes :: "rune list \<Rightarrow> gostring" where
  "of_runes rs = concat (map encode_rune rs)"

lemma of_runes_Nil [simp]: "of_runes [] = []"
  and of_runes_Cons: "of_runes (r # rs) = encode_rune r @ of_runes rs"
  and of_runes_append: "of_runes (rs @ ss) = of_runes rs @ of_runes ss"
  by (simp_all add: of_runes_def)

lemma horner3: "(a::nat) * 64 + b0 = r \<Longrightarrow> c * 64 + b1 = a \<Longrightarrow> c * 4096 + b1 * 64 + b0 = r"
  by simp

lemma horner4:
  "(a::nat) * 64 + b0 = r \<Longrightarrow> c * 64 + b1 = a \<Longrightarrow> e * 64 + b2 = c \<Longrightarrow>
     e * 262144 + b2 * 4096 + b1 * 64 + b0 = r"
  by simp

lemma decode_enc2:
  assumes "0x80 \<le> r" "r < 0x800"
  shows "decode_rune (enc2 r @ t) = (r, 2)"
proof -
  have b: "byte (char_of (0xC0 + r div 64)) = 0xC0 + r div 64" "byte (char_of (0x80 + r mod 64)) = 0x80 + r mod 64"
    using assms by (simp_all add: byte_char_of)
  have l: "lead (0xC0 + r div 64) = Some (2, 0x80, 0xBF)"
    using assms by (auto simp: lead_def)
  have w: "within 0x80 0xBF (char_of (0x80 + r mod 64))"
    unfolding within_def b by simp
  have m: "rune2 (0xC0 + r div 64) (0x80 + r mod 64) = r" by (simp add: rune2_def)
  show ?thesis by (simp add: enc2_def decode_multi_def b l w m del: of_char_of)
qed

lemma decode_enc3:
  assumes "0x800 \<le> r" "r < 0x10000" "valid_rune r"
  shows "decode_rune (enc3 r @ t) = (r, 3)"
proof -
  let ?b0 = "0xE0 + r div 4096" and ?b1 = "0x80 + r div 64 mod 64" and ?b2 = "0x80 + r mod 64"
  have b: "byte (char_of ?b0) = ?b0" "byte (char_of ?b1) = ?b1" "byte (char_of ?b2) = ?b2"
    using assms by (simp_all add: byte_char_of)
  have d: "r div 4096 = r div 64 div 64" by (simp add: div_mult2_eq [symmetric])
  have lo: "0x20 \<le> r div 64 mod 64" if "r div 4096 = 0"
    using that assms(1) d by (simp add: div_eq_0_iff)
  have hi: "r div 64 mod 64 < 0x20" if "r div 4096 = 13"
  proof -
    have "r < 0xD800" using that assms(3) by (auto simp: valid_rune_def)
    then have "r div 64 < 0x360" by simp
    then show ?thesis using that d div_mult_mod_eq [of "r div 64" 64] by linarith
  qed
  obtain lo' hi' where l: "lead ?b0 = Some (3, lo', hi')" and w1: "lo' \<le> ?b1" "?b1 \<le> hi'"
  proof -
    have "r div 64 mod 64 < 64" by simp
    then have le: "?b1 \<le> 0xBF" by linarith
    consider "r div 4096 = 0" | "r div 4096 = 13" | "r div 4096 \<noteq> 0" "r div 4096 \<noteq> 13" by blast
    then show ?thesis
    proof cases
      case 1
      show ?thesis by (rule that [of "0xA0" "0xBF"]) (use 1 lo le in \<open>simp_all add: lead_def\<close>)
    next
      case 2
      show ?thesis by (rule that [of "0x80" "0x9F"]) (use 2 hi in \<open>simp_all add: lead_def\<close>)
    next
      case 3
      show ?thesis by (rule that [of "0x80" "0xBF"]) (use 3 assms le in \<open>simp_all add: lead_def\<close>)
    qed
  qed
  have w: "within lo' hi' (char_of ?b1)" "within 0x80 0xBF (char_of ?b2)"
    unfolding within_def b using w1 by simp_all
  have m: "rune3 ?b0 ?b1 ?b2 = r" 
    unfolding rune3_def diff_add_inverse d
    by (rule horner3 [OF div_mult_mod_eq div_mult_mod_eq])
  show ?thesis by (simp add: enc3_def decode_multi_def b l w m del: of_char_of)
qed

lemma decode_enc4:
  assumes "0x10000 \<le> r" "r < 0x110000"
  shows "decode_rune (enc4 r @ t) = (r, 4)"
proof -
  let ?b0 = "0xF0 + r div 262144" and ?b1 = "0x80 + r div 4096 mod 64"
    and ?b2 = "0x80 + r div 64 mod 64" and ?b3 = "0x80 + r mod 64"
  have b: "byte (char_of ?b0) = ?b0" "byte (char_of ?b1) = ?b1" "byte (char_of ?b2) = ?b2" "byte (char_of ?b3) = ?b3"
    using assms by (simp_all add: byte_char_of)
  have d: "r div 4096 = r div 64 div 64" "r div 262144 = r div 64 div 64 div 64"
    by (simp_all add: div_mult2_eq [symmetric])
  have lo: "0x10 \<le> r div 4096 mod 64" if "r div 262144 = 0"
  proof -
    have "0x10 \<le> r div 4096" using assms(1) by simp
    moreover have "r div 4096 < 64" using that d by simp
    ultimately show ?thesis by simp
  qed
  have hi: "r div 4096 mod 64 < 0x10" if "r div 262144 = 4"
  proof -
    have "r div 4096 < 0x110" using assms(2) by simp
    moreover have "r div 262144 = r div 4096 div 64" by (simp only: div_mult2_eq [symmetric]) simp
    ultimately show ?thesis using that div_mult_mod_eq [of "r div 4096" 64] by linarith
  qed
  obtain lo' hi' where l: "lead ?b0 = Some (4, lo', hi')" and w1: "lo' \<le> ?b1" "?b1 \<le> hi'"
  proof -
    have "r div 4096 mod 64 < 64" by simp
    then have le: "?b1 \<le> 0xBF" by linarith
    have "r div 262144 \<le> 4" using assms(2) by simp
    then consider "r div 262144 = 0" | "r div 262144 = 4" | "r div 262144 \<noteq> 0" "r div 262144 < 4" by linarith
    then show ?thesis
    proof cases
      case 1
      show ?thesis by (rule that [of "0x90" "0xBF"]) (use 1 lo le in \<open>simp_all add: lead_def\<close>)
    next
      case 2
      show ?thesis by (rule that [of "0x80" "0x8F"]) (use 2 hi in \<open>simp_all add: lead_def\<close>)
    next
      case 3
      show ?thesis by (rule that [of "0x80" "0xBF"]) (use 3 le in \<open>simp_all add: lead_def\<close>)
    qed
  qed
  have w: "within lo' hi' (char_of ?b1)" "within 0x80 0xBF (char_of ?b2)" "within 0x80 0xBF (char_of ?b3)"
    unfolding within_def b using w1 by simp_all
  have m: "rune4 ?b0 ?b1 ?b2 ?b3 = r" 
    unfolding rune4_def diff_add_inverse d
    by (rule horner4 [OF div_mult_mod_eq div_mult_mod_eq div_mult_mod_eq])
  show ?thesis by (simp add: enc4_def decode_multi_def b l w m del: of_char_of)
qed

lemma decode_encode_rune:
  assumes "valid_rune r"
  shows "decode_rune (encode_rune r @ t) = (r, length (encode_rune r))"
proof -
  consider "r < 0x80" | "0x80 \<le> r" "r < 0x800" | "0x800 \<le> r" "r < 0x10000" | "0x10000 \<le> r" by linarith
  then show ?thesis
  proof cases
    case 1
    then show ?thesis by (simp add: encode_rune_def byte_char_of)
  next
    case 2
    then have "encode_rune r = enc2 r" by (simp add: encode_rune_def)
    with 2 show ?thesis by (simp add: decode_enc2) (simp add: enc2_def)
  next
    case 3
    then have "encode_rune r = enc3 r" using assms by (simp add: encode_rune_def)
    with 3 assms show ?thesis by (simp add: decode_enc3) (simp add: enc3_def)
  next
    case 4
    then have "encode_rune r = enc4 r" using assms by (simp add: encode_rune_def)
    with 4 assms show ?thesis by (simp add: decode_enc4 valid_rune_def) (simp add: enc4_def)
  qed
qed

lemma valid_rune_error [simp]: "valid_rune rune_error"
  by (simp add: valid_rune_def)

lemma encode_invalid: "\<not> valid_rune r \<Longrightarrow> encode_rune r = encode_rune rune_error"
  by (simp add: encode_rune_def valid_rune_def)

lemma encode_nonempty [simp]: "encode_rune r \<noteq> []"
  by (simp add: encode_rune_def enc2_def enc3_def enc4_def)

lemma rune_start_byte: "0xC0 \<le> n \<Longrightarrow> n < 256 \<Longrightarrow> rune_start (char_of (n :: nat))"
  by (simp add: rune_start_def within_def byte_char_of del: of_char_of)

lemma encode_start: "rune_start (hd (encode_rune r))"
proof -
  have "rune_start (hd (encode_rune r))" if "valid_rune r" for r
  proof -
    have "r < 0x110000" using that by (auto simp: valid_rune_def)
    then have "r div 262144 < 5" by simp
    then show ?thesis
      using that rune_start_byte [of "0xC0 + r div 64"] rune_start_byte [of "0xE0 + r div 4096"]
        rune_start_byte [of "0xF0 + r div 262144"]
      by (auto simp: encode_rune_def enc2_def enc3_def enc4_def byte_char_of less_mult_imp_div_less)
  qed
  then show ?thesis using encode_invalid valid_rune_error by metis
qed

lemma of_runes_start: "of_runes rs = [] \<or> rune_start (hd (of_runes rs))"
  by (cases rs) (simp_all add: of_runes_Cons encode_start)

text \<open>Encoding is decoded back, rune by rune; only an invalid rune changes, into U+FFFD.\<close>

definition fix_rune :: "rune \<Rightarrow> rune" where
  "fix_rune r = (if valid_rune r then r else rune_error)"

lemma encode_fix: "encode_rune (fix_rune r) = encode_rune r"
  by (simp add: fix_rune_def encode_invalid)

lemma valid_fix [simp]: "valid_rune (fix_rune r)"
  by (simp add: fix_rune_def)

lemma segs_encode: "segs (encode_rune r @ t) = (fix_rune r, encode_rune r) # segs t"
  using segs_unfold [of "encode_rune r @ t"] decode_encode_rune [of "fix_rune r" t]
  by (simp add: encode_fix)

lemma segs_of_runes: "segs (of_runes rs) = map (\<lambda>r. (fix_rune r, encode_rune r)) rs"
  by (induction rs) (simp_all add: of_runes_Cons segs_encode)

lemma runes_of_runes: "runes (of_runes rs) = map fix_rune rs"
  by (simp add: runes_def segs_of_runes)

lemma rune_count_of_runes [simp]: "rune_count (of_runes rs) = length rs"
  by (simp add: rune_count_def runes_of_runes)

section \<open>Valid strings\<close>

text \<open>\<open>utf8.ValidString\<close>: no byte decodes to the error rune of width one.\<close>

definition valid_utf8 :: "gostring \<Rightarrow> bool" where
  "valid_utf8 s \<longleftrightarrow> list_all (\<lambda>(r, b). \<not> (r = rune_error \<and> length b = 1)) (segs s)"

lemma valid_utf8_of_runes: "valid_utf8 (of_runes rs)"
proof -
  have "length (encode_rune r) \<noteq> 1" if "fix_rune r = rune_error" for r
  proof -
    have "encode_rune r = encode_rune rune_error" using that encode_fix by metis
    then show ?thesis by (simp add: encode_rune_def valid_rune_def enc3_def)
  qed
  then show ?thesis by (auto simp: valid_utf8_def segs_of_runes list_all_iff)
qed

lemma valid_utf8_append:
  "t = [] \<or> rune_start (hd t) \<Longrightarrow> valid_utf8 (s @ t) \<longleftrightarrow> valid_utf8 s \<and> valid_utf8 t"
  by (simp add: valid_utf8_def segs_append)

lemma valid_utf8_sep: "byte c < 0x80 \<Longrightarrow> valid_utf8 (s @ c # t) \<longleftrightarrow> valid_utf8 s \<and> valid_utf8 t"
  by (auto simp: valid_utf8_def segs_sep)

lemma valid_utf8_ascii_Cons: "byte c < 0x80 \<Longrightarrow> valid_utf8 (c # t) \<longleftrightarrow> valid_utf8 t"
  by (auto simp: valid_utf8_def segs_ascii)

lemma valid_utf8_Nil [simp]: "valid_utf8 []"
  by (simp add: valid_utf8_def)

text \<open>
  Decoding a string and encoding the runes gives it back when the string is valid: a
  multi-byte sequence is recovered from its code point.
\<close>

lemma char_of_eqI: "byte c = n \<Longrightarrow> char_of n = c"
  by auto

lemma within_offset:
  assumes "within (k + lo) (k + hi) c"
  obtains y where "byte c = k + y" "lo \<le> y" "y \<le> hi"
proof -
  have "k \<le> byte c" using assms by (simp add: within_def)
  then obtain y where "byte c = k + y" by (auto simp: le_iff_add)
  then show ?thesis using assms that by (simp add: within_def)
qed

lemma div_mod_64:
  assumes "(b::nat) < 64"
  shows "(64 * a + b) div 64 = a" "(64 * a + b) mod 64 = b"
  using assms by auto

lemma encode_rune2:
  assumes "byte c = 0xC0 + x" "2 \<le> x" "x < 32" "byte c1 = 0x80 + y" "y < 64"
  shows "encode_rune (rune2 (byte c) (byte c1)) = [c, c1]"
proof -
  have r: "rune2 (byte c) (byte c1) = x * 64 + y" using assms by (simp add: rune2_def)
  have "0x80 \<le> x * 64 + y" "x * 64 + y < 0x800" "(x * 64 + y) div 64 = x" "(x * 64 + y) mod 64 = y"
    using assms by auto
  then show ?thesis
    unfolding r using assms by (auto simp: encode_rune_def enc2_def intro!: char_of_eqI)
qed

lemma encode_rune3:
  assumes "byte c = 0xE0 + x" "x < 16" "byte c1 = 0x80 + y" "y < 64" "byte c2 = 0x80 + z" "z < 64"
    and "x = 0 \<longrightarrow> 0x20 \<le> y" "x = 13 \<longrightarrow> y < 0x20"
  shows "encode_rune (rune3 (byte c) (byte c1) (byte c2)) = [c, c1, c2]"
proof -
  let ?r = "x * 4096 + y * 64 + z"
  have r: "rune3 (byte c) (byte c1) (byte c2) = ?r" using assms by (simp add: rune3_def)
  have "?r = 64 * (x * 64 + y) + z" by simp
  then have q: "?r div 64 = x * 64 + y" "?r mod 64 = z" using div_mod_64 [OF assms(6)] by metis+
  have "?r div 4096 = ?r div 64 div 64" by (simp only: div_mult2_eq [symmetric]) simp
  then have d: "?r div 4096 = x" "?r div 64 mod 64 = y" unfolding q using assms by auto
  have lo: "0x800 \<le> ?r" using assms by (cases "x = 0") auto
  have hi: "?r < 0x10000" using assms by simp
  have "valid_rune ?r"
    unfolding valid_rune_def using assms by (cases "x < 13"; cases "x = 13") auto
  then have "encode_rune ?r = enc3 ?r" using lo hi by (simp add: encode_rune_def)
  then show ?thesis
    unfolding r enc3_def d q using assms by (auto intro!: char_of_eqI)
qed

lemma encode_rune4:
  assumes "byte c = 0xF0 + x" "x < 5" "byte c1 = 0x80 + y" "y < 64" "byte c2 = 0x80 + z" "z < 64"
    and "byte c3 = 0x80 + w" "w < 64" "x = 0 \<longrightarrow> 0x10 \<le> y" "x = 4 \<longrightarrow> y < 0x10"
  shows "encode_rune (rune4 (byte c) (byte c1) (byte c2) (byte c3)) = [c, c1, c2, c3]"
proof -
  let ?r = "x * 262144 + y * 4096 + z * 64 + w"
  have r: "rune4 (byte c) (byte c1) (byte c2) (byte c3) = ?r" using assms by (simp add: rune4_def)
  have "?r = 64 * (x * 4096 + y * 64 + z) + w" by simp
  then have q: "?r div 64 = x * 4096 + y * 64 + z" "?r mod 64 = w" using div_mod_64 [OF assms(8)] by metis+
  have "?r div 4096 = ?r div 64 div 64" by (simp only: div_mult2_eq [symmetric]) simp
  moreover have "x * 4096 + y * 64 + z = 64 * (x * 64 + y) + z" by simp
  ultimately have d: "?r div 4096 = x * 64 + y" "?r div 64 mod 64 = z"
    unfolding q using div_mod_64 [OF assms(6)] by metis+
  have m: "(x * 4096 + y * 64 + z) mod 64 = z" using d q by simp
  have "?r div 262144 = ?r div 4096 div 64" by (simp only: div_mult2_eq [symmetric]) simp
  then have e: "?r div 262144 = x" "?r div 4096 mod 64 = y" unfolding d using assms by auto
  have lo: "0x10000 \<le> ?r" using assms by (cases "x = 0") auto
  have hi: "?r < 0x110000" using assms by (cases "x = 4") auto
  then have "encode_rune ?r = enc4 ?r" using lo by (simp add: encode_rune_def valid_rune_def)
  then show ?thesis
    unfolding r enc4_def e d q m using assms by (auto intro!: char_of_eqI)
qed

lemma lead_bound: "lead b = Some (n, lo, hi) \<Longrightarrow> b < 0xF5"
  by (auto simp: lead_def split: if_splits)

lemma lead_2: "lead b = Some (2, lo, hi) \<Longrightarrow> lo = 0x80 \<and> hi = 0xBF \<and> 0xC2 \<le> b \<and> b < 0xE0"
  by (auto simp: lead_def split: if_splits)

lemma lead_3:
  "lead b = Some (3, lo, hi) \<Longrightarrow>
     0xE0 \<le> b \<and> b < 0xF0 \<and> 0x80 \<le> lo \<and> hi \<le> 0xBF \<and> (b = 0xE0 \<longrightarrow> lo = 0xA0) \<and> (b = 0xED \<longrightarrow> hi = 0x9F)"
  by (auto simp: lead_def split: if_splits)

lemma lead_4:
  "lead b = Some (4, lo, hi) \<Longrightarrow>
     0xF0 \<le> b \<and> b < 0xF5 \<and> 0x80 \<le> lo \<and> hi \<le> 0xBF \<and> (b = 0xF0 \<longrightarrow> lo = 0x90) \<and> (b = 0xF4 \<longrightarrow> hi = 0x8F)"
  by (auto simp: lead_def split: if_splits)

lemma offset: "(k::nat) \<le> b \<Longrightarrow> \<exists>x. b = k + x"
  by (simp add: le_iff_add)

lemma encode_decode_multi:
  assumes "decode_multi c cs = (r, n)"
  shows "r = rune_error \<and> n = 1 \<or> encode_rune r = take n (c # cs)"
proof (cases "n = 1")
  case True
  then show ?thesis using assms
    by (auto simp: decode_multi_def split: option.splits list.splits if_splits prod.splits)
next
  case False
  then obtain m lo hi where l: "lead (byte c) = Some (m, lo, hi)"
    using assms by (auto simp: decode_multi_def split: option.splits)
  then consider "m = 2" | "m = 3" | "m = 4" using lead_range by blast
  then show ?thesis
  proof cases
    case 1
    with False assms l obtain c1 cs1 where cs: "cs = c1 # cs1" and w: "within lo hi c1"
      and r: "r = rune2 (byte c) (byte c1)" "n = 2"
      by (auto simp: decode_multi_def split: list.splits if_splits)
    have b: "0xC2 \<le> byte c" "byte c < 0xE0" "0x80 \<le> byte c1" "byte c1 \<le> 0xBF"
      using lead_2 [of "byte c" lo hi] 1 l w by (auto simp: within_def)
    have "0xC0 \<le> byte c" using b(1) by simp
    then obtain x y where x: "byte c = 0xC0 + x" and y: "byte c1 = 0x80 + y"
      using b(3) offset by blast
    have "encode_rune r = [c, c1]"
      unfolding r using x y b by (intro encode_rune2 [OF x _ _ y]) auto
    then show ?thesis using cs r by simp
  next
    case 2
    with False assms l obtain c1 c2 cs2 where cs: "cs = c1 # c2 # cs2"
      and w: "within lo hi c1" "within 0x80 0xBF c2"
      and r: "r = rune3 (byte c) (byte c1) (byte c2)" "n = 3"
      by (auto simp: decode_multi_def split: list.splits if_splits)
    have b: "0xE0 \<le> byte c" "0x80 \<le> byte c1" "0x80 \<le> byte c2"
      using lead_3 [of "byte c" lo hi] 2 l w by (auto simp: within_def)
    obtain x y z where x: "byte c = 0xE0 + x" and y: "byte c1 = 0x80 + y" and z: "byte c2 = 0x80 + z"
      using b offset by metis
    have "encode_rune r = [c, c1, c2]"
      unfolding r using x y z lead_3 [of "byte c" lo hi] 2 l w
      by (intro encode_rune3 [OF x _ y _ z]) (auto simp: within_def)
    then show ?thesis using cs r by simp
  next
    case 3
    with False assms l obtain c1 c2 c3 cs3 where cs: "cs = c1 # c2 # c3 # cs3"
      and w: "within lo hi c1" "within 0x80 0xBF c2" "within 0x80 0xBF c3"
      and r: "r = rune4 (byte c) (byte c1) (byte c2) (byte c3)" "n = 4"
      by (auto simp: decode_multi_def split: list.splits if_splits)
    have b: "0xF0 \<le> byte c" "0x80 \<le> byte c1" "0x80 \<le> byte c2" "0x80 \<le> byte c3"
      using lead_4 [of "byte c" lo hi] 3 l w by (auto simp: within_def)
    obtain x y z v where x: "byte c = 0xF0 + x" and y: "byte c1 = 0x80 + y"
      and z: "byte c2 = 0x80 + z" and v: "byte c3 = 0x80 + v"
      using b offset by metis
    have "encode_rune r = [c, c1, c2, c3]"
      unfolding r using x y z v lead_4 [of "byte c" lo hi] 3 l w
      by (intro encode_rune4 [OF x _ y _ z _ v]) (auto simp: within_def)
    then show ?thesis using cs r by simp
  qed
qed

lemma encode_decode_rune:
  assumes "s \<noteq> []" "decode_rune s = (r, n)"
  shows "r = rune_error \<and> n = 1 \<or> encode_rune r = take n s"
proof -
  obtain c cs where s: "s = c # cs" using assms(1) by (cases s) auto
  show ?thesis
  proof (cases "byte c < 0x80")
    case True
    then show ?thesis using assms s by (auto simp: encode_rune_def)
  next
    case False
    then show ?thesis using assms(2) s encode_decode_multi [of c cs r n] by simp
  qed
qed

lemma segs_encode_or_error:
  "(r, b) \<in> set (segs s) \<Longrightarrow> r = rune_error \<and> length b = 1 \<or> encode_rune r = b"
proof (induction s rule: segs.induct)
  case (2 c cs)
  let ?s = "c # cs"
  obtain r' n where d: "decode_rune ?s = (r', n)" by fastforce
  then have n: "n \<le> length ?s" using decode_rune_width [of ?s] by simp
  from "2.prems" d consider "r = r'" "b = take n ?s" | "(r, b) \<in> set (segs (drop n ?s))"
    by (auto simp: segs_unfold)
  then show ?case
  proof cases
    case 1
    then show ?thesis using encode_decode_rune [OF _ d] n by fastforce
  next
    case 2
    then show ?thesis using "2.IH" [OF d [symmetric]] by simp
  qed
qed simp

text \<open>Decoding yields valid runes only.\<close>

lemma decode_valid: "s \<noteq> [] \<Longrightarrow> valid_rune (fst (decode_rune s))"
proof (rule ccontr)
  assume ne: "s \<noteq> []" and bad: "\<not> valid_rune (fst (decode_rune s))"
  obtain r n where d: "decode_rune s = (r, n)" by fastforce
  with bad have "encode_rune rune_error = take n s"
    using encode_decode_rune [OF ne d] encode_invalid [of r] by auto
  then have "decode_rune s = (rune_error, length (encode_rune rune_error))"
    using decode_encode_rune [OF valid_rune_error, of "drop n s"] by simp
  with bad d show False by simp
qed

lemma segs_valid_runes: "(r, b) \<in> set (segs s) \<Longrightarrow> valid_rune r"
proof (induction s rule: segs.induct)
  case (2 c cs)
  then show ?case
    using decode_valid [of "c # cs"] "2.IH" [of _ "fst (decode_rune (c # cs))" "snd (decode_rune (c # cs))"]
    by (auto simp: segs_unfold)
qed simp

lemma fix_runes [simp]: "map fix_rune (runes s) = runes s"
  by (rule map_idI) (auto simp: runes_def fix_rune_def dest: segs_valid_runes)

lemma runes_of_runes_runes: "runes (of_runes (runes s)) = runes s"
  by (simp add: runes_of_runes)

theorem of_runes_runes: "valid_utf8 s \<Longrightarrow> of_runes (runes s) = s"
proof -
  assume "valid_utf8 s"
  then have "\<And>p. p \<in> set (segs s) \<Longrightarrow> encode_rune (fst p) = snd p"
    using segs_encode_or_error by (fastforce simp: valid_utf8_def list_all_iff)
  then have "map (encode_rune \<circ> fst) (segs s) = map snd (segs s)" by simp
  then have "of_runes (runes s) = concat (map snd (segs s))"
    by (simp only: of_runes_def runes_def map_map)
  then show ?thesis by (simp only: segs_bytes)
qed

end
