(* ===== verification/GoText.thy ===== *)
theory GoText
  imports GoUtf8
begin

text \<open>
  The functions of \<open>strings\<close>, \<open>unicode\<close>, \<open>bufio\<close> and \<open>strconv\<close> the
  program calls on text: \<open>TrimSpace\<close>, \<open>Trim\<close>, \<open>TrimRight\<close>, \<open>TrimPrefix\<close>,
  \<open>Cut\<close>, \<open>ToLower\<close>, the line scanner with its token limit, and \<open>Atoi\<close>.
  The visible runes of a string (\<open>ink\<close>) are what the text-processing components must
  not lose; the lemmas show how each function acts on them.
\<close>

section \<open>White space and trimming\<close>

text \<open>\<open>unicode.IsSpace\<close>.\<close>

definition is_space :: "rune \<Rightarrow> bool" where
  "is_space r \<longleftrightarrow>
     r \<in> {0x09, 0x0A, 0x0B, 0x0C, 0x0D, 0x20, 0x85, 0xA0, 0x1680, 0x2028, 0x2029, 0x202F, 0x205F, 0x3000}
     \<or> 0x2000 \<le> r \<and> r \<le> 0x200A"

text \<open>
  \<open>strings.TrimSpace\<close>: leading and trailing white-space runes are dropped. The last rune
  of a string, read backwards, is the last rune of the forward decoding, because a
  sequence never contains a byte that can start another one.
\<close>

definition trim_space :: "gostring \<Rightarrow> gostring" where
  "trim_space s = concat (map snd (trim_list (\<lambda>(r, b). is_space r) (segs s)))"

text \<open>\<open>strings.Trim\<close> and \<open>strings.TrimRight\<close> with an ASCII cutset, and \<open>strings.TrimPrefix\<close>.\<close>

definition trim_cutset :: "gostring \<Rightarrow> gostring \<Rightarrow> gostring" where
  "trim_cutset cutset s = trim_list (\<lambda>c. c \<in> set cutset) s"

definition trim_right_cutset :: "gostring \<Rightarrow> gostring \<Rightarrow> gostring" where
  "trim_right_cutset cutset s = trim_right (\<lambda>c. c \<in> set cutset) s"

definition trim_prefix :: "gostring \<Rightarrow> gostring \<Rightarrow> gostring" where
  "trim_prefix p s = (if take (length p) s = p then drop (length p) s else s)"

text \<open>The runes of a string that are not white space.\<close>

definition ink :: "gostring \<Rightarrow> rune list" where
  "ink s = filter (\<lambda>r. \<not> is_space r) (runes s)"

subsection \<open>A run of segments decodes to itself\<close>

lemma decode_multi_take:
  "snd (decode_multi c cs) \<le> Suc m \<Longrightarrow> decode_multi c (take m cs) = decode_multi c cs"
  by (cases cs; cases "tl cs"; cases "tl (tl cs)"; cases m; cases "m - 1"; cases "m - 2")
    (auto simp: decode_multi_def split: option.splits if_splits)

lemma decode_rune_take:
  assumes "s \<noteq> []" "snd (decode_rune s) \<le> m"
  shows "decode_rune (take m s) = decode_rune s"
proof -
  obtain c cs where s: "s = c # cs" using assms by (cases s) auto
  have "1 \<le> m" using assms decode_rune_width [of s] by linarith
  then obtain k where "m = Suc k" by (cases m) auto
  then show ?thesis using s assms decode_multi_take [of c cs k] by auto
qed

lemma segs_drop_first: "s \<noteq> [] \<Longrightarrow> segs (drop (length (snd (hd (segs s)))) s) = tl (segs s)"
  using decode_rune_width [of s] by (simp add: segs_unfold min_absorb2)

lemma segs_suffix: "segs s = us @ vs \<Longrightarrow> segs (concat (map snd vs)) = vs"
proof (induction us arbitrary: s)
  case Nil
  then show ?case using segs_bytes [of s] by simp
next
  case (Cons u us)
  then have ne: "s \<noteq> []" by auto
  have "segs (drop (length (snd (hd (segs s)))) s) = us @ vs"
    using Cons.prems segs_drop_first [OF ne] by simp
  then show ?case by (rule Cons.IH)
qed

lemma segs_prefix: "segs s = us @ vs \<Longrightarrow> segs (concat (map snd us)) = us"
proof (induction us arbitrary: s)
  case (Cons u us)
  then have ne: "s \<noteq> []" by auto
  let ?n = "snd (decode_rune s)" and ?p = "concat (map snd (u # us))"
  have w: "1 \<le> ?n" "?n \<le> length s" using decode_rune_width [OF ne] by auto
  have u: "u = (fst (decode_rune s), take ?n s)" and rest: "segs (drop ?n s) = us @ vs"
    using Cons.prems segs_unfold [OF ne] by auto
  have s: "s = ?p @ concat (map snd vs)" using segs_bytes [of s] Cons.prems by simp
  then have p: "?p = take (length ?p) s" by (metis append_eq_conv_conj)
  have len: "?n \<le> length ?p" using u w by simp
  have ne': "?p \<noteq> []" using len w by (metis le_zero_eq list.size(3) not_one_le_zero)
  have "decode_rune ?p = decode_rune s"
    using decode_rune_take [OF ne len] p by simp
  moreover have "drop ?n ?p = concat (map snd us)" "take ?n ?p = take ?n s"
    using u w by auto
  ultimately have "segs ?p = u # segs (concat (map snd us))"
    using segs_unfold [OF ne'] u by simp
  then show ?case using Cons.IH [OF rest] by simp
qed simp

lemma segs_infix: "segs s = us @ zs @ vs \<Longrightarrow> segs (concat (map snd zs)) = zs"
  using segs_suffix [of s us "zs @ vs"] segs_prefix [of "concat (map snd (zs @ vs))" zs vs] by simp

lemma segs_trim_space [trim_simps]:
  "segs (trim_space s) = trim_list (\<lambda>(r, b). is_space r) (segs s)"
proof -
  from trim_list_split [of "segs s" "\<lambda>(r, b). is_space r"] obtain us vs
    where "segs s = us @ trim_list (\<lambda>(r, b). is_space r) (segs s) @ vs"
    by (elim exE conjE)
  then show ?thesis unfolding trim_space_def by (rule segs_infix)
qed

subsection \<open>Laws of trimming\<close>

lemma dropWhile_map': "dropWhile p (map f xs) = map f (dropWhile (\<lambda>x. p (f x)) xs)"
  by (induction xs) auto

lemma trim_list_map: "trim_list p (map f xs) = map f (trim_list (\<lambda>x. p (f x)) xs)"
  by (simp add: trim_list_def dropWhile_map' rev_map)

lemma runes_trim_space [trim_simps]: "runes (trim_space s) = trim_list is_space (runes s)"
  by (simp add: runes_def trim_simps trim_list_map case_prod_beta')

lemma trim_space_eq_iff: "trim_space s = trim_space t" if "segs s = segs t"
  using that by (simp add: trim_space_def)

lemma ink_trim_space [trim_simps]: "ink (trim_space s) = ink s"
  by (simp add: ink_def trim_simps filter_trim_list)

lemma ink_Nil [simp]: "ink [] = []"
  by (simp add: ink_def utf8_simps)

lemma trim_space_eq_Nil: "trim_space s = [] \<longleftrightarrow> ink s = []"
proof -
  have "trim_space s = [] \<longleftrightarrow> trim_list is_space (runes s) = []"
    using segs_eq_Nil [of "trim_space s"] by (metis map_is_Nil_conv runes_def runes_trim_space)
  then show ?thesis by (simp add: trim_list_empty_iff ink_def filter_empty_conv)
qed

lemma trim_space_Nil [simp]: "trim_space [] = []"
  by (simp add: trim_space_eq_Nil)

lemma trim_space_idem [simp]: "trim_space (trim_space s) = trim_space s"
proof -
  have "trim_space (trim_space s) = concat (map snd (segs (trim_space s)))"
    by (subst trim_space_def) (simp add: trim_simps)
  then show ?thesis by (simp only: segs_bytes)
qed

lemma valid_utf8_trim_space [trim_simps]: "valid_utf8 s \<Longrightarrow> valid_utf8 (trim_space s)"
  using set_trim_list [of "\<lambda>(r, b). is_space r" "segs s"]
  by (fastforce simp: valid_utf8_def list_all_iff trim_simps)

lemma ink_sep: "byte c < 0x80 \<Longrightarrow> is_space (byte c) \<Longrightarrow> ink (s @ c # t) = ink s @ ink t"
  by (simp add: ink_def utf8_simps)

lemma is_space_newline [simp]: "is_space 0x0A" "is_space 0x0D" "is_space 0x20"
  by (simp_all add: is_space_def)

lemma ink_newline [trim_simps]: "ink (s @ newline # t) = ink s @ ink t"
  by (rule ink_sep) simp_all

lemma ink_newline_Cons [trim_simps]: "ink (newline # t) = ink t"
  using ink_newline [of "[]" t] by simp

lemma trim_space_id:
  assumes "s \<noteq> []" "\<not> is_space (hd (runes s))" "\<not> is_space (last (runes s))"
  shows "trim_space s = s"
proof -
  have "segs s \<noteq> []" using assms(1) by simp
  then have "trim_list (\<lambda>(r, b). is_space r) (segs s) = segs s"
    using assms(2,3) by (intro trim_list_id) (auto simp: runes_def hd_map last_map case_prod_beta)
  then show ?thesis by (simp add: trim_space_def segs_bytes)
qed

lemma length_trim_list: "length (trim_list p xs) \<le> length xs"
  unfolding trim_list_def using length_dropWhile_le by (metis length_rev le_trans)

lemma rune_count_trim_space: "rune_count (trim_space s) \<le> rune_count s"
  by (simp add: rune_count_def trim_simps length_trim_list)

section \<open>Lines: \<open>bufio.Scanner\<close> with \<open>ScanLines\<close>\<close>

text \<open>
  The scanner delivers the lines of its input without their line end (a newline and one
  carriage return before it). Its buffer grows up to \<open>mx\<close> bytes; a line of \<open>mx\<close> bytes
  or more fills it before the newline is seen, and the scanner stops with
  \<open>bufio.ErrTooLong\<close> after the lines it has already delivered. The result is those lines
  and whether it stopped so.
\<close>

definition drop_cr :: "gostring \<Rightarrow> gostring" where
  "drop_cr l = (if l \<noteq> [] \<and> last l = carriage_return then butlast l else l)"

abbreviation raw_line :: "gostring \<Rightarrow> gostring" where
  "raw_line s \<equiv> takeWhile (\<lambda>c. c \<noteq> newline) s"

abbreviation after_line :: "gostring \<Rightarrow> gostring" where
  "after_line s \<equiv> tl (dropWhile (\<lambda>c. c \<noteq> newline) s)"

lemma after_line_shorter: "s \<noteq> [] \<Longrightarrow> length (after_line s) < length s"
  using length_dropWhile_le [of "\<lambda>c. c \<noteq> newline" s] by (cases s) (simp_all add: le_diff_conv less_Suc_eq_le)

function scan_lines :: "nat \<Rightarrow> gostring \<Rightarrow> gostring list \<times> bool" where
  "scan_lines mx s =
     (if s = [] then ([], False)
      else if mx \<le> length (raw_line s) then ([], True)
      else (let (ls, too_long) = scan_lines mx (after_line s)
            in (drop_cr (raw_line s) # ls, too_long)))"
  by pat_completeness auto
termination
  by (relation "measure (\<lambda>(mx, s). length s)") (simp_all add: after_line_shorter [simplified])

declare scan_lines.simps [simp del]

lemma scan_lines_Nil [simp]: "scan_lines mx [] = ([], False)"
  by (simp add: scan_lines.simps)

lemma scan_lines_step:
  "s \<noteq> [] \<Longrightarrow> length (raw_line s) < mx \<Longrightarrow>
     scan_lines mx s =
       (drop_cr (raw_line s) # fst (scan_lines mx (after_line s)), snd (scan_lines mx (after_line s)))"
  by (simp add: scan_lines.simps [of mx s] split: prod.splits)

lemma raw_line_append: "newline \<notin> set l \<Longrightarrow> raw_line (l @ newline # s) = l"
  by (induction l) auto

lemma after_line_append: "newline \<notin> set l \<Longrightarrow> after_line (l @ newline # s) = s"
  by (induction l) auto

lemma no_newline: "newline \<notin> set s \<Longrightarrow> raw_line s = s" "newline \<notin> set s \<Longrightarrow> after_line s = []"
  by (induction s) auto

lemma scan_lines_line:
  assumes "newline \<notin> set l" "length l < mx"
  shows "scan_lines mx (l @ newline # s) = (drop_cr l # fst (scan_lines mx s), snd (scan_lines mx s))"
  using assms scan_lines_step [of "l @ newline # s" mx] by (simp add: raw_line_append after_line_append)

lemma scan_lines_last:
  assumes "newline \<notin> set l" "length l < mx" "l \<noteq> []"
  shows "scan_lines mx l = ([drop_cr l], False)"
proof -
  show ?thesis using scan_lines_step [OF assms(3), of mx] assms(2) unfolding no_newline [OF assms(1)] by simp
qed

lemma scan_lines_too_long:
  "s \<noteq> [] \<Longrightarrow> mx \<le> length (raw_line s) \<Longrightarrow> scan_lines mx s = ([], True)"
  by (simp add: scan_lines.simps)

lemma line_split: "newline \<in> set s \<Longrightarrow> s = raw_line s @ newline # after_line s"
  by (induction s) auto

lemma ink_drop_cr [trim_simps]: "ink (drop_cr l) = ink l"
proof (cases "l \<noteq> [] \<and> last l = carriage_return")
  case True
  then have "l = butlast l @ carriage_return # []" by (metis append_butlast_last_id)
  then have "ink l = ink (butlast l) @ ink []"
    using ink_sep [of carriage_return "butlast l" "[]"] by simp
  then show ?thesis using True by (simp add: drop_cr_def)
next
  case False
  then have "drop_cr l = l" by (auto simp: drop_cr_def)
  then show ?thesis by simp
qed

lemma ink_first_line: "ink s = ink (raw_line s) @ ink (after_line s)"
proof (cases "newline \<in> set s")
  case True
  then show ?thesis using ink_newline [of "raw_line s" "after_line s"] line_split by metis
next
  case False
  then show ?thesis unfolding no_newline [OF False] by simp
qed

lemma scan_lines_ink: "\<not> snd (scan_lines mx s) \<Longrightarrow> concat (map ink (fst (scan_lines mx s))) = ink s"
proof (induction mx s rule: scan_lines.induct)
  case (1 mx s)
  show ?case
  proof (cases "s = [] \<or> mx \<le> length (raw_line s)")
    case True
    then show ?thesis using "1.prems" by (cases "s = []") (auto simp: scan_lines_too_long)
  next
    case False
    then show ?thesis
      using "1.IH" "1.prems" ink_first_line [of s] by (auto simp: scan_lines_step trim_simps)
  qed
qed

lemma newline_sep_valid: "newline \<in> set s \<Longrightarrow> valid_utf8 s \<longleftrightarrow> valid_utf8 (raw_line s) \<and> valid_utf8 (after_line s)"
  using valid_utf8_sep [of newline "raw_line s" "after_line s"] line_split [of s] by simp

lemma valid_utf8_drop_cr: "valid_utf8 l \<Longrightarrow> valid_utf8 (drop_cr l)"
  using valid_utf8_sep [of carriage_return "butlast l" "[]"]
  by (auto simp: drop_cr_def) (metis append_butlast_last_id)

lemma scan_lines_valid: "valid_utf8 s \<Longrightarrow> l \<in> set (fst (scan_lines mx s)) \<Longrightarrow> valid_utf8 l"
proof (induction mx s rule: scan_lines.induct)
  case (1 mx s)
  show ?case
  proof (cases "s = [] \<or> mx \<le> length (raw_line s)")
    case True
    then show ?thesis using "1.prems" by (cases "s = []") (auto simp: scan_lines_too_long)
  next
    case False
    have "valid_utf8 (raw_line s) \<and> valid_utf8 (after_line s)"
    proof (cases "newline \<in> set s")
      case True
      then show ?thesis using newline_sep_valid "1.prems" by blast
    next
      case False
      then show ?thesis using "1.prems" unfolding no_newline [OF False] by simp
    qed
    with False show ?thesis
      using "1.IH" "1.prems" by (auto simp: scan_lines_step valid_utf8_drop_cr)
  qed
qed

subsection \<open>Lines written back\<close>

text \<open>What a loop that appends every line and a newline rebuilds from the scanned lines.\<close>

definition unlines :: "gostring list \<Rightarrow> gostring" where
  "unlines ls = concat (map (\<lambda>l. l @ [newline]) ls)"

lemma unlines_simps [simp]: "unlines [] = []" "unlines (l # ls) = l @ newline # unlines ls"
  by (simp_all add: unlines_def)

lemma drop_cr_id: "carriage_return \<notin> set l \<Longrightarrow> drop_cr l = l"
  using last_in_set by (force simp: drop_cr_def)

lemma set_raw_line: "set (raw_line s) \<subseteq> set s" "set (after_line s) \<subseteq> set s"
  by (induction s) auto

lemma unlines_scan_lines:
  "\<not> snd (scan_lines mx s) \<Longrightarrow> carriage_return \<notin> set s \<Longrightarrow>
     unlines (fst (scan_lines mx s)) = (if s = [] \<or> last s = newline then s else s @ [newline])"
proof (induction mx s rule: scan_lines.induct)
  case (1 mx s)
  show ?case
  proof (cases "s = [] \<or> mx \<le> length (raw_line s)")
    case True
    then show ?thesis using "1.prems" by (cases "s = []") (auto simp: scan_lines_too_long)
  next
    case False
    have cr: "carriage_return \<notin> set (raw_line s)" "carriage_return \<notin> set (after_line s)"
      using "1.prems"(2) set_raw_line [of s] by blast+
    have IH: "unlines (fst (scan_lines mx (after_line s)))
        = (if after_line s = [] \<or> last (after_line s) = newline then after_line s else after_line s @ [newline])"
      using "1.IH" "1.prems" False cr(2) by (auto simp: scan_lines_step)
    have eq: "unlines (fst (scan_lines mx s)) = raw_line s @ newline # unlines (fst (scan_lines mx (after_line s)))"
      using False cr(1) by (simp add: scan_lines_step drop_cr_id)
    show ?thesis
    proof (cases "newline \<in> set s")
      case True
      have last: "last s = (if after_line s = [] then newline else last (after_line s))"
        by (subst line_split [OF True]) simp
      show ?thesis using eq IH last line_split [OF True] False by auto
    next
      case nl: False
      then have "last s \<noteq> newline" using False last_in_set by metis
      then show ?thesis using eq False unfolding no_newline [OF nl] by simp
    qed
  qed
qed

lemma trim_list_Cons: "p x \<Longrightarrow> trim_list p (x # xs) = trim_list p xs"
  by (simp add: trim_list_def)

lemma trim_space_space_Cons [trim_simps]: "trim_space (CHR '' '' # s) = trim_space s"
  by (simp add: trim_space_def segs_ascii trim_list_Cons)

lemma trim_space_fixed_last:
  assumes "trim_space s = s" "s \<noteq> []"
  shows "\<not> is_space (last (runes s))"
proof -
  have "runes s = trim_list is_space (runes s)" using runes_trim_space [of s] assms(1) by simp
  moreover have "runes s \<noteq> []" using assms(2) by (simp add: runes_def)
  ultimately show ?thesis using trim_list_last [of is_space "runes s"] by metis
qed

lemma trim_list_snoc: "p x \<Longrightarrow> trim_list p (xs @ [x]) = trim_list p xs"
proof (cases "\<forall>y\<in>set xs. p y")
  case True
  moreover assume "p x"
  ultimately have "trim_list p (xs @ [x]) = []" "trim_list p xs = []" by (simp_all add: trim_list_empty_iff)
  then show ?thesis by simp
next
  case False
  moreover assume "p x"
  ultimately show ?thesis by (auto simp: trim_list_def dropWhile_append1)
qed

lemma trim_space_snoc_newline [trim_simps]: "trim_space (s @ [newline]) = trim_space s"
  using segs_sep [of newline s "[]"] trim_list_snoc [of "\<lambda>(r, b). is_space r" "(byte newline, [newline])" "segs s"]
  by (simp add: trim_space_def)

section \<open>Cutting, case and numbers\<close>

text \<open>\<open>strings.Cut\<close> at a one-byte separator: before, after, found.\<close>

definition cut_at :: "char \<Rightarrow> gostring \<Rightarrow> gostring \<times> gostring \<times> bool" where
  "cut_at c s =
     (if c \<in> set s then (takeWhile (\<lambda>x. x \<noteq> c) s, tl (dropWhile (\<lambda>x. x \<noteq> c) s), True) else (s, [], False))"

lemma cut_at_found: "c \<notin> set s \<Longrightarrow> cut_at c (s @ c # t) = (s, t, True)"
proof -
  assume a: "c \<notin> set s"
  then have "takeWhile (\<lambda>x. x \<noteq> c) (s @ c # t) = s" "dropWhile (\<lambda>x. x \<noteq> c) (s @ c # t) = c # t"
    by (induction s) auto
  then show ?thesis by (simp add: cut_at_def)
qed

text \<open>
  \<open>strings.ToLower\<close> maps every rune and encodes the result. ASCII letters are written out;
  the case table of the remaining runes is Unicode data, a parameter \<open>ul\<close>.
\<close>

definition lower_rune :: "(rune \<Rightarrow> rune) \<Rightarrow> rune \<Rightarrow> rune" where
  "lower_rune ul r = (if r < 0x80 then (if 65 \<le> r \<and> r \<le> 90 then r + 32 else r) else ul r)"

definition to_lower :: "(rune \<Rightarrow> rune) \<Rightarrow> gostring \<Rightarrow> gostring" where
  "to_lower ul s = of_runes (map (lower_rune ul) (runes s))"

definition has_suffix :: "gostring \<Rightarrow> gostring \<Rightarrow> bool" where
  "has_suffix suf s \<longleftrightarrow> length suf \<le> length s \<and> drop (length s - length suf) s = suf"

fun contains_sub :: "gostring \<Rightarrow> gostring \<Rightarrow> bool" where
  "contains_sub sub [] = (sub = [])"
| "contains_sub sub (c # s) = (take (length sub) (c # s) = sub \<or> contains_sub sub s)"

text \<open>
  \<open>strconv.Atoi\<close>: an optional sign, then decimal digits, within the range of a 64-bit
  integer; \<open>None\<close> is the error.
\<close>

definition int64_range :: "int \<Rightarrow> bool" where
  "int64_range v \<longleftrightarrow> - (2 ^ 63) \<le> v \<and> v < 2 ^ 63"

definition atoi :: "gostring \<Rightarrow> int option" where
  "atoi s =
     (let neg = (s \<noteq> [] \<and> hd s = CHR ''-'');
          ds = (if s \<noteq> [] \<and> (hd s = CHR ''-'' \<or> hd s = CHR ''+'') then tl s else s);
          v = (if neg then - int (digits_value ds) else int (digits_value ds))
      in if ds \<noteq> [] \<and> list_all is_digit ds \<and> int64_range v then Some v else None)"

lemma show_nat_no_sign: "show_nat n \<noteq> [] \<and> hd (show_nat n) \<noteq> CHR ''-'' \<and> hd (show_nat n) \<noteq> CHR ''+''"
  using show_nat_digits [of "hd (show_nat n)" n] by (auto simp: is_digit_def)

lemma atoi_show_int: "int64_range v \<Longrightarrow> atoi (show_int v) = Some v"
  using show_nat_no_sign by (auto simp: atoi_def show_int_def Let_def list_all_iff dest: show_nat_digits)

lemma to_lower_Nil [simp]: "to_lower ul [] = []"
  by (simp add: to_lower_def utf8_simps)

lemma to_lower_ascii:
  assumes "\<forall>c\<in>set s. byte c < 0x80"
  shows "to_lower ul s = map (\<lambda>c. if 65 \<le> byte c \<and> byte c \<le> 90 then char_of (byte c + 32) else c) s"
  using assms
  by (induction s)
    (auto simp: to_lower_def utf8_simps of_runes_Cons lower_rune_def encode_rune_def)

section \<open>Quoting\<close>

text \<open>
  The \<open>%q\<close> verb (\<open>strconv.Quote\<close>) and \<open>%x\<close>: the parameter \<open>pr\<close> is
  \<open>unicode.IsPrint\<close> beyond ASCII, a data table of the standard library.
\<close>

definition hex_digit :: "nat \<Rightarrow> char" where
  "hex_digit d = char_of (if d < 10 then 48 + d else 87 + d)"

fun show_hex :: "nat \<Rightarrow> nat \<Rightarrow> gostring" where
  "show_hex 0 n = []"
| "show_hex (Suc k) n = show_hex k (n div 16) @ [hex_digit (n mod 16)]"

definition quote_escape :: "rune \<Rightarrow> char option" where
  "quote_escape r = map_of (zip [7, 8, 12, 10, 13, 9, 11] ''abfnrtv'') r"

definition quote_rune :: "(rune \<Rightarrow> bool) \<Rightarrow> rune \<times> gostring \<Rightarrow> gostring" where
  "quote_rune pr = (\<lambda>(r, seg).
      let esc = [CHR 0x5C]
      in if r = 0xFFFD \<and> length seg = 1 then esc @ ''x'' @ show_hex 2 (byte (hd seg))
         else if r = 0x22 \<or> r = 0x5C then esc @ encode_rune r
         else if (if r < 0x80 then 0x20 \<le> r \<and> r < 0x7F else pr r) then encode_rune r
         else (case quote_escape r of
                 Some c \<Rightarrow> esc @ [c]
               | None \<Rightarrow>
                   if r < 0x20 \<or> r = 0x7F then esc @ ''x'' @ show_hex 2 r
                   else if r < 0x10000 then esc @ ''u'' @ show_hex 4 r
                   else esc @ ''U'' @ show_hex 8 r))"

definition go_quote :: "(rune \<Rightarrow> bool) \<Rightarrow> gostring \<Rightarrow> gostring" where
  "go_quote pr s = [CHR 0x22] @ concat (map (quote_rune pr) (segs s)) @ [CHR 0x22]"

end
