(* ===== verification/GoError.thy ===== *)
theory GoError
  imports GoText
begin

text \<open>
  Go errors as values. A sentinel (\<open>errors.New\<close> bound to a package variable) is
  compared by identity, so each sentinel the program tests for is a constructor of its
  own; every other error is carried by its text, and the wrappers the code builds
  (\<open>fmt.Errorf\<close> with \<open>%w\<close>, \<open>errors.Join\<close>, \<open>backoff.Mark\<close>) keep what they
  wrap. A nil error is \<open>None\<close>.
\<close>

text \<open>A decoded JSON value, \<open>any\<close> after \<open>json.Unmarshal\<close>; a number is its text.\<close>

datatype json =
    JNull
  | JBool bool
  | JNum gostring
  | JStr gostring
  | JArr "json list"
  | JObj "(gostring \<times> json) list"

datatype sentinel =
    ErrInvalidChunkSize
  | ErrUnclosedFrontmatter
  | ErrNoGenerator
  | ErrTooLong
  | Canceled
  | DeadlineExceeded
  | ErrServerClosed

datatype goerr =
    Sentinel sentinel
  | Plain gostring
  | NetErr gostring                     \<comment> \<open>an error that satisfies \<open>net.Error\<close>\<close>
  | UrlErr gostring goerr               \<comment> \<open>\<open>*url.Error\<close>: satisfies \<open>net.Error\<close> and wraps its cause\<close>
  | ApiErr int "(gostring \<times> json) list list" gostring  \<comment> \<open>\<open>genai.APIError\<close>: code, details, text\<close>
  | Wrapf gostring goerr gostring       \<comment> \<open>\<open>fmt.Errorf("...%w...", err)\<close>\<close>
  | Joined "goerr list"                 \<comment> \<open>\<open>errors.Join\<close> of one error or more\<close>
  | Retryable goerr int                 \<comment> \<open>\<open>backoff.Retryable\<close>: the error and its hint in nanoseconds\<close>

type_synonym 'a result = "goerr + 'a"

fun sentinel_text :: "sentinel \<Rightarrow> gostring" where
  "sentinel_text ErrInvalidChunkSize = ''chunk size must be greater than 0''"
| "sentinel_text ErrUnclosedFrontmatter = ''unclosed frontmatter''"
| "sentinel_text ErrNoGenerator = ''knowledge: no generation provider configured''"
| "sentinel_text ErrTooLong = ''bufio.Scanner: token too long''"
| "sentinel_text Canceled = ''context canceled''"
| "sentinel_text DeadlineExceeded = ''context deadline exceeded''"
| "sentinel_text ErrServerClosed = ''http: Server closed''"

text \<open>The \<open>Error\<close> method.\<close>

fun err_text :: "goerr \<Rightarrow> gostring" where
  "err_text (Sentinel s) = sentinel_text s"
| "err_text (Plain t) = t"
| "err_text (NetErr t) = t"
| "err_text (UrlErr t e) = t @ '': '' @ err_text e"
| "err_text (ApiErr code details t) = t"
| "err_text (Wrapf pre e post) = pre @ err_text e @ post"
| "err_text (Joined es) = join [newline] (map err_text es)"
| "err_text (Retryable e after) = err_text e"

text \<open>\<open>errors.Is(err, target)\<close> for a sentinel: anywhere in the tree of wrapped errors.\<close>

fun is_err :: "sentinel \<Rightarrow> goerr \<Rightarrow> bool" where
  "is_err t (Sentinel s) = (s = t)"
| "is_err t (Plain _) = False"
| "is_err t (NetErr _) = False"
| "is_err t (UrlErr _ e) = is_err t e"
| "is_err t (ApiErr _ _ _) = False"
| "is_err t (Wrapf _ e _) = is_err t e"
| "is_err t (Joined es) = list_ex (is_err t) es"
| "is_err t (Retryable e _) = is_err t e"

text \<open>
  \<open>errors.As\<close>: the first match in a depth-first, left-to-right walk of the tree.
\<close>

fun first_some :: "'a option list \<Rightarrow> 'a option" where
  "first_some [] = None"
| "first_some (Some x # xs) = Some x"
| "first_some (None # xs) = first_some xs"

fun as_retryable :: "goerr \<Rightarrow> (goerr \<times> int) option" where
  "as_retryable (Retryable e after) = Some (e, after)"
| "as_retryable (Wrapf _ e _) = as_retryable e"
| "as_retryable (UrlErr _ e) = as_retryable e"
| "as_retryable (Joined es) = first_some (map as_retryable es)"
| "as_retryable _ = None"

text \<open>\<open>context.DeadlineExceeded\<close> has the methods of \<open>net.Error\<close> too.\<close>

fun as_net_error :: "goerr \<Rightarrow> bool" where
  "as_net_error (NetErr _) = True"
| "as_net_error (UrlErr _ _) = True"
| "as_net_error (Sentinel s) = (s = DeadlineExceeded)"
| "as_net_error (Wrapf _ e _) = as_net_error e"
| "as_net_error (Joined es) = list_ex as_net_error es"
| "as_net_error (Retryable e _) = as_net_error e"
| "as_net_error _ = False"

fun as_api_error :: "goerr \<Rightarrow> (int \<times> (gostring \<times> json) list list) option" where
  "as_api_error (ApiErr code details _) = Some (code, details)"
| "as_api_error (Wrapf _ e _) = as_api_error e"
| "as_api_error (UrlErr _ e) = as_api_error e"
| "as_api_error (Joined es) = first_some (map as_api_error es)"
| "as_api_error (Retryable e _) = as_api_error e"
| "as_api_error _ = None"

text \<open>\<open>errors.Join\<close> on non-nil errors: nil when there is none.\<close>

definition join_errs :: "goerr list \<Rightarrow> goerr option" where
  "join_errs es = (if es = [] then None else Some (Joined es))"

text \<open>\<open>fmt.Errorf("prefix: %w", err)\<close>, the usual form.\<close>

abbreviation wrap :: "gostring \<Rightarrow> goerr \<Rightarrow> goerr" where
  "wrap pre e \<equiv> Wrapf (pre @ '': '') e ''''"

definition ctx_sentinel :: "goerr \<Rightarrow> bool" where
  "ctx_sentinel e \<longleftrightarrow> is_err Canceled e \<or> is_err DeadlineExceeded e"

lemma first_some_None [err_simps]: "first_some xs = None \<longleftrightarrow> (\<forall>x\<in>set xs. x = None)"
  by (induction xs rule: first_some.induct) auto

lemma first_some_in: "first_some xs = Some y \<Longrightarrow> Some y \<in> set xs"
  by (induction xs rule: first_some.induct) auto

lemma join_errs_None [err_simps]: "join_errs es = None \<longleftrightarrow> es = []"
  by (simp add: join_errs_def)

lemma is_err_join [err_simps]: "join_errs es = Some e \<Longrightarrow> is_err t e \<longleftrightarrow> (\<exists>x\<in>set es. is_err t x)"
  by (auto simp: join_errs_def list_ex_iff split: if_splits)

end
