(* ===== verification/Backoff.thy ===== *)
theory Backoff
  imports GoError
begin

text \<open>
  \<open>backoff\<close>: the retry policy of every outbound call (\<open>backoff.go\<close>), the reading of
  HTTP statuses, headers and transport errors (\<open>http.go\<close>) and of Google's error details
  (\<open>google.go\<close>). A \<open>time.Duration\<close> is its number of nanoseconds, an \<open>int\<close>; where
  the code multiplies one, the wrap-around at 64 bits is written out.

  The world a retry loop runs in is a state of any type, seen through \<open>world\<close>: whether
  the context is done, the 53 random bits behind \<open>rand.Float64\<close>, and how a timer's wait
  ends. \<open>time.ParseDuration\<close>, \<open>http.ParseTime\<close> and the clock are parameters.
\<close>

section \<open>Floating point\<close>

text \<open>
  The conversions of a positive integer to \<open>float64\<close>, and products of one with 53 random
  bits, round to 53 significant bits, ties to even.
\<close>

fun bit_length :: "nat \<Rightarrow> nat" where
  "bit_length n = (if n = 0 then 0 else Suc (bit_length (n div 2)))"

declare bit_length.simps [simp del]

definition round53 :: "nat \<Rightarrow> nat" where
  "round53 n =
     (let e = bit_length n - 53; q = n div 2 ^ e; r = n mod 2 ^ e
      in if e = 0 then n
         else if 2 ^ (e - 1) < r \<or> r = 2 ^ (e - 1) \<and> odd q then (q + 1) * 2 ^ e else q * 2 ^ e)"

lemma bit_length_bounds: "n < 2 ^ bit_length n \<and> (0 < n \<longrightarrow> 2 ^ bit_length n \<le> 2 * n)"
proof (induction n rule: bit_length.induct)
  case (1 n)
  show ?case
  proof (cases "n = 0")
    case True
    then show ?thesis by (simp add: bit_length.simps)
  next
    case False
    then have eq: "bit_length n = Suc (bit_length (n div 2))" by (subst bit_length.simps) simp
    have half: "n = 2 * (n div 2) + n mod 2" by simp
    show ?thesis
    proof (cases "n div 2 = 0")
      case True
      then have "n = 1" using False by simp
      then show ?thesis using True eq by (simp add: bit_length.simps [of 0])
    next
      case nz: False
      have "n div 2 < 2 ^ bit_length (n div 2)" "2 ^ bit_length (n div 2) \<le> 2 * (n div 2)"
        using 1 [OF False] nz by auto
      then show ?thesis using eq half by (simp, linarith)
    qed
  qed
qed

lemma round53_small: "n < 2 ^ 53 \<Longrightarrow> round53 n = n"
proof -
  assume small: "n < 2 ^ 53"
  have "bit_length n \<le> 53"
  proof (cases "n = 0")
    case False
    then have "(2::nat) ^ bit_length n < 2 ^ 54"
      using bit_length_bounds [of n] small by simp
    then have "bit_length n < 54" by (rule power_less_imp_less_exp [rotated]) simp
    then show ?thesis by simp
  qed (simp add: bit_length.simps)
  then show ?thesis by (simp add: round53_def)
qed

text \<open>A product with a fraction below one stays below the other factor after rounding.\<close>

lemma round53_fraction:
  assumes "k < 2 ^ 53" "0 < w"
  shows "round53 (k * w) < 2 ^ 53 * w"
proof -
  define n e where "n = k * w" and "e = bit_length n - 53"
  define q r where "q = n div 2 ^ e" and "r = n mod 2 ^ e"
  have val: "round53 n = (if e = 0 then n
      else if 2 ^ (e - 1) < r \<or> r = 2 ^ (e - 1) \<and> odd q then (q + 1) * 2 ^ e else q * 2 ^ e)"
    by (simp add: round53_def e_def q_def r_def Let_def)
  have n: "n = q * 2 ^ e + r" "r < 2 ^ e"
    by (simp_all add: q_def r_def div_mult_mod_eq)
  have less: "n + w \<le> 2 ^ 53 * w"
  proof -
    have "n + w = (k + 1) * w" by (simp add: n_def)
    also have "\<dots> \<le> 2 ^ 53 * w" using assms by (intro mult_right_mono) auto
    finally show ?thesis .
  qed
  show ?thesis
  proof (cases "e \<noteq> 0 \<and> (2 ^ (e - 1) < r \<or> r = 2 ^ (e - 1) \<and> odd q)")
    case True
    then obtain e' where e': "e = Suc e'" by (cases e) auto
    have "bit_length n = e + 53" using True by (auto simp: e_def)
    then have big: "2 ^ (e + 53) \<le> 2 * n" "0 < n"
      using bit_length_bounds [of n] by (auto simp: bit_length.simps [of 0] intro: gr0I)
    have r: "2 ^ e' \<le> r" using True e' by auto
    have "(q + 1) * 2 ^ e < 2 ^ 53 * w"
    proof (rule ccontr)
      assume "\<not> ?thesis"
      then have "n + w \<le> (q + 1) * 2 ^ e" using less by linarith
      then have "w \<le> 2 ^ e'" using n r e' by (simp add: algebra_simps)
      then have "2 ^ 53 * w \<le> 2 ^ 53 * 2 ^ e'" by simp
      moreover have "(2::nat) ^ (e + 53) = 2 * (2 ^ 53 * 2 ^ e')" using e' by (simp add: power_add)
      ultimately show False using less big assms(2) by linarith
    qed
    then show ?thesis using True val by (simp add: n_def)
  next
    case False
    then have "round53 n \<le> n" using n val by auto
    then show ?thesis using less assms(2) unfolding n_def [symmetric] by linarith
  qed
qed

section \<open>The policy\<close>

type_synonym Duration = int

abbreviation millisecond :: Duration where
  "millisecond \<equiv> 1000000"

abbreviation second :: Duration where
  "second \<equiv> 1000000000"

text \<open>\<open>Mark\<close>: a nil error stays nil.\<close>

definition Mark :: "goerr option \<Rightarrow> Duration \<Rightarrow> goerr option" where
  "Mark err after = map_option (\<lambda>e. Retryable e after) err"

record Policy =
  MaxAttempts :: int
  Base :: Duration
  Max :: Duration

definition Default :: Policy where
  "Default = \<lparr>MaxAttempts = 4, Base = 500 * millisecond, Max = 60 * second\<rparr>"

definition normalized :: "Policy \<Rightarrow> Policy" where
  "normalized p =
     (let p = (if MaxAttempts p < 1 then p\<lparr>MaxAttempts := 1\<rparr> else p);
          p = (if Base p \<le> 0 then p\<lparr>Base := Base Default\<rparr> else p)
      in if Max p \<le> 0 then p\<lparr>Max := Max Default\<rparr> else p)"

text \<open>
  What the loop can see of the world: whether the context is done, the random bits, and
  the outcome of waiting for a timer or the context, whichever the \<open>select\<close> takes.
\<close>

record 's world =
  ctxErr :: "'s \<Rightarrow> goerr option"
  randBits :: "'s \<Rightarrow> nat \<times> 's"
  timer :: "Duration \<Rightarrow> 's \<Rightarrow> goerr option \<times> 's"

text \<open>\<open>time.Duration(rand.Float64() * window)\<close>, with \<open>rand.Float64() = k / 2^53\<close>.\<close>

definition jitter :: "nat \<Rightarrow> nat \<Rightarrow> Duration" where
  "jitter k window = int (round53 (k mod 2 ^ 53 * window) div 2 ^ 53)"

definition backoff_window :: "Policy \<Rightarrow> int \<Rightarrow> nat" where
  "backoff_window p attempt =
     (let window = round53 (nat (Base p)) * 2 ^ nat (attempt - 1)
      in if round53 (nat (Max p)) < window then round53 (nat (Max p)) else window)"

definition delay :: "'s world \<Rightarrow> Policy \<Rightarrow> int \<Rightarrow> Duration \<Rightarrow> 's \<Rightarrow> Duration \<times> 's" where
  "delay w p attempt hint s =
     (if hint > 0 then (min hint (Max p), s)
      else (let (k, s) = randBits w s in (jitter k (backoff_window p attempt), s)))"

definition sleep :: "'s world \<Rightarrow> Duration \<Rightarrow> 's \<Rightarrow> goerr option \<times> 's" where
  "sleep w d s = (if d \<le> 0 then (None, s) else timer w d s)"

definition attempts_text :: "gostring \<Rightarrow> int \<Rightarrow> gostring" where
  "attempts_text pre n = pre @ show_int n @ '' attempt(s): ''"

text \<open>The loop of \<open>Do\<close>, from the given attempt on.\<close>

function do_loop ::
  "'s world \<Rightarrow> Policy \<Rightarrow> ('s \<Rightarrow> goerr option \<times> 's) \<Rightarrow> goerr option \<Rightarrow> int \<Rightarrow> 's \<Rightarrow> goerr option \<times> 's" where
  "do_loop w p op lastErr attempt s =
     (case ctxErr w s of
        Some err \<Rightarrow>
          (case lastErr of
             Some l \<Rightarrow> (Some (Wrapf (attempts_text ''after '' (attempt - 1)) (Joined [l, err]) []), s)
           | None \<Rightarrow> (Some err, s))
      | None \<Rightarrow>
          (case op s of
             (None, s) \<Rightarrow> (None, s)
           | (Some err, s) \<Rightarrow>
               (case as_retryable err of
                  None \<Rightarrow> (Some err, s)
                | Some (_, after) \<Rightarrow>
                    if attempt \<ge> MaxAttempts p then
                      (Some (Wrapf (attempts_text ''giving up after '' attempt) err []), s)
                    else
                      (let (d, s) = delay w p attempt after s in
                       case sleep w d s of
                         (Some e, s) \<Rightarrow>
                           (Some (Wrapf (attempts_text ''while backing off after '' attempt) (Joined [err, e]) []), s)
                       | (None, s) \<Rightarrow> do_loop w p op (Some err) (attempt + 1) s))))"
  by pat_completeness auto
termination
  by (relation "measure (\<lambda>(w, p, op, l, attempt, s). nat (MaxAttempts p - attempt))") auto

declare do_loop.simps [simp del]

definition Do :: "'s world \<Rightarrow> Policy \<Rightarrow> ('s \<Rightarrow> goerr option \<times> 's) \<Rightarrow> 's \<Rightarrow> goerr option \<times> 's" where
  "Do w p op s = do_loop w (normalized p) op None 1 s"

section \<open>Statuses, headers and transport errors\<close>

definition IsTransientStatus :: "int \<Rightarrow> bool" where
  "IsTransientStatus code \<longleftrightarrow> code = 429 \<or> code = 408 \<or> code \<ge> 500"

text \<open>
  \<open>time.Duration(secs) * time.Second\<close> in 64 bits; \<open>until\<close> is \<open>time.Until\<close> of the date
  \<open>http.ParseTime\<close> reads, if it reads one.
\<close>

definition mul_second :: "int \<Rightarrow> Duration" where
  "mul_second secs = sint (word_of_int secs * word_of_int second :: 64 word)"

definition ParseRetryAfter :: "(gostring \<Rightarrow> Duration option) \<Rightarrow> gostring \<Rightarrow> Duration" where
  "ParseRetryAfter until h =
     (if h = [] then 0
      else (case atoi h of
              Some secs \<Rightarrow>
                if secs \<ge> 0 then mul_second secs
                else (case until h of Some d \<Rightarrow> if d > 0 then d else 0 | None \<Rightarrow> 0)
            | None \<Rightarrow> (case until h of Some d \<Rightarrow> if d > 0 then d else 0 | None \<Rightarrow> 0)))"

definition MarkTransport :: "goerr option \<Rightarrow> goerr option" where
  "MarkTransport err =
     (case err of
        None \<Rightarrow> None
      | Some e \<Rightarrow>
          if is_err Canceled e \<or> is_err DeadlineExceeded e then Some e
          else if as_net_error e then Mark (Some e) 0
          else Some e)"

section \<open>Google's error details\<close>

text \<open>The type assertions \<open>x.(string)\<close> of a looked-up value, with the zero value on failure.\<close>

fun json_string :: "json option \<Rightarrow> gostring option" where
  "json_string (Some (JStr s)) = Some s"
| "json_string _ = None"

fun json_array :: "json option \<Rightarrow> json list" where
  "json_array (Some (JArr xs)) = xs"
| "json_array _ = []"

fun json_object :: "json \<Rightarrow> (gostring \<times> json) list" where
  "json_object (JObj kvs) = kvs"
| "json_object _ = []"

definition string_or_empty :: "gostring option \<Rightarrow> gostring" where
  "string_or_empty s = (case s of Some s \<Rightarrow> s | None \<Rightarrow> [])"

definition violation_per_day :: "json \<Rightarrow> bool" where
  "violation_per_day v =
     contains_sub ''PerDay'' (string_or_empty (json_string (map_of (json_object v) ''quotaId'')))"

definition google_step ::
  "(gostring \<Rightarrow> Duration option) \<Rightarrow> Duration \<times> bool \<Rightarrow> (gostring \<times> json) list \<Rightarrow> Duration \<times> bool" where
  "google_step parseDuration acc d =
     (let (after, daily) = acc;
          typ = string_or_empty (json_string (map_of d ''@type''))
      in if has_suffix ''google.rpc.RetryInfo'' typ then
           (case json_string (map_of d ''retryDelay'') of
              Some s \<Rightarrow> (case parseDuration s of
                          Some v \<Rightarrow> if v > 0 then (v, daily) else (after, daily)
                        | None \<Rightarrow> (after, daily))
            | None \<Rightarrow> (after, daily))
         else if has_suffix ''google.rpc.QuotaFailure'' typ then
           foldl (\<lambda>(after, daily) v. (after, daily \<or> violation_per_day v)) (after, daily)
             (json_array (map_of d ''violations''))
         else (after, daily))"

definition GoogleHint ::
  "(gostring \<Rightarrow> Duration option) \<Rightarrow> (gostring \<times> json) list list \<Rightarrow> Duration \<times> bool" where
  "GoogleHint parseDuration details = foldl (google_step parseDuration) (0, False) details"

section \<open>The calls a retry loop makes\<close>

text \<open>
  A world with more state beside the one it acts on, and an operation that logs there what
  each of its calls returned.
\<close>

definition logged :: "('s \<Rightarrow> goerr option \<times> 's) \<Rightarrow> 's \<times> goerr option list \<Rightarrow> goerr option \<times> 's \<times> goerr option list" where
  "logged op sl = (case op (fst sl) of (r, s) \<Rightarrow> (r, s, snd sl @ [r]))"

definition beside :: "'s world \<Rightarrow> ('s \<times> 'o) world" where
  "beside w =
     \<lparr>ctxErr = \<lambda>sl. ctxErr w (fst sl),
      randBits = \<lambda>sl. (case randBits w (fst sl) of (k, s) \<Rightarrow> (k, s, snd sl)),
      timer = \<lambda>d sl. (case timer w d (fst sl) of (e, s) \<Rightarrow> (e, s, snd sl))\<rparr>"

abbreviation retryable :: "goerr \<Rightarrow> bool" where
  "retryable e \<equiv> as_retryable e \<noteq> None"

text \<open>
  What a run from attempt \<open>n\<close> on returns, given the previous error \<open>l\<close>, what the calls
  returned and whether the context was done before the first.
\<close>

definition run_outcome ::
  "goerr option \<Rightarrow> int \<Rightarrow> goerr option \<Rightarrow> int \<Rightarrow> goerr option list \<Rightarrow> goerr option \<Rightarrow> bool" where
  "run_outcome done m l n calls res \<longleftrightarrow>
     (n \<le> m \<longrightarrow> n + int (length calls) \<le> m + 1) \<and>
     (\<forall>r\<in>set (butlast calls). \<exists>e. r = Some e \<and> retryable e) \<and>
     (if calls = [] then
        (\<exists>c. done = Some c \<and> (case l of None \<Rightarrow> res = done
              | Some l \<Rightarrow> \<exists>pre. res = Some (Wrapf pre (Joined [l, c]) [])))
      else (case last calls of
              None \<Rightarrow> res = None
            | Some e \<Rightarrow>
                if \<not> retryable e then res = Some e
                else (\<exists>pre. res = Some (Wrapf pre e []) \<and> (n \<le> m \<longrightarrow> n + int (length calls) = m + 1)) \<or>
                     (\<exists>pre c. res = Some (Wrapf pre (Joined [e, c]) []))))"

lemma run_outcome_Cons:
  assumes "run_outcome d m (Some e) (n + 1) calls res" "retryable e" "n < m"
  shows "run_outcome d' m l n (Some e # calls) res"
  using assms by (cases calls) (auto simp: run_outcome_def split: option.splits if_splits)

lemma delay_beside:
  "delay (beside w) p n hint (s, log) = (case delay w p n hint s of (d, s) \<Rightarrow> (d, s, log))"
  by (simp add: delay_def beside_def split: prod.splits)

lemma sleep_beside: "sleep (beside w) d (s, log) = (case sleep w d s of (e, s) \<Rightarrow> (e, s, log))"
  by (simp add: sleep_def beside_def)

lemma ctxErr_beside [simp]: "ctxErr (beside w) (s, log) = ctxErr w s"
  by (simp add: beside_def)

lemma do_loop_logged:
  "\<exists>calls. do_loop (beside w) p (logged op) l n (s, log) =
       (fst (do_loop w p op l n s), snd (do_loop w p op l n s), log @ calls) \<and>
     run_outcome (ctxErr w s) (MaxAttempts p) l n calls (fst (do_loop w p op l n s))"
proof (induction w p op l n s arbitrary: log rule: do_loop.induct)
  case (1 w p op l n s)
  show ?case
  proof (cases "ctxErr w s")
    case (Some c)
    then show ?thesis
      by (subst do_loop.simps, subst (2 3 4) do_loop.simps)
        (auto simp: run_outcome_def split: option.splits)
  next
    case None
    obtain r s1 where op: "op s = (r, s1)" by fastforce
    show ?thesis
    proof (cases "\<exists>e. r = Some e \<and> retryable e \<and> n < MaxAttempts p")
      case False
      then have "do_loop (beside w) p (logged op) l n (s, log) =
          (fst (do_loop w p op l n s), snd (do_loop w p op l n s), log @ [r])"
        "run_outcome (ctxErr w s) (MaxAttempts p) l n [r] (fst (do_loop w p op l n s))"
        using None op
        by (subst do_loop.simps, subst (2 3) do_loop.simps,
            auto simp: logged_def split: option.splits)
          (subst do_loop.simps, auto simp: run_outcome_def split: option.splits)
      then show ?thesis by blast
    next
      case True
      then obtain e e0 after where e: "r = Some e" "as_retryable e = Some (e0, after)" "n < MaxAttempts p"
        by auto
      obtain d s2 where d: "delay w p n after s1 = (d, s2)" by fastforce
      obtain z s3 where z: "sleep w d s2 = (z, s3)" by fastforce
      show ?thesis
      proof (cases z)
        case (Some c)
        then show ?thesis
          using None op e d z
          by (intro exI [of _ "[r]"], subst do_loop.simps, subst (2 3 4) do_loop.simps)
            (simp add: logged_def delay_beside sleep_beside run_outcome_def)
      next
        case zNone: None
        from None op e d z zNone have eq: "do_loop w p op l n s = do_loop w p op r (n + 1) s3"
          by (subst do_loop.simps) simp
        from None op e d z zNone have eq': "do_loop (beside w) p (logged op) l n (s, log) =
            do_loop (beside w) p (logged op) r (n + 1) (s3, log @ [r])"
          by (subst do_loop.simps) (simp add: logged_def delay_beside sleep_beside)
        have "\<exists>calls. do_loop (beside w) p (logged op) r (n + 1) (s3, log @ [r]) =
             (fst (do_loop w p op r (n + 1) s3), snd (do_loop w p op r (n + 1) s3), (log @ [r]) @ calls) \<and>
           run_outcome (ctxErr w s3) (MaxAttempts p) r (n + 1) calls (fst (do_loop w p op r (n + 1) s3))"
          unfolding e(1) by (rule "1" [OF None op [symmetric] e(1) e(2) refl]) (use e d z zNone in auto)
        then obtain calls where
          "do_loop (beside w) p (logged op) r (n + 1) (s3, log @ [r]) =
             (fst (do_loop w p op r (n + 1) s3), snd (do_loop w p op r (n + 1) s3), (log @ [r]) @ calls)"
          "run_outcome (ctxErr w s3) (MaxAttempts p) r (n + 1) calls (fst (do_loop w p op r (n + 1) s3))"
          by blast
        with e show ?thesis unfolding eq eq'
          by (intro exI [of _ "r # calls"]) (auto intro: run_outcome_Cons)
      qed
    qed
  qed
qed

text \<open>A run that succeeds ends with a call that succeeded, in the state that call left.\<close>

lemma do_loop_success: "do_loop w p op l n s = (None, s') \<Longrightarrow> \<exists>s0. op s0 = (None, s')"
proof (induction w p op l n s rule: do_loop.induct)
  case (1 w p op l n s)
  then show ?case
    by (subst (asm) (2) do_loop.simps) (auto split: option.splits prod.splits if_splits)
qed

lemma Do_success: "Do w p op s = (None, s') \<Longrightarrow> \<exists>s0. op s0 = (None, s')"
  unfolding Do_def by (rule do_loop_success)

text \<open>
  C29. What a retried operation is called for and what \<open>Do\<close> returns, for every
  operation, policy and world. Logging the calls changes nothing. At most
  \<open>MaxAttempts\<close> calls are made (one, if the policy says less than one). Every call but
  the last failed with an error marked as retryable, so an unmarked error, or success, ends
  the run at once and is what \<open>Do\<close> returns. When the last call failed with a marked error,
  \<open>Do\<close> returns an error that wraps it: either all attempts were used, or the wait or the
  context ended the run and that error is joined to it. Without any call, the context was
  done and its error is returned.
\<close>

theorem Do_calls:
  "\<exists>calls. Do (beside w) p (logged op) (s, []) = (fst (Do w p op s), snd (Do w p op s), calls) \<and>
     int (length calls) \<le> max 1 (MaxAttempts p) \<and>
     (\<forall>r\<in>set (butlast calls). \<exists>e. r = Some e \<and> retryable e) \<and>
     (if calls = [] then ctxErr w s \<noteq> None \<and> fst (Do w p op s) = ctxErr w s
      else (case last calls of
              None \<Rightarrow> fst (Do w p op s) = None
            | Some e \<Rightarrow>
                if \<not> retryable e then fst (Do w p op s) = Some e
                else (\<exists>pre. fst (Do w p op s) = Some (Wrapf pre e []) \<and>
                        int (length calls) = max 1 (MaxAttempts p)) \<or>
                     (\<exists>pre c. fst (Do w p op s) = Some (Wrapf pre (Joined [e, c]) []))))"
proof -
  have m: "MaxAttempts (normalized p) = max 1 (MaxAttempts p)" by (simp add: normalized_def Let_def)
  obtain calls where "Do (beside w) p (logged op) (s, []) = (fst (Do w p op s), snd (Do w p op s), calls)"
    and out: "run_outcome (ctxErr w s) (max 1 (MaxAttempts p)) None 1 calls (fst (Do w p op s))"
    using do_loop_logged [of w "normalized p" op None 1 s "[]"] by (auto simp: Do_def m)
  moreover from out have "if calls = [] then ctxErr w s \<noteq> None \<and> fst (Do w p op s) = ctxErr w s
      else (case last calls of
              None \<Rightarrow> fst (Do w p op s) = None
            | Some e \<Rightarrow>
                if \<not> retryable e then fst (Do w p op s) = Some e
                else (\<exists>pre. fst (Do w p op s) = Some (Wrapf pre e []) \<and>
                        int (length calls) = max 1 (MaxAttempts p)) \<or>
                     (\<exists>pre c. fst (Do w p op s) = Some (Wrapf pre (Joined [e, c]) [])))"
    unfolding run_outcome_def by (auto split: option.splits)
  moreover from out have "int (length calls) \<le> max 1 (MaxAttempts p)"
    "\<forall>r\<in>set (butlast calls). \<exists>e. r = Some e \<and> retryable e"
    unfolding run_outcome_def by auto
  ultimately show ?thesis by blast
qed

text \<open>A world whose context is never done and whose timers fire; the state counts calls.\<close>

definition calm_world :: "nat world" where
  "calm_world = \<lparr>ctxErr = \<lambda>s. None, randBits = \<lambda>s. (0, s), timer = \<lambda>d s. (None, s)\<rparr>"

definition fail_twice :: "nat \<Rightarrow> goerr option \<times> nat" where
  "fail_twice s = (if s < 2 then (Some (Retryable (Plain ''503'') second), s + 1) else (None, s + 1))"

lemma Do_calls_witness:
  "fst (Do calm_world Default fail_twice 0) = None \<and>
   (\<exists>calls. snd (snd (Do (beside calm_world) Default (logged fail_twice) (0, []))) = calls \<and>
      length calls = 3 \<and> (\<forall>r\<in>set (butlast calls). \<exists>e. r = Some e \<and> retryable e))"
proof -
  have "fst (Do calm_world Default fail_twice 0) = None"
    "length (snd (snd (Do (beside calm_world) Default (logged fail_twice) (0, [])))) = 3"
    by code_simp+
  with Do_calls [of calm_world Default fail_twice 0] show ?thesis by auto
qed

text \<open>
  C30. How long a wait is. With a hint from the server the delay is the hint, cut at the
  policy's ceiling, and the exponential window plays no part; without one it lies in
  \<open>[0, window)\<close> for the window \<open>min (Base * 2^(attempt - 1)) Max\<close>, whatever the random
  bits and despite the rounding of the floating-point product. (For policies below
  \<open>2^53\<close> nanoseconds, 104 days, whose fields are exact as \<open>float64\<close>.)
\<close>

theorem delay_bounds:
  assumes "p' = normalized p" "Max p' < 2 ^ 53" "Base p' < 2 ^ 53" "1 \<le> attempt"
  shows "0 \<le> fst (delay w p' attempt hint s) \<and> fst (delay w p' attempt hint s) \<le> Max p' \<and>
    (if hint > 0 then fst (delay w p' attempt hint s) = min hint (Max p')
     else fst (delay w p' attempt hint s) < min (Base p' * 2 ^ nat (attempt - 1)) (Max p'))"
proof -
  have pos: "0 < Base p'" "0 < Max p'" by (auto simp: assms(1) normalized_def Default_def Let_def)
  define u where "u = backoff_window p' attempt"
  have "round53 (nat (Base p')) = nat (Base p')" "round53 (nat (Max p')) = nat (Max p')"
    using assms(2,3) by (auto intro!: round53_small simp: nat_less_iff)
  then have u: "int u = min (Base p' * 2 ^ nat (attempt - 1)) (Max p')"
    using pos by (auto simp: u_def backoff_window_def Let_def nat_less_iff zless_nat_eq_int_zless min_def)
  then have "0 < u" using pos by (simp flip: of_nat_0_less_iff [where 'a = int])
  have "jitter k u < int u" for k
  proof -
    have "round53 (k mod 2 ^ 53 * u) < 2 ^ 53 * u" by (rule round53_fraction) (use \<open>0 < u\<close> in auto)
    then have "round53 (k mod 2 ^ 53 * u) div 2 ^ 53 < u" by (simp add: less_mult_imp_div_less mult.commute)
    then show ?thesis by (simp only: jitter_def of_nat_less_iff)
  qed
  moreover have "0 \<le> jitter k u" for k by (simp add: jitter_def)
  ultimately have "0 \<le> fst (delay w p' attempt 0 s) \<and> fst (delay w p' attempt 0 s) < int u"
    by (simp add: delay_def u_def split: prod.splits)
  moreover have "delay w p' attempt hint s = (if hint > 0 then (min hint (Max p'), s) else delay w p' attempt 0 s)"
    by (simp add: delay_def)
  ultimately show ?thesis using u pos by auto
qed

lemma delay_bounds_witness:
  "fst (delay calm_world (normalized Default) 3 0 0) < 2 * second \<and>
   fst (delay calm_world (normalized Default) 1 (90 * second) 0) = 60 * second"
  using delay_bounds [OF refl, of Default 3 calm_world 0 0]
    delay_bounds [OF refl, of Default 1 calm_world "90 * second" 0]
  by (simp add: normalized_def Default_def Let_def)

section \<open>A transport failure that lasts\<close>

definition calm :: "'s world \<Rightarrow> bool" where
  "calm w \<longleftrightarrow> (\<forall>s. ctxErr w s = None) \<and> (\<forall>d s. fst (timer w d s) = None)"

lemma calm_sleep: "calm w \<Longrightarrow> fst (sleep w d s) = None"
  by (simp add: calm_def sleep_def)

lemma do_loop_persistent:
  assumes "calm w" "\<And>s. fst (op s) = Some e" "retryable e" "n \<le> MaxAttempts p"
  shows "fst (do_loop w p op l n s) =
    Some (Wrapf (attempts_text ''giving up after '' (MaxAttempts p)) e [])"
  using assms
proof (induction w p op l n s rule: do_loop.induct)
  case (1 w p op l n s)
  obtain s1 where op: "op s = (Some e, s1)" using 1(3) [of s] by (cases "op s") auto
  obtain e0 after where after: "as_retryable e = Some (e0, after)" using 1(4) by auto
  have ctx: "ctxErr w s = None" using 1(2) by (simp add: calm_def)
  obtain d s2 where d: "delay w p n after s1 = (d, s2)" by fastforce
  obtain s3 where z: "sleep w d s2 = (None, s3)" using calm_sleep [OF 1(2), of d s2] by (cases "sleep w d s2") auto
  show ?case
  proof (cases "n < MaxAttempts p")
    case True
    have "fst (do_loop w p op (Some e) (n + 1) s3) =
        Some (Wrapf (attempts_text ''giving up after '' (MaxAttempts p)) e [])"
      by (rule "1"(1) [OF ctx op [symmetric] refl after refl])
        (use True d z 1(2,3,4) in auto)
    then show ?thesis using True ctx op after d z by (subst do_loop.simps) simp
  next
    case False
    then show ?thesis using 1(5) ctx op after by (subst do_loop.simps) simp
  qed
qed

text \<open>
  What a failure that lasts costs. Let an operation report, through
  \<open>MarkTransport\<close>, the same failure at every call, in a world whose context stays open
  and whose timers fire. If the failure is a network error and not the caller's
  cancellation or deadline, \<open>Do\<close> makes exactly \<open>MaxAttempts\<close> calls and then gives up with
  an error that says so, wraps the failure and still matches every sentinel it matches;
  in all other cases the operation is called once and the failure comes back as it is.
\<close>

theorem MarkTransport_Do:
  assumes "calm w" "\<And>s. fst (op s) = MarkTransport (Some e)" "\<not> retryable e"
  shows "if as_net_error e \<and> \<not> ctx_sentinel e
         then fst (Do w p op s) =
                Some (Wrapf (attempts_text ''giving up after '' (max 1 (MaxAttempts p))) (Retryable e 0) []) \<and>
              length (snd (snd (Do (beside w) p (logged op) (s, [])))) = nat (max 1 (MaxAttempts p))
         else fst (Do w p op s) = Some e \<and>
              length (snd (snd (Do (beside w) p (logged op) (s, [])))) = 1"
proof (cases "as_net_error e \<and> \<not> ctx_sentinel e")
  case True
  then have op: "fst (op s) = Some (Retryable e 0)" for s
    using assms(2) by (simp add: MarkTransport_def Mark_def ctx_sentinel_def)
  have m: "MaxAttempts (normalized p) = max 1 (MaxAttempts p)" by (simp add: normalized_def Let_def)
  have res: "fst (Do w p op s) =
      Some (Wrapf (attempts_text ''giving up after '' (max 1 (MaxAttempts p))) (Retryable e 0) [])"
    unfolding Do_def by (subst do_loop_persistent [OF assms(1) op]) (simp_all add: m)
  obtain calls where log: "snd (snd (Do (beside w) p (logged op) (s, []))) = calls"
    and out: "run_outcome (ctxErr w s) (max 1 (MaxAttempts p)) None 1 calls (fst (Do w p op s))"
    using do_loop_logged [of w "normalized p" op None 1 s "[]"] by (auto simp: Do_def m)
  have "ctxErr w s = None" using assms(1) by (simp add: calm_def)
  then have ne: "calls \<noteq> []" using out by (auto simp: run_outcome_def)
  have "int (length calls) = max 1 (MaxAttempts p)"
    using out ne res by (auto simp: run_outcome_def split: option.splits if_splits)
  then show ?thesis using True res log by simp
next
  case False
  then have op: "fst (op s) = Some e" for s
    using assms(2) by (auto simp: MarkTransport_def ctx_sentinel_def)
  obtain s1 where "op s = (Some e, s1)" using op [of s] by (cases "op s") auto
  moreover have "ctxErr w s = None" using assms(1) by (simp add: calm_def)
  moreover have "as_retryable e = None" using assms(3) by blast
  ultimately have "fst (Do w p op s) = Some e"
    "length (snd (snd (Do (beside w) p (logged op) (s, [])))) = 1"
    by (simp_all add: Do_def do_loop.simps [of _ _ _ _ 1] logged_def)
  then show ?thesis using False by auto
qed

lemma MarkTransport_Do_witness:
  "length (snd (snd (Do (beside calm_world) Default
      (logged (\<lambda>s. (MarkTransport (Some (NetErr ''refused'')), s))) (0, [])))) = 4 \<and>
   length (snd (snd (Do (beside calm_world) Default
      (logged (\<lambda>s. (MarkTransport (Some (UrlErr ''Post'' (Sentinel Canceled))), s))) (0, [])))) = 1"
proof -
  have calm: "calm calm_world" by (simp add: calm_def calm_world_def)
  have "\<not> retryable (NetErr ''refused'')" "\<not> retryable (UrlErr ''Post'' (Sentinel Canceled))" by simp_all
  from MarkTransport_Do [OF calm _ this(1), of "\<lambda>s. (MarkTransport (Some (NetErr ''refused'')), s)" Default 0]
    MarkTransport_Do [OF calm _ this(2),
      of "\<lambda>s. (MarkTransport (Some (UrlErr ''Post'' (Sentinel Canceled))), s)" Default 0]
  show ?thesis by (simp add: ctx_sentinel_def Default_def)
qed

section \<open>Retry-After and Google's hints\<close>

text \<open>
  The seconds form of \<open>Retry-After\<close> is read exactly up to 9223372036 seconds and never
  above: the product with \<open>time.Second\<close> is taken in 64 bits, so for a larger number of
  seconds that \<open>strconv.Atoi\<close> still accepts the delay wraps around.
\<close>

theorem ParseRetryAfter_exact_iff:
  assumes "0 \<le> secs" "secs < 2 ^ 63"
  shows "ParseRetryAfter until (show_int secs) = secs * second \<longleftrightarrow> secs \<le> 9223372036"
proof -
  have "atoi (show_int secs) = Some secs" using assms by (intro atoi_show_int) (simp add: int64_range_def)
  moreover have "show_int secs \<noteq> []" by (simp add: show_int_def)
  ultimately have "ParseRetryAfter until (show_int secs) = mul_second secs"
    using assms by (simp add: ParseRetryAfter_def)
  moreover have "mul_second secs = secs * second \<longleftrightarrow> secs \<le> 9223372036"
  proof -
    have "mul_second secs = signed_take_bit 63 (secs * second)"
      unfolding mul_second_def wi_hom_mult sint_sbintrunc' by simp
    then show ?thesis using assms by (auto simp: signed_take_bit_int_eq_self_iff)
  qed
  ultimately show ?thesis by simp
qed

lemma ParseRetryAfter_exact_iff_witness:
  "ParseRetryAfter (\<lambda>_. None) ''36'' = 36 * second \<and>
   ParseRetryAfter (\<lambda>_. None) ''18446744074'' = 290448384 \<and>
   ParseRetryAfter (\<lambda>_. None) ''18446744074'' \<noteq> 18446744074 * second"
proof -
  have "show_int 36 = ''36''" "show_int 18446744074 = ''18446744074''" by code_simp+
  moreover have "ParseRetryAfter (\<lambda>_. None) ''18446744074'' = 290448384" by code_simp
  ultimately show ?thesis
    using ParseRetryAfter_exact_iff [of 36 "\<lambda>_. None"] ParseRetryAfter_exact_iff [of 18446744074 "\<lambda>_. None"]
    by simp
qed

text \<open>What the details of a Google error say: the delays asked for, and quotas that ran out.\<close>

definition detail_type :: "(gostring \<times> json) list \<Rightarrow> gostring" where
  "detail_type d = string_or_empty (json_string (map_of d ''@type''))"

definition retry_delays :: "(gostring \<Rightarrow> Duration option) \<Rightarrow> (gostring \<times> json) list list \<Rightarrow> Duration list" where
  "retry_delays parseDuration details =
     [v. d \<leftarrow> details, has_suffix ''google.rpc.RetryInfo'' (detail_type d),
         s \<leftarrow> (case json_string (map_of d ''retryDelay'') of None \<Rightarrow> [] | Some s \<Rightarrow> [s]),
         v \<leftarrow> (case parseDuration s of None \<Rightarrow> [] | Some v \<Rightarrow> [v]), v > 0]"

definition daily_quota :: "(gostring \<times> json) list \<Rightarrow> bool" where
  "daily_quota d \<longleftrightarrow> has_suffix ''google.rpc.QuotaFailure'' (detail_type d) \<and>
     (\<exists>v\<in>set (json_array (map_of d ''violations'')). violation_per_day v)"

lemma has_suffix_last: "has_suffix suf t \<Longrightarrow> suf \<noteq> [] \<Longrightarrow> last t = last suf"
  by (metis append_take_drop_id has_suffix_def last_append)

lemma has_suffix_types: "has_suffix ''google.rpc.RetryInfo'' t \<Longrightarrow> \<not> has_suffix ''google.rpc.QuotaFailure'' t"
  using has_suffix_last [of "''google.rpc.RetryInfo''" t] has_suffix_last [of "''google.rpc.QuotaFailure''" t]
  by auto

lemma violations_fold:
  "foldl (\<lambda>(after, daily) v. (after, daily \<or> violation_per_day v)) (a, b) vs = (a, b \<or> (\<exists>v\<in>set vs. violation_per_day v))"
  by (induction vs arbitrary: b) auto

text \<open>
  \<open>GoogleHint\<close> reads the details as the API means them: the delay is the last positive
  one that a \<open>RetryInfo\<close> entry gives, and zero when there is none, and \<open>daily\<close> holds exactly
  if some \<open>QuotaFailure\<close> entry names a per-day quota, in whatever order the entries come.
\<close>

theorem GoogleHint_reads:
  "GoogleHint parseDuration details =
     (if retry_delays parseDuration details = [] then 0 else last (retry_delays parseDuration details),
      \<exists>d\<in>set details. daily_quota d)"
proof -
  have step: "google_step pd (a, b) d =
      (last (a # retry_delays pd [d]), b \<or> daily_quota d)" for pd a b d
    using has_suffix_types [of "detail_type d"]
    by (auto simp: google_step_def retry_delays_def daily_quota_def detail_type_def [symmetric]
        violations_fold Let_def split: option.splits)
  have "foldl (google_step parseDuration) (a, b) details =
      (last (a # retry_delays parseDuration details), b \<or> (\<exists>d\<in>set details. daily_quota d))" for a b
  proof (induction details arbitrary: a b)
    case Nil
    then show ?case by (simp add: retry_delays_def)
  next
    case (Cons d ds)
    have "retry_delays parseDuration (d # ds) = retry_delays parseDuration [d] @ retry_delays parseDuration ds"
      by (simp add: retry_delays_def)
    then show ?case by (simp add: step Cons.IH last_append)
  qed
  then show ?thesis by (simp add: GoogleHint_def)
qed

end
