(* ===== verification/Embed.thy ===== *)
theory Embed
  imports Backoff
begin

text \<open>
  \<open>embed/embed.go\<close>: vectors, the task kinds, the vector space with its textual identity and
  its SQL name, and the check of a provider's result. A \<open>float32\<close> is its 32 bits;
  \<open>sha\<close> is SHA-256, a function to 32 bytes, and \<open>ul\<close> the case table beyond ASCII.
\<close>

section \<open>Vectors, kinds and spaces\<close>

type_synonym float32 = "32 word"
type_synonym Vector = "float32 list"

datatype Kind = KindDocument | KindQuery | OtherKind int

fun Kind_String :: "Kind \<Rightarrow> gostring" where
  "Kind_String KindDocument = ''document''"
| "Kind_String KindQuery = ''query''"
| "Kind_String (OtherKind k) = ''Kind('' @ show_int k @ '')''"

record Space =
  spaceProvider :: gostring
  spaceModel :: gostring
  Dim :: int

definition Space_String :: "Space \<Rightarrow> gostring" where
  "Space_String s = spaceProvider s @ ''/'' @ spaceModel s @ ''@'' @ show_int (Dim s)"

definition Validate :: "Space \<Rightarrow> goerr option" where
  "Validate s =
     (if trim_space (spaceProvider s) = [] then Some (Plain ''embedding space: provider is empty'')
      else if trim_space (spaceModel s) = [] then Some (Plain ''embedding space: model is empty'')
      else if Dim s < 1 \<or> Dim s > 16000
      then Some (Plain (''embedding space: dimension '' @ show_int (Dim s) @ '' out of range 1..16000''))
      else None)"

definition maxSlugLen :: nat where
  "maxSlugLen = 54"

definition digestLen :: nat where
  "digestLen = 8"

text \<open>The loop of \<open>sanitize\<close> over the runes, with its flag.\<close>

fun sanitize_loop :: "rune list \<Rightarrow> bool \<Rightarrow> gostring \<Rightarrow> gostring" where
  "sanitize_loop [] lastUnderscore b = b"
| "sanitize_loop (r # rs) lastUnderscore b =
     (if 97 \<le> r \<and> r \<le> 122 \<or> 48 \<le> r \<and> r \<le> 57 then sanitize_loop rs False (b @ encode_rune r)
      else if \<not> lastUnderscore then sanitize_loop rs True (b @ ''_'')
      else sanitize_loop rs lastUnderscore b)"

definition sanitize :: "(rune \<Rightarrow> rune) \<Rightarrow> gostring \<Rightarrow> gostring" where
  "sanitize ul s = trim_cutset ''_'' (sanitize_loop (runes (to_lower ul s)) False [])"

definition hex_string :: "gostring \<Rightarrow> gostring" where
  "hex_string bs = concat (map (\<lambda>c. show_hex 2 (byte c)) bs)"

definition slug_suffix :: "(gostring \<Rightarrow> gostring) \<Rightarrow> Space \<Rightarrow> gostring" where
  "slug_suffix sha s = ''_'' @ take digestLen (hex_string (sha (Space_String s)))"

definition Slug :: "(gostring \<Rightarrow> gostring) \<Rightarrow> (rune \<Rightarrow> rune) \<Rightarrow> Space \<Rightarrow> gostring" where
  "Slug sha ul s =
     (let suffix = slug_suffix sha s;
          full = ''emb_'' @ sanitize ul (spaceProvider s) @ ''__'' @ sanitize ul (spaceModel s) @ ''__'' @ show_int (Dim s);
          full = (if length full + length suffix > maxSlugLen then take (maxSlugLen - length suffix) full else full)
      in full @ suffix)"

section \<open>The contract check\<close>

fun check_dims :: "Space \<Rightarrow> nat \<Rightarrow> Vector list \<Rightarrow> goerr option" where
  "check_dims space i [] = None"
| "check_dims space i (v # vs) =
     (if int (length v) \<noteq> Dim space
      then Some (Plain (Space_String space @ '': vector '' @ show_nat i @ '' has dimension '' @
             show_nat (length v) @ '', want '' @ show_int (Dim space)))
      else check_dims space (i + 1) vs)"

definition checkResult :: "Space \<Rightarrow> gostring list \<Rightarrow> Vector list \<Rightarrow> goerr option" where
  "checkResult space texts got =
     (if length got \<noteq> length texts
      then Some (Plain (Space_String space @ '': got '' @ show_nat (length got) @ '' vectors for '' @
             show_nat (length texts) @ '' inputs''))
      else check_dims space 0 got)"

lemma check_dims_None: "check_dims space i vs = None \<longleftrightarrow> (\<forall>v\<in>set vs. int (length v) = Dim space)"
  by (induction vs arbitrary: i) auto

lemma checkResult_None:
  "checkResult space texts got = None \<longleftrightarrow>
     length got = length texts \<and> (\<forall>v\<in>set got. int (length v) = Dim space)"
  by (auto simp: checkResult_def check_dims_None)

section \<open>Slugs are safe identifiers\<close>

definition slug_char :: "char \<Rightarrow> bool" where
  "slug_char c \<longleftrightarrow> 97 \<le> byte c \<and> byte c \<le> 122 \<or> is_digit c \<or> c = CHR ''_''"

lemma encode_ascii: "r < 0x80 \<Longrightarrow> encode_rune r = [char_of r]"
  by (simp add: encode_rune_def)

lemma sanitize_loop_chars: "\<forall>c\<in>set b. slug_char c \<Longrightarrow> \<forall>c\<in>set (sanitize_loop rs u b). slug_char c"
proof (induction rs u b rule: sanitize_loop.induct)
  case (2 r rs u b)
  have "\<forall>c\<in>set (encode_rune r). slug_char c" if "97 \<le> r \<and> r \<le> 122 \<or> 48 \<le> r \<and> r \<le> 57"
    using that by (auto simp: encode_ascii slug_char_def is_digit_def byte_char_of)
  then show ?case using 2 by (auto simp: slug_char_def)
qed simp

lemma sanitize_chars: "c \<in> set (sanitize ul s) \<Longrightarrow> slug_char c"
  using sanitize_loop_chars [of "[]"] set_trim_list by (fastforce simp: sanitize_def trim_cutset_def)

lemma show_int_chars: "0 \<le> d \<Longrightarrow> c \<in> set (show_int d) \<Longrightarrow> slug_char c"
  using show_nat_digits by (auto simp: show_int_def slug_char_def)

lemma hex_digit_char: "n < 16 \<Longrightarrow> slug_char (hex_digit n)"
  by (auto simp: hex_digit_def slug_char_def is_digit_def byte_char_of)

lemma show_hex_chars: "c \<in> set (show_hex k n) \<Longrightarrow> slug_char c"
  by (induction k n rule: show_hex.induct) (auto simp: hex_digit_char)

lemma length_show_hex [simp]: "length (show_hex k n) = k"
  by (induction k n rule: show_hex.induct) auto

lemma length_hex_string: "length (hex_string bs) = 2 * length bs"
  by (induction bs) (auto simp: hex_string_def)

lemma slug_suffix_chars: "c \<in> set (slug_suffix sha s) \<Longrightarrow> slug_char c"
  by (auto simp: slug_suffix_def hex_string_def slug_char_def [of "CHR ''_''"]
      dest!: in_set_takeD intro: show_hex_chars)

lemma Slug_props:
  assumes "Validate s = None" "\<And>x. length (sha x) = 32"
  shows "(\<forall>c\<in>set (Slug sha ul s). slug_char c) \<and> take 4 (Slug sha ul s) = ''emb_'' \<and>
    length (Slug sha ul s) \<le> 54 \<and> length (Slug sha ul s @ ''_hnsw'') \<le> 63 \<and>
    (\<forall>t. Slug sha ul t = Slug sha ul s \<longrightarrow>
       take 8 (hex_string (sha (Space_String t))) = take 8 (hex_string (sha (Space_String s))))"
proof -
  have suf: "length (slug_suffix sha t) = 9" for t
    using assms(2) by (simp add: slug_suffix_def digestLen_def length_hex_string)
  define full where "full = ''emb_'' @ sanitize ul (spaceProvider s) @ ''__'' @ sanitize ul (spaceModel s) @
    ''__'' @ show_int (Dim s)"
  have dim: "0 \<le> Dim s" using assms(1) by (simp add: Validate_def split: if_splits)
  have full: "\<forall>c\<in>set full. slug_char c"
    using sanitize_chars show_int_chars [OF dim] by (auto simp: full_def) (simp_all add: slug_char_def)
  define pre where "pre = (if length full + 9 > 54 then take 45 full else full)"
  have eq: "Slug sha ul s = pre @ slug_suffix sha s"
    by (simp add: Slug_def full_def pre_def maxSlugLen_def suf Let_def)
  have len: "length (Slug sha ul s) \<le> 54" by (auto simp: eq suf pre_def)
  have "take 4 full = ''emb_''" by (simp add: full_def)
  then have "take 4 pre = ''emb_''" "4 \<le> length pre"
    by (auto simp: pre_def full_def)
  then have "take 4 (Slug sha ul s) = ''emb_''" by (simp add: eq)
  moreover have "\<forall>c\<in>set (Slug sha ul s). slug_char c"
    using full slug_suffix_chars by (auto simp: eq pre_def dest: in_set_takeD split: if_splits)
  moreover have "length (Slug sha ul s @ ''_hnsw'') \<le> 63" using len by simp
  moreover have "take 8 (hex_string (sha (Space_String t))) = take 8 (hex_string (sha (Space_String s)))"
    if "Slug sha ul t = Slug sha ul s" for t
  proof -
    obtain pre' where "Slug sha ul t = pre' @ slug_suffix sha t" by (auto simp: Slug_def Let_def)
    with that eq have "pre' @ slug_suffix sha t = pre @ slug_suffix sha s" by simp
    with suf have "slug_suffix sha t = slug_suffix sha s" by (metis append_eq_append_conv)
    then show ?thesis by (simp add: slug_suffix_def digestLen_def)
  qed
  ultimately show ?thesis using len by blast
qed

text \<open>
  The slug of a valid space is a safe SQL identifier, and so is the name of its index:
  it consists of lower-case ASCII letters, digits and underscores, whatever the provider and
  model are called, begins with \<open>emb_\<close>, is at most 54 bytes long (59 with \<open>_hnsw\<close>, under
  the limit of 63), and always carries the digest of the identity in full, so that spaces
  with one slug agree on the digest.
\<close>

theorem Slug_safe:
  assumes "Validate s = None" "\<And>x. length (sha x) = 32"
  shows "(\<forall>c\<in>set (Slug sha ul s). slug_char c) \<and> take 4 (Slug sha ul s) = ''emb_'' \<and>
    length (Slug sha ul s) \<le> 54 \<and> length (Slug sha ul s @ ''_hnsw'') \<le> 63 \<and>
    (\<forall>t. Slug sha ul t = Slug sha ul s \<longrightarrow>
       take 8 (hex_string (sha (Space_String t))) = take 8 (hex_string (sha (Space_String s))))"
  using assms by (rule Slug_props)

definition zero_sha :: "gostring \<Rightarrow> gostring" where
  "zero_sha x = replicate 32 (CHR 0x00)"

lemma Slug_safe_witness:
  "let s = \<lparr>spaceProvider = ''openai'', spaceModel = ''BAAI/bge-m3'', Dim = 1024\<rparr>
   in Slug zero_sha (\<lambda>r. r) s = ''emb_openai__baai_bge_m3__1024_00000000'' \<and>
      (\<forall>c\<in>set (Slug zero_sha (\<lambda>r. r) s). slug_char c)"
proof -
  let ?s = "\<lparr>spaceProvider = ''openai'', spaceModel = ''BAAI/bge-m3'', Dim = 1024\<rparr>"
  have "Validate ?s = None" by code_simp
  moreover have "length (zero_sha x) = 32" for x by (simp add: zero_sha_def)
  ultimately have "\<forall>c\<in>set (Slug zero_sha (\<lambda>r. r) ?s). slug_char c"
    using Slug_safe [of ?s zero_sha "\<lambda>r. r"] by blast
  moreover have "Slug zero_sha (\<lambda>r. r) ?s = ''emb_openai__baai_bge_m3__1024_00000000''" by code_simp
  ultimately show ?thesis by (simp add: Let_def)
qed

section \<open>The identity of a space\<close>

lemma split_last:
  assumes "c \<notin> set us" "c \<notin> set vs" "x @ c # us = y @ c # vs"
  shows "x = y \<and> us = vs"
proof -
  have "rev us @ c # rev x = rev vs @ c # rev y" using assms(3) by (metis append.assoc append_Cons append_Nil rev.simps(2) rev_append)
  then have "rev us = rev vs \<and> rev x = rev y" using assms(1,2) by (intro split_first) auto
  then show ?thesis by simp
qed

lemma show_int_no_at: "CHR ''@'' \<notin> set (show_int d)"
  using show_nat_digits [of "CHR ''@''"] by (auto simp: show_int_def is_digit_def)

text \<open>
  The one-line identity \<open>provider/model@dim\<close> determines a space as long as the provider's name has no
  slash (a model's may have slashes and at signs): two spaces with the same text are equal.
\<close>

theorem Space_String_inject:
  assumes "CHR ''/'' \<notin> set (spaceProvider s)" "CHR ''/'' \<notin> set (spaceProvider t)"
    "Space_String s = Space_String t"
  shows "s = t"
proof -
  have "spaceProvider s @ CHR ''/'' # (spaceModel s @ CHR ''@'' # show_int (Dim s)) =
        spaceProvider t @ CHR ''/'' # (spaceModel t @ CHR ''@'' # show_int (Dim t))"
    using assms(3) by (simp add: Space_String_def)
  then have p: "spaceProvider s = spaceProvider t"
    and "spaceModel s @ CHR ''@'' # show_int (Dim s) = spaceModel t @ CHR ''@'' # show_int (Dim t)"
    using split_first [OF assms(1,2)] by blast+
  then have "spaceModel s = spaceModel t" "show_int (Dim s) = show_int (Dim t)"
    using split_last [OF show_int_no_at show_int_no_at] by blast+
  with p show ?thesis by (simp add: Space.equality)
qed

lemma Space_String_inject_witness:
  "let s = \<lparr>spaceProvider = ''openai'', spaceModel = ''a/b@1'', Dim = 2\<rparr>
   in (\<forall>t. CHR ''/'' \<notin> set (spaceProvider t) \<longrightarrow> Space_String t = ''openai/a/b@1@2'' \<longrightarrow> t = s) \<and>
      Space_String \<lparr>spaceProvider = ''openai/a'', spaceModel = ''b@1'', Dim = 2\<rparr> = Space_String s"
proof -
  let ?s = "\<lparr>spaceProvider = ''openai'', spaceModel = ''a/b@1'', Dim = 2\<rparr>"
  have "Space_String ?s = ''openai/a/b@1@2''"
    "Space_String \<lparr>spaceProvider = ''openai/a'', spaceModel = ''b@1'', Dim = 2\<rparr> = ''openai/a/b@1@2''"
    by code_simp+
  then show ?thesis using Space_String_inject [of _ ?s] by (simp add: Let_def)
qed

end
