(* ===== verification/Providers.thy ===== *)
theory Providers
  imports Embed
begin

text \<open>
  The provider interface of \<open>embed\<close> and \<open>llm\<close> and what is written once against it:
  retries, rate limits (\<open>middleware.go\<close> of both packages) and \<open>Batched\<close>; and the offline
  provider of \<open>embed/fake.go\<close> with \<open>normalize\<close> (\<open>embed/google.go\<close>) and the stub of
  \<open>llm/stub.go\<close>. The contract of the interface is the locale \<open>embedding\<close>; the decorators
  keep it (sublocales), and the offline provider meets it (interpretation).

  The rate limiter (\<open>golang.org/x/time/rate\<close>) is a parameter: what its \<open>Wait\<close> does to the
  world. So is the machine's floating-point arithmetic.
\<close>

section \<open>Providers\<close>

record 'w embedder =
  Embed :: "gostring list \<Rightarrow> Kind \<Rightarrow> 'w \<Rightarrow> Vector list result \<times> 'w"
  embedSpace :: Space
  MaxBatch :: int

record 'w generator =
  Generate :: "gostring \<Rightarrow> gostring \<Rightarrow> 'w \<Rightarrow> gostring result \<times> 'w"
  Model :: gostring

text \<open>
  The decorated call of both packages: \<open>out\<close> is the variable the closure given to \<open>Do\<close>
  assigns; a failed call assigns it the zero value.
\<close>

definition retry_call ::
  "'w world \<Rightarrow> Policy \<Rightarrow> 'a \<Rightarrow> ('w \<Rightarrow> 'a result \<times> 'w) \<Rightarrow> 'w \<Rightarrow> 'a result \<times> 'w" where
  "retry_call env policy zero call w =
     (let (err, w, out) =
        Do (beside env) policy
          (\<lambda>(w, out). case call w of
              (Inl e, w) \<Rightarrow> (Some e, w, zero)
            | (Inr v, w) \<Rightarrow> (None, w, v)) (w, zero)
      in case err of Some e \<Rightarrow> (Inl e, w) | None \<Rightarrow> (Inr out, w))"

definition WithRetry :: "'w world \<Rightarrow> Policy \<Rightarrow> 'w embedder \<Rightarrow> 'w embedder" where
  "WithRetry env policy p =
     p\<lparr>Embed := \<lambda>texts kind. retry_call env policy [] (Embed p texts kind)\<rparr>"

text \<open>\<open>float64\<close> by its bits; the comparison \<open>x <= 0\<close> is false on a NaN.\<close>

type_synonym float64 = "64 word"

definition f64_le_zero :: "float64 \<Rightarrow> bool" where
  "f64_le_zero b \<longleftrightarrow>
     (let n = uint b in n = 0 \<or> 2 ^ 63 \<le> n \<and> n \<le> 0xFFF0000000000000)"

definition limited_embed ::
  "('w \<Rightarrow> goerr option \<times> 'w) \<Rightarrow> 'w embedder \<Rightarrow> gostring list \<Rightarrow> Kind \<Rightarrow> 'w \<Rightarrow> Vector list result \<times> 'w" where
  "limited_embed wait p texts kind w =
     (if texts = [] then (Inr [], w)
      else (case wait w of
              (Some e, w) \<Rightarrow> (Inl (wrap ''rate limit wait'' e), w)
            | (None, w) \<Rightarrow> Embed p texts kind w))"

definition WithRateLimit ::
  "(float64 \<Rightarrow> int \<Rightarrow> 'w \<Rightarrow> goerr option \<times> 'w) \<Rightarrow> 'w embedder \<Rightarrow> float64 \<Rightarrow> int \<Rightarrow> 'w embedder" where
  "WithRateLimit limiter p rps burst =
     (if f64_le_zero rps then p
      else (let burst = (if burst < 1 then 1 else burst)
            in p\<lparr>Embed := limited_embed (limiter rps burst) p\<rparr>))"

section \<open>The same for generation\<close>

definition gen_WithRetry :: "'w world \<Rightarrow> Policy \<Rightarrow> 'w generator \<Rightarrow> 'w generator" where
  "gen_WithRetry env policy p =
     p\<lparr>Generate := \<lambda>system user. retry_call env policy [] (Generate p system user)\<rparr>"

definition limited_generate ::
  "('w \<Rightarrow> goerr option \<times> 'w) \<Rightarrow> 'w generator \<Rightarrow> gostring \<Rightarrow> gostring \<Rightarrow> 'w \<Rightarrow> gostring result \<times> 'w" where
  "limited_generate wait p system user w =
     (case wait w of
        (Some e, w) \<Rightarrow> (Inl (wrap ''rate limit wait'' e), w)
      | (None, w) \<Rightarrow> Generate p system user w)"

definition gen_WithRateLimit ::
  "(float64 \<Rightarrow> int \<Rightarrow> 'w \<Rightarrow> goerr option \<times> 'w) \<Rightarrow> 'w generator \<Rightarrow> float64 \<Rightarrow> int \<Rightarrow> 'w generator" where
  "gen_WithRateLimit limiter p rps burst =
     (if f64_le_zero rps then p
      else (let burst = (if burst < 1 then 1 else burst)
            in p\<lparr>Generate := limited_generate (limiter rps burst) p\<rparr>))"

section \<open>Batches\<close>

definition batch_size :: "'w embedder \<Rightarrow> int" where
  "batch_size p = (if MaxBatch p < 1 then 1 else MaxBatch p)"

definition batch_text :: "nat \<Rightarrow> nat \<Rightarrow> gostring" where
  "batch_text start stop = ''embed batch ['' @ show_nat start @ '':'' @ show_nat stop @ '')''"

function batch_loop ::
  "'w embedder \<Rightarrow> gostring list \<Rightarrow> Kind \<Rightarrow> nat \<Rightarrow> Vector list \<Rightarrow> 'w \<Rightarrow> Vector list result \<times> 'w" where
  "batch_loop p texts kind start out w =
     (if start < length texts then
        (let stop = min (start + nat (batch_size p)) (length texts) in
         case Embed p (take (stop - start) (drop start texts)) kind w of
           (Inl e, w) \<Rightarrow> (Inl (wrap (batch_text start stop @ '' of '' @ show_nat (length texts)) e), w)
         | (Inr part, w) \<Rightarrow>
             if length part \<noteq> stop - start then
               (Inl (Plain (batch_text start stop @ '': got '' @ show_nat (length part) @
                  '' vectors for '' @ show_nat (stop - start) @ '' inputs'')), w)
             else batch_loop p texts kind (start + nat (batch_size p)) (out @ part) w)
      else (Inr out, w))"
  by pat_completeness auto
termination
  by (relation "measure (\<lambda>(p, texts, kind, start, out, w). length texts - start)")
    (auto simp: batch_size_def)

declare batch_loop.simps [simp del]

definition Batched :: "'w embedder \<Rightarrow> gostring list \<Rightarrow> Kind \<Rightarrow> 'w \<Rightarrow> Vector list result \<times> 'w" where
  "Batched p texts kind w =
     (if texts = [] then (Inr [], w) else batch_loop p texts kind 0 [] w)"

section \<open>The contract\<close>

text \<open>
  What \<open>Provider\<close> promises: one vector per text, in the order of the texts, each a vector
  \<open>R kind text\<close> allows for its text. Every decorator keeps it, whatever the world does.
\<close>

lemma retry_call_success:
  "retry_call env policy zero call w = (Inr v, w') \<Longrightarrow> \<exists>w0. call w0 = (Inr v, w')"
  by (auto simp: retry_call_def split: prod.splits option.splits sum.splits dest!: Do_success)

locale embedding =
  fixes emb :: "gostring list \<Rightarrow> Kind \<Rightarrow> 'w \<Rightarrow> Vector list result \<times> 'w"
    and R :: "Kind \<Rightarrow> gostring \<Rightarrow> Vector \<Rightarrow> bool"
  assumes embed_ok: "emb texts kind w = (Inr vs, w') \<Longrightarrow> list_all2 (R kind) texts vs"
begin

lemma retried_ok:
  "retry_call env policy [] (emb texts kind) w = (Inr vs, w') \<Longrightarrow> list_all2 (R kind) texts vs"
  by (drule retry_call_success) (auto dest: embed_ok)

lemma limited_ok:
  "Embed p = emb \<Longrightarrow> limited_embed wait p texts kind w = (Inr vs, w') \<Longrightarrow> list_all2 (R kind) texts vs"
  using embed_ok [of texts kind _ vs w']
  by (auto simp: limited_embed_def split: prod.splits option.splits if_splits)

lemma batch_loop_ok:
  assumes "Embed p = emb" "batch_loop p texts kind start out w = (Inr vs, w')"
    "list_all2 (R kind) (take start texts) out"
  shows "list_all2 (R kind) texts vs"
  using assms
proof (induction p texts kind start out w rule: batch_loop.induct)
  case (1 p texts kind start out w)
  show ?case
  proof (cases "start < length texts")
    case False
    then show ?thesis using 1(3,4) by (simp add: batch_loop.simps)
  next
    case True
    define stop where "stop = min (start + nat (batch_size p)) (length texts)"
    from True 1(3) obtain part w1 where emb:
      "Embed p (take (stop - start) (drop start texts)) kind w = (Inr part, w1)"
      and len: "length part = stop - start"
      and rest: "batch_loop p texts kind (start + nat (batch_size p)) (out @ part) w1 = (Inr vs, w')"
      by (subst (asm) batch_loop.simps) (auto simp: stop_def Let_def split: prod.splits sum.splits if_splits)
    have "list_all2 (R kind) (take (stop - start) (drop start texts)) part"
      using emb 1(2) by (auto intro: embed_ok)
    with 1(4) have "list_all2 (R kind) (take start texts @ take (stop - start) (drop start texts)) (out @ part)"
      by (rule list_all2_appendI)
    moreover have "take start texts @ take (stop - start) (drop start texts) = take (start + nat (batch_size p)) texts"
      using True by (simp add: stop_def take_add min_def)
    ultimately show ?thesis
      using 1(1) [OF True stop_def emb [symmetric, THEN trans] refl] emb len rest 1(2) by (simp add: stop_def)
  qed
qed

lemma batched_ok: "Embed p = emb \<Longrightarrow> Batched p texts kind w = (Inr vs, w') \<Longrightarrow> list_all2 (R kind) texts vs"
  by (auto simp: Batched_def split: if_splits intro: batch_loop_ok)

end

text \<open>The decorators keep the contract: a decorated provider is one again.\<close>

locale retried_embedding = embedding emb R
  for emb :: "gostring list \<Rightarrow> Kind \<Rightarrow> 'w \<Rightarrow> Vector list result \<times> 'w" and R +
  fixes env :: "'w world" and policy :: Policy

sublocale retried_embedding \<subseteq> retried:
  embedding "\<lambda>texts kind. retry_call env policy [] (emb texts kind)" R
  by unfold_locales (rule retried_ok)

locale limited_embedding = embedding emb R
  for emb :: "gostring list \<Rightarrow> Kind \<Rightarrow> 'w \<Rightarrow> Vector list result \<times> 'w" and R +
  fixes wait :: "'w \<Rightarrow> goerr option \<times> 'w" and space :: Space and size :: int

sublocale limited_embedding \<subseteq> limited:
  embedding "limited_embed wait \<lparr>Embed = emb, embedSpace = space, MaxBatch = size\<rparr>" R
  by unfold_locales (rule limited_ok [OF embedder.select_convs(1)])

section \<open>What Batched asks of a provider\<close>

text \<open>The provider with a log of the batches it was given.\<close>

definition logged_embedder :: "'w embedder \<Rightarrow> ('w \<times> gostring list list) embedder" where
  "logged_embedder p =
     \<lparr>Embed = \<lambda>texts kind wl. (case Embed p texts kind (fst wl) of (r, w) \<Rightarrow> (r, w, snd wl @ [texts])),
      embedSpace = embedSpace p, MaxBatch = MaxBatch p\<rparr>"

text \<open>Cutting a list into pieces of a given size.\<close>

function pieces :: "nat \<Rightarrow> 'a list \<Rightarrow> 'a list list" where
  "pieces n xs = (if xs = [] then [] else take (max 1 n) xs # pieces n (drop (max 1 n) xs))"
  by pat_completeness auto
termination
  by (relation "measure (\<lambda>(n, xs). length xs)") auto

declare pieces.simps [simp del]

lemma concat_pieces: "concat (pieces n xs) = xs"
  by (induction n xs rule: pieces.induct) (subst pieces.simps, auto)

lemma pieces_sizes: "ys \<in> set (pieces n xs) \<Longrightarrow> ys \<noteq> [] \<and> length ys \<le> max 1 n"
proof (induction n xs rule: pieces.induct)
  case (1 n xs)
  show ?case
  proof (cases "xs = []")
    case True
    then show ?thesis using 1(2) by (simp add: pieces.simps)
  next
    case False
    then have "pieces n xs = take (max 1 n) xs # pieces n (drop (max 1 n) xs)"
      by (subst pieces.simps) simp
    with 1 False show ?thesis by auto
  qed
qed

lemma batch_size_logged [simp]: "batch_size (logged_embedder p) = batch_size p"
  by (simp add: batch_size_def logged_embedder_def)

lemma Embed_logged:
  "Embed (logged_embedder p) texts kind (w, log) = (case Embed p texts kind w of (r, w) \<Rightarrow> (r, w, log @ [texts]))"
  by (simp add: logged_embedder_def)

lemma batch_loop_logged:
  "\<exists>calls. batch_loop (logged_embedder p) texts kind start out (w, log) =
      (fst (batch_loop p texts kind start out w), snd (batch_loop p texts kind start out w), log @ calls) \<and>
    (\<exists>rest. pieces (nat (batch_size p)) (drop start texts) = calls @ rest \<and>
      (case fst (batch_loop p texts kind start out w) of
         Inr vs \<Rightarrow> rest = [] \<and> length vs = length out + length (drop start texts)
       | Inl e \<Rightarrow> calls \<noteq> []))"
proof (induction p texts kind start out w arbitrary: log rule: batch_loop.induct)
  case (1 p texts kind start out w)
  let ?n = "nat (batch_size p)"
  have n: "0 < ?n" "max 1 ?n = ?n" by (auto simp: batch_size_def)
  show ?case
  proof (cases "start < length texts")
    case False
    then show ?thesis by (simp add: batch_loop.simps pieces.simps)
  next
    case True
    define stop where "stop = min (start + ?n) (length texts)"
    define batch where "batch = take (stop - start) (drop start texts)"
    have pieces: "pieces ?n (drop start texts) = batch # pieces ?n (drop (start + ?n) texts)"
      using True n by (subst pieces.simps)
        (auto simp: batch_def stop_def add.commute min_def take_all_iff)
    obtain r w1 where emb: "Embed p batch kind w = (r, w1)" by fastforce
    show ?thesis
    proof (cases "\<exists>part. r = Inr part \<and> length part = stop - start")
      case False
      then show ?thesis using True emb pieces
        by (intro exI [of _ "[batch]"], subst (1 2 3 4) batch_loop.simps)
          (auto simp: Embed_logged batch_def [symmetric] stop_def [symmetric] Let_def split: sum.splits)
    next
      case ok: True
      then obtain part where part: "r = Inr part" "length part = stop - start" by auto
      have step: "batch_loop p texts kind start out w = batch_loop p texts kind (start + ?n) (out @ part) w1"
        "batch_loop (logged_embedder p) texts kind start out (w, log) =
         batch_loop (logged_embedder p) texts kind (start + ?n) (out @ part) (w1, log @ [batch])"
        using True emb part
        by (subst batch_loop.simps;
            simp add: Embed_logged batch_def [symmetric] stop_def [symmetric] Let_def)+
      have IH: "\<exists>calls. batch_loop (logged_embedder p) texts kind (start + ?n) (out @ part) (w1, log @ [batch]) =
          (fst (batch_loop p texts kind (start + ?n) (out @ part) w1),
           snd (batch_loop p texts kind (start + ?n) (out @ part) w1), (log @ [batch]) @ calls) \<and>
        (\<exists>rest. pieces ?n (drop (start + ?n) texts) = calls @ rest \<and>
          (case fst (batch_loop p texts kind (start + ?n) (out @ part) w1) of
             Inr vs \<Rightarrow> rest = [] \<and> length vs = length (out @ part) + length (drop (start + ?n) texts)
           | Inl e \<Rightarrow> calls \<noteq> []))"
        by (rule 1 [OF True stop_def]) (use emb part in \<open>auto simp: batch_def stop_def\<close>)
      then obtain calls rest where c:
        "batch_loop (logged_embedder p) texts kind (start + ?n) (out @ part) (w1, log @ [batch]) =
          (fst (batch_loop p texts kind (start + ?n) (out @ part) w1),
           snd (batch_loop p texts kind (start + ?n) (out @ part) w1), (log @ [batch]) @ calls)"
        "pieces ?n (drop (start + ?n) texts) = calls @ rest"
        "case fst (batch_loop p texts kind (start + ?n) (out @ part) w1) of
             Inr vs \<Rightarrow> rest = [] \<and> length vs = length (out @ part) + length (drop (start + ?n) texts)
           | Inl e \<Rightarrow> calls \<noteq> []"
        by blast
      have "length (out @ part) + length (drop (start + ?n) texts) = length out + length (drop start texts)"
        using True part(2) by (auto simp: stop_def)
      with c show ?thesis unfolding step pieces
        by (intro exI [of _ "batch # calls"] conjI exI [of _ rest]) (auto split: sum.splits)
    qed
  qed
qed

text \<open>
  \<open>Batched\<close> asks a provider for exactly the texts, in order, in pieces that respect its
  limit. Every call gets between one text and \<open>MaxBatch\<close> of them (one, if the limit says less);
  the calls concatenate to a prefix of the texts; and if \<open>Batched\<close> succeeds they make up
  all of them and the number of vectors is the number of texts, whatever the provider
  returned. An empty input makes no call.
\<close>

theorem Batched_calls:
  "\<exists>calls rest.
     Batched (logged_embedder p) texts kind (w, []) =
       (fst (Batched p texts kind w), snd (Batched p texts kind w), calls) \<and>
     concat calls @ concat rest = texts \<and>
     list_all (\<lambda>c. c \<noteq> [] \<and> int (length c) \<le> max 1 (MaxBatch p)) calls \<and>
     (case fst (Batched p texts kind w) of
        Inr vs \<Rightarrow> rest = [] \<and> length vs = length texts
      | Inl e \<Rightarrow> calls \<noteq> [])"
proof (cases "texts = []")
  case True
  then show ?thesis by (intro exI [of _ "[]"]) (simp add: Batched_def)
next
  case False
  obtain calls rest where c:
    "Batched (logged_embedder p) texts kind (w, []) =
       (fst (Batched p texts kind w), snd (Batched p texts kind w), calls)"
    "pieces (nat (batch_size p)) texts = calls @ rest"
    "case fst (Batched p texts kind w) of Inr vs \<Rightarrow> rest = [] \<and> length vs = length texts | Inl e \<Rightarrow> calls \<noteq> []"
    using False batch_loop_logged [of p texts kind 0 "[]" w "[]"]
    by (auto simp: Batched_def cong: sum.case_cong)
  have "concat calls @ concat rest = texts"
    using concat_pieces [of "nat (batch_size p)" texts] c(2) by simp
  moreover have "list_all (\<lambda>c. c \<noteq> [] \<and> int (length c) \<le> max 1 (MaxBatch p)) calls"
    unfolding list_all_iff
  proof
    fix c assume "c \<in> set calls"
    then have "c \<noteq> [] \<and> length c \<le> max 1 (nat (batch_size p))"
      using pieces_sizes [of c "nat (batch_size p)" texts] c(2) by simp
    then show "c \<noteq> [] \<and> int (length c) \<le> max 1 (MaxBatch p)"
      by (auto simp: batch_size_def split: if_splits)
  qed
  ultimately show ?thesis using c by blast
qed

section \<open>The offline provider\<close>

text \<open>The machine's arithmetic on \<open>float32\<close> and \<open>float64\<close>.\<close>

record floats =
  f32_inc :: "float32 \<Rightarrow> float32"
  f32_dec :: "float32 \<Rightarrow> float32"
  widen :: "float32 \<Rightarrow> float64"
  narrow :: "float64 \<Rightarrow> float32"
  fadd :: "float64 \<Rightarrow> float64 \<Rightarrow> float64"
  fmul :: "float64 \<Rightarrow> float64 \<Rightarrow> float64"
  fdiv :: "float64 \<Rightarrow> float64 \<Rightarrow> float64"
  fsqrt :: "float64 \<Rightarrow> float64"

definition normalize :: "floats \<Rightarrow> Vector \<Rightarrow> Vector" where
  "normalize fp v =
     (let sum = foldl (\<lambda>sum f. fadd fp sum (fmul fp (widen fp f) (widen fp f))) 0 v;
          norm = fsqrt fp sum
      in if norm = 0 \<or> norm = 0x8000000000000000 then v
         else map (\<lambda>f. narrow fp (fdiv fp (widen fp f) norm)) v)"

text \<open>\<open>strings.FieldsFunc\<close>: maximal runs of runes that do not satisfy \<open>sep\<close>.\<close>

fun fields_func :: "(rune \<Rightarrow> bool) \<Rightarrow> (rune \<times> gostring) list \<Rightarrow> gostring \<Rightarrow> gostring list" where
  "fields_func sep [] cur = (if cur = [] then [] else [cur])"
| "fields_func sep ((r, b) # rest) cur =
     (if sep r then (if cur = [] then [] else [cur]) @ fields_func sep rest []
      else fields_func sep rest (cur @ b))"

text \<open>\<open>word_rune\<close> is \<open>unicode.IsLetter\<close> or \<open>unicode.IsDigit\<close>.\<close>

definition tokenize :: "(rune \<Rightarrow> bool) \<Rightarrow> (rune \<Rightarrow> rune) \<Rightarrow> gostring \<Rightarrow> gostring list" where
  "tokenize word_rune ul text = fields_func (\<lambda>r. \<not> word_rune r) (segs (to_lower ul text)) []"

text \<open>\<open>hash/fnv\<close>'s 32-bit FNV-1a.\<close>

definition fnv32a :: "gostring \<Rightarrow> 32 word" where
  "fnv32a s = foldl (\<lambda>h c. xor h (word_of_nat (byte c)) * 16777619) 2166136261 s"

definition count_token :: "floats \<Rightarrow> nat \<Rightarrow> Vector \<Rightarrow> gostring \<Rightarrow> Vector" where
  "count_token fp dim v token =
     (let sum = fnv32a token;
          idx = unat sum mod dim
      in if and sum 0x80000000 \<noteq> 0 then v[idx := f32_dec fp (v ! idx)]
         else v[idx := f32_inc fp (v ! idx)])"

definition fake_vector :: "floats \<Rightarrow> (rune \<Rightarrow> bool) \<Rightarrow> (rune \<Rightarrow> rune) \<Rightarrow> nat \<Rightarrow> gostring \<Rightarrow> Vector" where
  "fake_vector fp word_rune ul dim text =
     normalize fp (foldl (count_token fp dim) (replicate dim 0) (tokenize word_rune ul text))"

definition fake_embed ::
  "floats \<Rightarrow> (rune \<Rightarrow> bool) \<Rightarrow> (rune \<Rightarrow> rune) \<Rightarrow> ('w \<Rightarrow> goerr option) \<Rightarrow> nat \<Rightarrow>
   gostring list \<Rightarrow> Kind \<Rightarrow> 'w \<Rightarrow> Vector list result \<times> 'w" where
  "fake_embed fp word_rune ul ctx dim texts kind w =
     (if texts = [] then (Inr [], w)
      else (case ctx w of
              Some e \<Rightarrow> (Inl e, w)
            | None \<Rightarrow> (Inr (map (fake_vector fp word_rune ul dim) texts), w)))"

definition NewFake ::
  "floats \<Rightarrow> (rune \<Rightarrow> bool) \<Rightarrow> (rune \<Rightarrow> rune) \<Rightarrow> ('w \<Rightarrow> goerr option) \<Rightarrow> int \<Rightarrow> 'w embedder result" where
  "NewFake fp word_rune ul ctx dim =
     (let space = \<lparr>spaceProvider = ''fake'', spaceModel = ''hashing-trick'', Dim = dim\<rparr>
      in case Validate space of
           Some e \<Rightarrow> Inl e
         | None \<Rightarrow> Inr \<lparr>Embed = fake_embed fp word_rune ul ctx (nat dim), embedSpace = space, MaxBatch = 1024\<rparr>)"

definition stub_notice :: gostring where
  "stub_notice = of_runes
     [0x5B, 0x433, 0x435, 0x43D, 0x435, 0x440, 0x430, 0x442, 0x43E, 0x440, 0x20, 0x43D, 0x435,
      0x20, 0x43F, 0x43E, 0x434, 0x43A, 0x43B, 0x44E, 0x447, 0x451, 0x43D, 0x3A, 0x20, 0x4C,
      0x4C, 0x4D, 0x5F, 0x50, 0x52, 0x4F, 0x56, 0x49, 0x44, 0x45, 0x52, 0x3D, 0x73, 0x74, 0x75,
      0x62, 0x5D, 0xA, 0xA, 0x41D, 0x438, 0x436, 0x435, 0x20, 0x2014, 0x20, 0x43D, 0x430, 0x439,
      0x434, 0x435, 0x43D, 0x43D, 0x44B, 0x439, 0x20, 0x43A, 0x43E, 0x43D, 0x442, 0x435, 0x43A,
      0x441, 0x442, 0x20, 0x431, 0x435, 0x437, 0x20, 0x43F, 0x435, 0x440, 0x435, 0x441, 0x43A,
      0x430, 0x437, 0x430, 0x20, 0x43C, 0x43E, 0x434, 0x435, 0x43B, 0x44C, 0x44E, 0x2E, 0xA, 0xA]"

definition NewStub :: "('w \<Rightarrow> goerr option) \<Rightarrow> 'w generator" where
  "NewStub ctx =
     \<lparr>Generate = \<lambda>system user w. (case ctx w of Some e \<Rightarrow> (Inl e, w) | None \<Rightarrow> (Inr (stub_notice @ user), w)),
      Model = ''stub''\<rparr>"

lemma length_normalize [simp]: "length (normalize fp v) = length v"
  by (simp add: normalize_def Let_def)

lemma length_fake_vector [simp]: "length (fake_vector fp wr ul dim text) = dim"
proof -
  have "length (foldl (count_token fp dim) v ts) = length v" for v ts
    by (induction ts arbitrary: v) (auto simp: count_token_def Let_def)
  then show ?thesis by (simp add: fake_vector_def)
qed

definition fake_allows :: "floats \<Rightarrow> (rune \<Rightarrow> bool) \<Rightarrow> (rune \<Rightarrow> rune) \<Rightarrow> nat \<Rightarrow> Kind \<Rightarrow> gostring \<Rightarrow> Vector \<Rightarrow> bool" where
  "fake_allows fp wr ul dim kind text v \<longleftrightarrow> v = fake_vector fp wr ul dim text"

interpretation fake: embedding "fake_embed fp wr ul ctx dim" "fake_allows fp wr ul dim" for fp wr ul ctx dim
proof (unfold_locales, goal_cases)
  case (1 texts kind w vs w')
  then have "vs = map (fake_vector fp wr ul dim) texts"
    by (simp add: fake_embed_def split: if_splits option.splits)
  then show ?case by (simp add: list_all2_conv_all_nth fake_allows_def)
qed

interpretation fake_retried: retried_embedding "fake_embed fp wr ul ctx dim" "fake_allows fp wr ul dim" env policy
  for fp wr ul ctx dim env policy
  by unfold_locales

interpretation fake_limited:
  limited_embedding "fake_embed fp wr ul ctx dim" "fake_allows fp wr ul dim" wait space size
  for fp wr ul ctx dim wait space size
  by unfold_locales

lemma embedding_WithRetry: "embedding (Embed p) R \<Longrightarrow> embedding (Embed (WithRetry env policy p)) R"
proof -
  assume e: "embedding (Embed p) R"
  have "embedding (\<lambda>texts kind. retry_call env policy [] (Embed p texts kind)) R"
    by (rule embedding.intro) (rule embedding.retried_ok [OF e])
  then show ?thesis by (simp add: WithRetry_def)
qed

lemma embedding_WithRateLimit: "embedding (Embed p) R \<Longrightarrow> embedding (Embed (WithRateLimit limiter p rps burst)) R"
proof -
  assume e: "embedding (Embed p) R"
  have "embedding (limited_embed wait p) R" for wait
    by (rule embedding.intro) (rule embedding.limited_ok [OF e refl])
  with e show ?thesis by (simp add: WithRateLimit_def Let_def)
qed

text \<open>
  The offline provider under the stack of decorators \<open>embed.New\<close> builds still meets the contract.
  When \<open>Batched\<close> succeeds through retries and a rate limit, with any policy, limiter and
  world, it returns for every text, in order, the vector of that text alone, of exactly the
  space's dimension: no retry, wait or split mixes or reorders anything.
\<close>

theorem fake_stack_embeds_in_order:
  assumes "NewFake fp wr ul ctx dim = Inr p"
    "Batched (WithRateLimit limiter (WithRetry env policy p) rps burst) texts kind w = (Inr vs, w')"
  shows "vs = map (fake_vector fp wr ul (nat dim)) texts \<and> list_all (\<lambda>v. int (length v) = dim) vs"
proof -
  have p: "Embed p = fake_embed fp wr ul ctx (nat dim)" "0 \<le> dim"
    using assms(1) by (auto simp: NewFake_def Validate_def Let_def split: option.splits if_splits)
  have "embedding (Embed p) (fake_allows fp wr ul (nat dim))"
    unfolding p by (rule fake.embedding_axioms)
  then have "embedding (Embed (WithRateLimit limiter (WithRetry env policy p) rps burst)) (fake_allows fp wr ul (nat dim))"
    by (intro embedding_WithRetry embedding_WithRateLimit)
  from embedding.batched_ok [OF this refl assms(2)]
  have "vs = map (fake_vector fp wr ul (nat dim)) texts"
    by (auto simp: list_all2_conv_all_nth fake_allows_def intro: nth_equalityI)
  with p(2) show ?thesis by (simp add: list_all_iff)
qed

text \<open>Stand-ins for the parameters: integer arithmetic, ASCII letters, a limiter that never waits.\<close>

definition int_floats :: floats where
  "int_floats = \<lparr>f32_inc = \<lambda>f. f + 1, f32_dec = \<lambda>f. f - 1, widen = \<lambda>f. ucast f, narrow = \<lambda>f. ucast f,
     fadd = \<lambda>a b. a + b, fmul = \<lambda>a b. a * b, fdiv = \<lambda>a b. a, fsqrt = \<lambda>a. a\<rparr>"

definition ascii_letter :: "rune \<Rightarrow> bool" where
  "ascii_letter r \<longleftrightarrow> 97 \<le> r \<and> r \<le> 122"

lemma fake_stack_embeds_in_order_witness:
  "\<exists>p vs w'. NewFake int_floats ascii_letter (\<lambda>r. r) (ctxErr calm_world) 4 = Inr p \<and>
     Batched (WithRateLimit (\<lambda>rps burst w. (None, w)) (WithRetry calm_world Default p) 1 1)
       [''a b'', ''b''] KindDocument 0 = (Inr vs, w') \<and>
     vs = map (fake_vector int_floats ascii_letter (\<lambda>r. r) 4) [''a b'', ''b''] \<and> length vs = 2"
proof -
  let ?ctx = "ctxErr calm_world"
  have "Validate \<lparr>spaceProvider = ''fake'', spaceModel = ''hashing-trick'', Dim = 4\<rparr> = None" by code_simp
  then obtain p where p: "NewFake int_floats ascii_letter (\<lambda>r. r) ?ctx 4 = Inr p"
    by (simp add: NewFake_def)
  let ?run = "Batched (WithRateLimit (\<lambda>rps burst w. (None, w)) (WithRetry calm_world Default p) 1 1)
       [''a b'', ''b''] KindDocument 0"
  have "case NewFake int_floats ascii_letter (\<lambda>r. r) ?ctx 4 of Inl _ \<Rightarrow> False | Inr p \<Rightarrow>
     isl (fst (Batched (WithRateLimit (\<lambda>rps burst w. (None, w)) (WithRetry calm_world Default p) 1 1)
       [''a b'', ''b''] KindDocument (0::nat))) = False"
    by code_simp
  then obtain vs w' where run: "?run = (Inr vs, w')"
    unfolding p by (cases "?run", cases "fst ?run") (auto simp: isl_def)
  from fake_stack_embeds_in_order [OF p run] p run show ?thesis by auto
qed

end
