(* ===== verification/Prompt.thy ===== *)
theory Prompt
  imports GoError
begin

text \<open>
  \<open>rag/prompt.go\<close>: assembling the prompt from retrieved passages within a budget of
  runes, and listing the sources. The Russian texts of the program are given by their code
  points; \<open>of_runes\<close> is their UTF-8 encoding, the bytes of the Go string.
\<close>

section \<open>Passages and the fixed texts\<close>

record Passage =
  Source :: gostring
  Title :: gostring
  Index :: int
  PText :: gostring

definition Ref :: "Passage \<Rightarrow> gostring" where
  "Ref p = Source p @ '' #'' @ show_int (Index p)"

definition SystemPrompt :: gostring where
  "SystemPrompt = of_runes
     [0x422, 0x44B, 0x20, 0x2014, 0x20, 0x430, 0x441, 0x441, 0x438, 0x441, 0x442, 0x435, 0x43D,
      0x442, 0x20, 0x43F, 0x43E, 0x20, 0x431, 0x430, 0x437, 0x435, 0x20, 0x437, 0x43D, 0x430,
      0x43D, 0x438, 0x439, 0x2E, 0x20, 0x41E, 0x442, 0x432, 0x435, 0x447, 0x430, 0x439, 0x20,
      0x43D, 0x430, 0x20, 0x432, 0x43E, 0x43F, 0x440, 0x43E, 0x441, 0x20, 0x43F, 0x43E, 0x43B,
      0x44C, 0x437, 0x43E, 0x432, 0x430, 0x442, 0x435, 0x43B, 0x44F, 0x2C, 0x20, 0x43E, 0x43F,
      0x438, 0x440, 0x430, 0x44F, 0x441, 0x44C, 0x20, 0x422, 0x41E, 0x41B, 0x42C, 0x41A, 0x41E,
      0x20, 0x43D, 0x430, 0x20, 0x43F, 0x440, 0x438, 0x432, 0x435, 0x434, 0x451, 0x43D, 0x43D,
      0x44B, 0x435, 0x20, 0x43D, 0x438, 0x436, 0x435, 0x20, 0x444, 0x440, 0x430, 0x433, 0x43C,
      0x435, 0x43D, 0x442, 0x44B, 0x2E, 0xA, 0xA, 0x41F, 0x440, 0x430, 0x432, 0x438, 0x43B,
      0x430, 0x3A, 0xA, 0x31, 0x2E, 0x20, 0x415, 0x441, 0x43B, 0x438, 0x20, 0x432, 0x43E, 0x20,
      0x444, 0x440, 0x430, 0x433, 0x43C, 0x435, 0x43D, 0x442, 0x430, 0x445, 0x20, 0x43D, 0x435,
      0x442, 0x20, 0x43E, 0x442, 0x432, 0x435, 0x442, 0x430, 0x20, 0x2014, 0x20, 0x43F, 0x440,
      0x44F, 0x43C, 0x43E, 0x20, 0x441, 0x43A, 0x430, 0x436, 0x438, 0x20, 0xAB, 0x412, 0x20,
      0x431, 0x430, 0x437, 0x435, 0x20, 0x437, 0x43D, 0x430, 0x43D, 0x438, 0x439, 0x20, 0x43D,
      0x435, 0x442, 0x20, 0x43E, 0x442, 0x432, 0x435, 0x442, 0x430, 0x20, 0x43D, 0x430, 0x20,
      0x44D, 0x442, 0x43E, 0x442, 0x20, 0x432, 0x43E, 0x43F, 0x440, 0x43E, 0x441, 0xBB, 0x20,
      0x438, 0x20, 0x43D, 0x435, 0x20, 0x434, 0x43E, 0x434, 0x443, 0x43C, 0x44B, 0x432, 0x430,
      0x439, 0x2E, 0xA, 0x32, 0x2E, 0x20, 0x41D, 0x435, 0x20, 0x438, 0x441, 0x43F, 0x43E, 0x43B,
      0x44C, 0x437, 0x443, 0x439, 0x20, 0x437, 0x43D, 0x430, 0x43D, 0x438, 0x44F, 0x20, 0x432,
      0x43D, 0x435, 0x20, 0x444, 0x440, 0x430, 0x433, 0x43C, 0x435, 0x43D, 0x442, 0x43E, 0x432,
      0x2C, 0x20, 0x434, 0x430, 0x436, 0x435, 0x20, 0x435, 0x441, 0x43B, 0x438, 0x20, 0x443,
      0x432, 0x435, 0x440, 0x435, 0x43D, 0x20, 0x432, 0x20, 0x43D, 0x438, 0x445, 0x2E, 0xA, 0x33,
      0x2E, 0x20, 0x421, 0x441, 0x44B, 0x43B, 0x430, 0x439, 0x441, 0x44F, 0x20, 0x43D, 0x430,
      0x20, 0x444, 0x440, 0x430, 0x433, 0x43C, 0x435, 0x43D, 0x442, 0x44B, 0x20, 0x43F, 0x43E,
      0x20, 0x438, 0x445, 0x20, 0x43D, 0x43E, 0x43C, 0x435, 0x440, 0x443, 0x20, 0x432, 0x20,
      0x43A, 0x432, 0x430, 0x434, 0x440, 0x430, 0x442, 0x43D, 0x44B, 0x445, 0x20, 0x441, 0x43A,
      0x43E, 0x431, 0x43A, 0x430, 0x445, 0x2C, 0x20, 0x43D, 0x430, 0x43F, 0x440, 0x438, 0x43C,
      0x435, 0x440, 0x20, 0x5B, 0x31, 0x5D, 0x2E, 0xA, 0x34, 0x2E, 0x20, 0x41E, 0x442, 0x432,
      0x435, 0x447, 0x430, 0x439, 0x20, 0x43D, 0x430, 0x20, 0x44F, 0x437, 0x44B, 0x43A, 0x435,
      0x20, 0x432, 0x43E, 0x43F, 0x440, 0x43E, 0x441, 0x430, 0x2C, 0x20, 0x43A, 0x440, 0x430,
      0x442, 0x43A, 0x43E, 0x20, 0x438, 0x20, 0x43F, 0x43E, 0x20, 0x434, 0x435, 0x43B, 0x443, 0x2E]"

text \<open>The heading of the fragments, with an empty line after it.\<close>

definition fragments_heading :: gostring where
  "fragments_heading = of_runes
     [0x424, 0x440, 0x430, 0x433, 0x43C, 0x435, 0x43D, 0x442, 0x44B, 0x20, 0x438, 0x437, 0x20,
      0x431, 0x430, 0x437, 0x44B, 0x20, 0x437, 0x43D, 0x430, 0x43D, 0x438, 0x439, 0x3A, 0xA, 0xA]"

definition nothing_found :: gostring where
  "nothing_found = of_runes
     [0x28, 0x43D, 0x438, 0x447, 0x435, 0x433, 0x43E, 0x20, 0x43D, 0x435, 0x20, 0x43D, 0x430,
      0x439, 0x434, 0x435, 0x43D, 0x43E, 0x29, 0xA, 0xA]"

definition question_label :: gostring where
  "question_label = of_runes [0x412, 0x43E, 0x43F, 0x440, 0x43E, 0x441, 0x3A, 0x20]"

definition em_dash :: gostring where
  "em_dash = of_runes [0x20, 0x2014, 0x20]"

definition DefaultMaxContextRunes :: int where
  "DefaultMaxContextRunes = 12000"

section \<open>Building the prompt\<close>

definition passage_header :: "Passage \<Rightarrow> gostring" where
  "passage_header p = (if Title p \<noteq> [] then Title p @ em_dash @ Ref p else Ref p)"

text \<open>\<open>fmt.Fprintf(&b, "[%d] %s\n%s\n\n", ...)\<close>\<close>

definition passage_entry :: "nat \<Rightarrow> Passage \<Rightarrow> gostring" where
  "passage_entry n p =
     ''['' @ show_nat n @ ''] '' @ passage_header p @ [newline] @ trim_space (PText p) @ [newline, newline]"

text \<open>
  The loop, with its \<open>break\<close>: \<open>i\<close> is the loop index, \<open>used\<close> and \<open>included\<close> the counters.
  It returns the builder and \<open>included\<close>.
\<close>

fun prompt_loop :: "int \<Rightarrow> Passage list \<Rightarrow> nat \<Rightarrow> nat \<Rightarrow> nat \<Rightarrow> gostring \<Rightarrow> gostring \<times> nat" where
  "prompt_loop mx [] i used included b = (b, included)"
| "prompt_loop mx (p # ps) i used included b =
     (let cost = rune_count (trim_space (PText p)) in
      if included > 0 \<and> int (used + cost) > mx then (b, included)
      else prompt_loop mx ps (i + 1) (used + cost) (included + 1) (b @ passage_entry (i + 1) p))"

definition BuildUserPrompt :: "gostring \<Rightarrow> Passage list \<Rightarrow> int \<Rightarrow> gostring" where
  "BuildUserPrompt question passages maxContextRunes =
     (let mx = (if maxContextRunes \<le> 0 then DefaultMaxContextRunes else maxContextRunes);
          (b, included) = prompt_loop mx passages 0 0 0 fragments_heading;
          b = (if included = 0 then b @ nothing_found else b)
      in b @ question_label @ trim_space question)"

text \<open>\<open>Sources\<close>: the loop over the passages with its set \<open>seen\<close>.\<close>

fun sources_loop :: "Passage list \<Rightarrow> gostring list \<Rightarrow> gostring list \<Rightarrow> gostring list" where
  "sources_loop [] seen out = out"
| "sources_loop (p # ps) seen out =
     (if Source p \<in> set seen then sources_loop ps seen out
      else sources_loop ps (Source p # seen) (out @ [Source p]))"

definition Sources :: "Passage list \<Rightarrow> gostring list" where
  "Sources passages = sources_loop passages [] []"

section \<open>What the budget lets in\<close>

definition passage_cost :: "Passage \<Rightarrow> nat" where
  "passage_cost p = rune_count (trim_space (PText p))"

definition context_cost :: "Passage list \<Rightarrow> nat" where
  "context_cost ps = sum_list (map passage_cost ps)"

definition context_budget :: "int \<Rightarrow> int" where
  "context_budget m = (if m \<le> 0 then DefaultMaxContextRunes else m)"

text \<open>How many passages go in: the first always, then as long as the sum stays in the budget.\<close>

definition included_count :: "int \<Rightarrow> Passage list \<Rightarrow> nat" where
  "included_count m ps = snd (prompt_loop (context_budget m) ps 0 0 0 fragments_heading)"

fun entries_from :: "nat \<Rightarrow> Passage list \<Rightarrow> gostring" where
  "entries_from i [] = []"
| "entries_from i (p # ps) = passage_entry (i + 1) p @ entries_from (i + 1) ps"

lemma context_cost_simps [simp]:
  "context_cost [] = 0" "context_cost (p # ps) = passage_cost p + context_cost ps"
  by (simp_all add: context_cost_def)

lemma prompt_loop_prefix:
  "\<exists>k \<le> length ps.
     prompt_loop mx ps i used included b = (b @ entries_from i (take k ps), included + k) \<and>
     (included = 0 \<and> ps \<noteq> [] \<longrightarrow> 0 < k) \<and>
     (included + k \<le> 1 \<or> k = 0 \<or> int (used + context_cost (take k ps)) \<le> mx) \<and>
     (k < length ps \<longrightarrow> 0 < included + k \<and> mx < int (used + context_cost (take (Suc k) ps)))"
proof (induction ps arbitrary: i used included b)
  case (Cons p ps)
  show ?case
  proof (cases "included > 0 \<and> int (used + passage_cost p) > mx")
    case True
    then show ?thesis by (intro exI [of _ 0]) (auto simp: passage_cost_def)
  next
    case False
    from Cons.IH [of "i + 1" "used + passage_cost p" "included + 1" "b @ passage_entry (i + 1) p"]
    obtain k where k: "k \<le> length ps"
      "prompt_loop mx ps (i + 1) (used + passage_cost p) (included + 1) (b @ passage_entry (i + 1) p) =
         (b @ passage_entry (i + 1) p @ entries_from (i + 1) (take k ps), included + 1 + k)"
      "included + 1 + k \<le> 1 \<or> k = 0 \<or> int (used + passage_cost p + context_cost (take k ps)) \<le> mx"
      "k < length ps \<longrightarrow> mx < int (used + passage_cost p + context_cost (take (Suc k) ps))"
      by auto
    show ?thesis
    proof (intro exI [of _ "Suc k"] conjI)
      show "prompt_loop mx (p # ps) i used included b =
        (b @ entries_from i (take (Suc k) (p # ps)), included + Suc k)"
        using False k(2) by (auto simp: passage_cost_def Let_def)
    qed (use False k in auto)
  qed
qed simp

text \<open>
  C28. The prompt quotes the longest prefix of the retrieved passages that fits. For every
  question, list of passages and budget (a non-positive one means 12000 runes) the prompt
  is the heading, the entries of the first \<open>k\<close> passages numbered from 1 in the given
  order, the note that nothing was found exactly when there is no passage, and the trimmed
  question. At least one passage is quoted when there is one; two or more never cost more
  than the budget together; and a passage is left out only when quoting one more would
  exceed the budget. So truncation drops the least relevant passages and no others.
\<close>

theorem BuildUserPrompt_longest_prefix:
  "let k = included_count m ps in
     BuildUserPrompt q ps m =
       fragments_heading @ entries_from 0 (take k ps) @ (if ps = [] then nothing_found else []) @
       question_label @ trim_space q \<and>
     k \<le> length ps \<and> (ps = [] \<or> 0 < k) \<and>
     (k \<le> 1 \<or> int (context_cost (take k ps)) \<le> context_budget m) \<and>
     (k = length ps \<or> context_budget m < int (context_cost (take (Suc k) ps)))"
proof -
  obtain k where "k \<le> length ps"
    "prompt_loop (context_budget m) ps 0 0 0 fragments_heading = (fragments_heading @ entries_from 0 (take k ps), k)"
    "ps = [] \<or> 0 < k" "k \<le> 1 \<or> int (context_cost (take k ps)) \<le> context_budget m"
    "k = length ps \<or> context_budget m < int (context_cost (take (Suc k) ps))"
    using prompt_loop_prefix [of ps "context_budget m" 0 0 0 fragments_heading] by auto
  then show ?thesis
    by (auto simp: BuildUserPrompt_def included_count_def context_budget_def [symmetric] Let_def)
qed

section \<open>Sources\<close>

lemma sources_loop_out: "sources_loop ps seen out = out @ sources_loop ps seen []"
proof (induction ps arbitrary: seen out)
  case (Cons p ps)
  show ?case
    using Cons.IH [of seen out] Cons.IH [of "Source p # seen" "out @ [Source p]"]
      Cons.IH [of "Source p # seen" "[Source p]"] by simp
qed simp

lemma sources_loop_filter:
  "sources_loop ps seen [] = filter (\<lambda>s. s \<notin> set seen) (sources_loop ps [] [])"
proof (induction ps arbitrary: seen)
  case (Cons p ps)
  have one: "sources_loop ps [Source p] [] = filter (\<lambda>s. s \<noteq> Source p) (sources_loop ps [] [])"
    using Cons.IH [of "[Source p]"] by simp
  show ?case
    by (simp add: sources_loop_out [of ps _ "[Source p]"] one Cons.IH [of seen] Cons.IH [of "Source p # seen"])
      (auto intro: filter_cong)
qed simp

lemma Sources_Cons: "Sources (p # ps) = Source p # filter (\<lambda>s. s \<noteq> Source p) (Sources ps)"
  by (simp add: Sources_def sources_loop_out [of ps _ "[Source p]"] sources_loop_filter [of ps "[Source p]"])

lemma Sources_Nil [simp]: "Sources [] = []"
  by (simp add: Sources_def)

lemma set_Sources [simp]: "set (Sources ps) = Source ` set ps"
  by (induction ps) (auto simp: Sources_Cons)

lemma distinct_Sources: "distinct (Sources ps)"
  by (induction ps) (auto simp: Sources_Cons)

lemma Sources_append: "Sources (ps @ qs) = Sources ps @ filter (\<lambda>s. s \<notin> Source ` set ps) (Sources qs)"
  by (induction ps) (auto simp: Sources_Cons intro: filter_cong)

text \<open>
  \<open>Sources\<close> names every file of the passages exactly once, in the order in which
  the passages first mention them: the list has no duplicates, its members are the files
  of the passages, and adding passages to the end of a list only appends the files not
  named before. In particular the files behind the quoted prefix of the passages are a
  prefix of the list.
\<close>

theorem Sources_first_seen:
  "distinct (Sources ps) \<and> set (Sources ps) = Source ` set ps \<and>
   Sources (ps @ qs) = Sources ps @ filter (\<lambda>s. s \<notin> set (Sources ps)) (Sources qs) \<and>
   Sources ps = Sources (take (included_count m ps) ps) @
     filter (\<lambda>s. s \<notin> set (Sources (take (included_count m ps) ps)))
       (Sources (drop (included_count m ps) ps))"
proof (intro conjI)
  show "distinct (Sources ps)" by (rule distinct_Sources)
  show "Sources ps = Sources (take (included_count m ps) ps) @
     filter (\<lambda>s. s \<notin> set (Sources (take (included_count m ps) ps)))
       (Sources (drop (included_count m ps) ps))"
    using Sources_append [of "take (included_count m ps) ps" "drop (included_count m ps) ps"] by simp
qed (simp_all add: Sources_append)

end
