(* ===== verification/Json.thy ===== *)
theory Json
  imports GoError
begin

text \<open>
  \<open>encoding/json\<close> as the program uses it: the text of a value, and the reading of one. The reader
  follows the package's scanner: white space, escapes and surrogates, the grammar of numbers,
  the depth it allows. A number stays its text; a value is read from the front of a stream,
  and what follows it is left.
\<close>

section \<open>Writing\<close>

text \<open>Strings with HTML escaping, objects in the order of the fields.\<close>

abbreviation backslash :: char where "backslash \<equiv> CHR 0x5C"
abbreviation dquote :: char where "dquote \<equiv> CHR 0x22"

definition json_rune :: "rune \<times> gostring \<Rightarrow> gostring" where
  "json_rune rs =
     (let r = fst rs; seg = snd rs in
      if r = 0xFFFD \<and> length seg = 1 then [backslash] @ ''ufffd''
      else if r = 0x22 \<or> r = 0x5C then backslash # seg
      else if r = 8 then [backslash] @ ''b''
      else if r = 9 then [backslash] @ ''t''
      else if r = 10 then [backslash] @ ''n''
      else if r = 12 then [backslash] @ ''f''
      else if r = 13 then [backslash] @ ''r''
      else if r < 0x20 \<or> r = 0x3C \<or> r = 0x3E \<or> r = 0x26 then [backslash] @ ''u00'' @ show_hex 2 r
      else if r = 0x2028 \<or> r = 0x2029 then [backslash] @ ''u202'' @ show_hex 1 r
      else seg)"

definition json_quote :: "gostring \<Rightarrow> gostring" where
  "json_quote s = [dquote] @ concat (map json_rune (segs s)) @ [dquote]"

lemma parts_smaller:
  "x \<in> set xs \<Longrightarrow> size x < Suc (size_list size xs)"
  "kv \<in> set fs \<Longrightarrow> size (snd kv) < Suc (size_list (size_prod (\<lambda>_. 0) size) fs)" for xs :: "json list"
proof -
  assume "kv \<in> set fs"
  moreover have "size (snd kv) \<le> size_prod (\<lambda>_. 0) size kv" by (cases kv) simp
  ultimately have "size (snd kv) \<le> size_list (size_prod (\<lambda>_. 0) size) fs" by (rule size_list_estimation')
  then show "size (snd kv) < Suc (size_list (size_prod (\<lambda>_. 0) size) fs)" by simp
qed (simp add: less_Suc_eq_le size_list_estimation')

function encode :: "json \<Rightarrow> gostring" where
  "encode JNull = ''null''"
| "encode (JBool b) = (if b then ''true'' else ''false'')"
| "encode (JNum n) = n"
| "encode (JStr s) = json_quote s"
| "encode (JArr xs) = ''['' @ join '','' (map encode xs) @ '']''"
| "encode (JObj fs) = ''{'' @ join '','' (map (\<lambda>kv. json_quote (fst kv) @ '':'' @ encode (snd kv)) fs) @ ''}''"
  by pat_completeness auto
termination by (relation "measure size") (auto dest: parts_smaller)

section \<open>Reading\<close>

definition json_space :: "char \<Rightarrow> bool" where
  "json_space c \<longleftrightarrow> byte c = 32 \<or> byte c = 9 \<or> byte c = 10 \<or> byte c = 13"

definition skip_space :: "gostring \<Rightarrow> gostring" where
  "skip_space s = dropWhile json_space s"

definition hex_value :: "char \<Rightarrow> nat option" where
  "hex_value c =
     (if is_digit c then Some (byte c - 48)
      else if 97 \<le> byte c \<and> byte c \<le> 102 then Some (byte c - 87)
      else if 65 \<le> byte c \<and> byte c \<le> 70 then Some (byte c - 55)
      else None)"

text \<open>The inside of a string up to its closing quote, with its escapes checked but not replaced.\<close>

function string_body :: "gostring \<Rightarrow> (gostring \<times> gostring) option" where
  "string_body [] = None"
| "string_body (c # s) =
     (if c = dquote then Some ([], s)
      else if byte c < 0x20 then None
      else if c \<noteq> backslash then map_option (\<lambda>(b, r). (c # b, r)) (string_body s)
      else if s = [] then None
      else if hd s = CHR ''u'' then
        (if length s < 5 \<or> \<not> list_all (\<lambda>h. hex_value h \<noteq> None) (take 4 (tl s)) then None
         else map_option (\<lambda>(b, r). (c # take 5 s @ b, r)) (string_body (drop 5 s)))
      else if hd s \<in> {dquote, backslash} \<union> set ''/bfnrt'' then
        map_option (\<lambda>(b, r). (c # hd s # b, r)) (string_body (tl s))
      else None)"
  by pat_completeness auto
termination by (relation "measure length") auto

text \<open>\<open>getu4\<close>, the pairs of \<open>utf16\<close>, and \<open>unquote\<close>.\<close>

definition getu4 :: "gostring \<Rightarrow> (nat \<times> gostring) option" where
  "getu4 s =
     (if length s < 6 \<or> take 2 s \<noteq> [backslash, CHR ''u''] then None
      else (case those (map hex_value (take 4 (drop 2 s))) of
              None \<Rightarrow> None
            | Some ds \<Rightarrow> Some (foldl (\<lambda>n d. n * 16 + d) 0 ds, drop 6 s)))"

definition surrogate_pair :: "nat \<Rightarrow> gostring \<Rightarrow> (rune \<times> gostring) option" where
  "surrogate_pair hi s =
     (if 0xD800 \<le> hi \<and> hi < 0xDC00 then
        (case getu4 s of
           Some (lo, t) \<Rightarrow>
             if 0xDC00 \<le> lo \<and> lo < 0xE000 then Some (0x10000 + (hi - 0xD800) * 1024 + (lo - 0xDC00), t) else None
         | None \<Rightarrow> None)
      else None)"

definition unescape :: "char \<Rightarrow> char" where
  "unescape e =
     (if e = CHR ''b'' then CHR 0x08 else if e = CHR ''f'' then CHR 0x0C else if e = CHR ''n'' then CHR 0x0A
      else if e = CHR ''r'' then CHR 0x0D else if e = CHR ''t'' then CHR 0x09 else e)"

lemma getu4_shorter: "getu4 s = Some (n, t) \<Longrightarrow> length t < length s"
  by (auto simp: getu4_def split: if_splits option.splits)

lemma surrogate_shorter: "surrogate_pair n s = Some (r, t) \<Longrightarrow> length t < length s"
  by (auto simp: surrogate_pair_def split: if_splits option.splits dest: getu4_shorter)

function unquote :: "gostring \<Rightarrow> gostring" where
  "unquote [] = []"
| "unquote (c # s) =
     (if c = backslash then
        (if s = [] then []
         else if hd s = CHR ''u'' then
           (case getu4 (c # s) of
              None \<Rightarrow> []
            | Some (u, t) \<Rightarrow>
                (case surrogate_pair u t of
                   Some (r, t') \<Rightarrow> encode_rune r @ unquote t'
                 | None \<Rightarrow> encode_rune u @ unquote t))
         else unescape (hd s) # unquote (tl s))
      else if byte c < 0x80 then c # unquote s
      else (case decode_rune (c # s) of (r, n) \<Rightarrow> encode_rune r @ unquote (drop n (c # s))))"
  by pat_completeness auto
termination
proof (relation "measure length", goal_cases)
  case (2 c s x u t)
  then show ?case using getu4_shorter [of "c # s" u t] by auto
next
  case (3 c s x u t x' r t')
  then show ?case using getu4_shorter [of "c # s" u t] surrogate_shorter [of u t r t'] by auto
next
  case (6 c s r n)
  have "n = snd (decode_rune (c # s))" using 6(3) by (metis snd_conv)
  moreover have "0 < snd (decode_rune (c # s))" using decode_rune_width [of "c # s"] by simp
  ultimately show ?case by (simp del: decode_rune.simps)
qed auto

text \<open>A number, as the longest prefix the grammar allows; a sign, a point or an exponent needs its digits.\<close>

definition digits_front :: "gostring \<Rightarrow> (gostring \<times> gostring) option" where
  "digits_front s = (if takeWhile is_digit s = [] then None else Some (takeWhile is_digit s, dropWhile is_digit s))"

definition number_whole :: "gostring \<Rightarrow> (gostring \<times> gostring) option" where
  "number_whole s = (if s \<noteq> [] \<and> hd s = CHR ''0'' then Some (''0'', tl s) else digits_front s)"

definition number_fraction :: "gostring \<Rightarrow> (gostring \<times> gostring) option" where
  "number_fraction s =
     (if s \<noteq> [] \<and> hd s = CHR ''.'' then map_option (\<lambda>(d, r). (CHR ''.'' # d, r)) (digits_front (tl s))
      else Some ([], s))"

definition number_exponent :: "gostring \<Rightarrow> (gostring \<times> gostring) option" where
  "number_exponent s =
     (if s \<noteq> [] \<and> hd s \<in> set ''eE'' then
        (let sgn = (if tl s \<noteq> [] \<and> hd (tl s) \<in> set ''+-'' then take 1 (tl s) else [])
         in map_option (\<lambda>(d, r). (hd s # sgn @ d, r)) (digits_front (drop (length sgn) (tl s))))
      else Some ([], s))"

definition number_sign :: "gostring \<Rightarrow> gostring" where
  "number_sign s = (if s \<noteq> [] \<and> hd s = CHR ''-'' then take 1 s else [])"

definition json_number :: "gostring \<Rightarrow> (gostring \<times> gostring) option" where
  "json_number s =
     (case number_whole (drop (length (number_sign s)) s) of
        None \<Rightarrow> None
      | Some (whole, s1) \<Rightarrow>
          (case number_fraction s1 of
             None \<Rightarrow> None
           | Some (frac, s2) \<Rightarrow>
               (case number_exponent s2 of
                  None \<Rightarrow> None
                | Some (expo, s3) \<Rightarrow> Some (number_sign s @ whole @ frac @ expo, s3))))"

definition json_word :: "gostring \<Rightarrow> json \<Rightarrow> gostring \<Rightarrow> (json \<times> gostring) option" where
  "json_word word v s = (if take (length word) s = word then Some (v, drop (length word) s) else None)"

definition json_atom :: "gostring \<Rightarrow> (json \<times> gostring) option" where
  "json_atom s =
     (if s = [] then None
      else if hd s = dquote then map_option (\<lambda>(b, r). (JStr (unquote b), r)) (string_body (tl s))
      else if hd s = CHR ''n'' then json_word ''null'' JNull s
      else if hd s = CHR ''t'' then json_word ''true'' (JBool True) s
      else if hd s = CHR ''f'' then json_word ''false'' (JBool False) s
      else map_option (\<lambda>(n, r). (JNum n, r)) (json_number s))"

definition maxNestingDepth :: nat where
  "maxNestingDepth = 10000"

text \<open>
  The first argument is fuel. Every call but the step from an element to its value consumes a
  byte, so twice the length of the text is enough; \<open>fuel_enough\<close> shows that more changes nothing.
  The second is the number of arrays and objects around the value.
\<close>

fun json_value :: "nat \<Rightarrow> nat \<Rightarrow> gostring \<Rightarrow> (json \<times> gostring) option"
and json_elems :: "nat \<Rightarrow> nat \<Rightarrow> gostring \<Rightarrow> (json list \<times> gostring) option"
and json_fields :: "nat \<Rightarrow> nat \<Rightarrow> gostring \<Rightarrow> ((gostring \<times> json) list \<times> gostring) option" where
  "json_value 0 d s = None"
| "json_value (Suc n) d s =
     (case skip_space s of
        [] \<Rightarrow> None
      | c # r \<Rightarrow>
          if c = CHR ''['' then
            (if d \<ge> maxNestingDepth then None
             else (case skip_space r of
                     [] \<Rightarrow> None
                   | c' # r' \<Rightarrow>
                       if c' = CHR '']'' then Some (JArr [], r')
                       else map_option (\<lambda>(vs, r). (JArr vs, r)) (json_elems n (d + 1) r)))
          else if c = CHR ''{'' then
            (if d \<ge> maxNestingDepth then None
             else (case skip_space r of
                     [] \<Rightarrow> None
                   | c' # r' \<Rightarrow>
                       if c' = CHR ''}'' then Some (JObj [], r')
                       else map_option (\<lambda>(fs, r). (JObj fs, r)) (json_fields n (d + 1) r)))
          else json_atom (c # r))"
| "json_elems 0 d s = None"
| "json_elems (Suc n) d s =
     (case json_value n d s of
        None \<Rightarrow> None
      | Some (v, r) \<Rightarrow>
          (case skip_space r of
             [] \<Rightarrow> None
           | c # r \<Rightarrow>
               if c = CHR '','' then map_option (\<lambda>(vs, r). (v # vs, r)) (json_elems n d r)
               else if c = CHR '']'' then Some ([v], r)
               else None))"
| "json_fields 0 d s = None"
| "json_fields (Suc n) d s =
     (case skip_space s of
        [] \<Rightarrow> None
      | c # r \<Rightarrow>
          if c \<noteq> dquote then None
          else (case string_body r of
                  None \<Rightarrow> None
                | Some (k, r) \<Rightarrow>
                    (case skip_space r of
                       [] \<Rightarrow> None
                     | c # r \<Rightarrow>
                         if c \<noteq> CHR '':'' then None
                         else (case json_value n d r of
                                 None \<Rightarrow> None
                               | Some (v, r) \<Rightarrow>
                                   (case skip_space r of
                                      [] \<Rightarrow> None
                                    | c # r \<Rightarrow>
                                        if c = CHR '','' then
                                          map_option (\<lambda>(fs, r). ((unquote k, v) # fs, r)) (json_fields n d r)
                                        else if c = CHR ''}'' then Some ([(unquote k, v)], r)
                                        else None)))))"

definition json_first :: "gostring \<Rightarrow> (json \<times> gostring) option" where
  "json_first s = json_value (2 * length s + 2) 0 s"

section \<open>The fuel is enough\<close>

lemma skip_space_length: "length (skip_space s) \<le> length s"
  by (simp add: skip_space_def length_dropWhile_le)

lemma skip_space_less: "skip_space s = c # r \<Longrightarrow> length r < length s"
  using skip_space_length [of s] by simp

lemma string_body_less: "string_body s = Some (b, r) \<Longrightarrow> length r < length s"
proof (induction s arbitrary: b r rule: string_body.induct)
  case (2 c s)
  then show ?case by (auto split: if_splits)
qed simp

lemma digits_front_less: "digits_front s = Some (ds, r) \<Longrightarrow> length r < length s"
  using length_dropWhile_le [of is_digit s]
  by (cases s) (auto simp: digits_front_def le_imp_less_Suc length_dropWhile_le split: if_splits)

lemma number_whole_less: "number_whole s = Some (w, r) \<Longrightarrow> length r < length s"
  by (cases s) (auto simp: number_whole_def split: if_splits dest!: digits_front_less)

lemma number_less: "json_number s = Some (n, r) \<Longrightarrow> length r < length s"
proof -
  assume "json_number s = Some (n, r)"
  then obtain whole s1 frac s2 expo where steps:
    "number_whole (drop (length (number_sign s)) s) = Some (whole, s1)" "number_fraction s1 = Some (frac, s2)"
    "number_exponent s2 = Some (expo, r)"
    by (auto simp: json_number_def split: option.splits)
  have "length s1 < length (drop (length (number_sign s)) s)"
    using steps(1) by (rule number_whole_less)
  moreover have "length s2 \<le> length s1"
    using steps(2) by (auto simp: number_fraction_def split: if_splits dest!: digits_front_less)
  moreover have "length r \<le> length s2"
    using steps(3) by (auto simp: number_exponent_def Let_def split: if_splits dest!: digits_front_less)
  ultimately show ?thesis by simp
qed

lemma atom_less: "json_atom s = Some (v, r) \<Longrightarrow> length r < length s"
  by (auto simp: json_atom_def json_word_def split: if_splits dest!: string_body_less number_less)

lemma json_less:
  "json_value n d s = Some (v, r) \<Longrightarrow> length r < length s"
  "json_elems n d s = Some (vs, r) \<Longrightarrow> length r < length s"
  "json_fields n d s = Some (fs, r) \<Longrightarrow> length r < length s"
proof (induction n d s and n d s and n d s arbitrary: v r and vs r and fs r rule: json_value_json_elems_json_fields.induct)
  case (2 n d s)
  then show ?case
    by (fastforce split: list.splits if_splits dest!: skip_space_less atom_less)
next
  case (4 n d s)
  then show ?case
    by (fastforce split: list.splits if_splits option.splits dest!: skip_space_less)
next
  case (6 n d s)
  then show ?case
    by (fastforce split: list.splits if_splits option.splits dest!: skip_space_less string_body_less)
qed simp_all

lemmas json_step = json_value.simps(2) json_elems.simps(2) json_fields.simps(2)

declare json_step [simp del]

lemma one_more:
  "(2 * length s + 1 \<le> n \<longrightarrow> json_value (Suc n) d s = json_value n d s) \<and>
   (2 * length s + 2 \<le> n \<longrightarrow> json_elems (Suc n) d s = json_elems n d s) \<and>
   (2 * length s + 2 \<le> n \<longrightarrow> json_fields (Suc n) d s = json_fields n d s)"
proof (induction n arbitrary: d s)
  case (Suc n)
  have vals: "json_value (Suc n) d' r = json_value n d' r" if "2 * length r + 1 \<le> n" for d' r
    using Suc [of r] that by simp
  have elems: "json_elems (Suc n) d' r = json_elems n d' r" and fields: "json_fields (Suc n) d' r = json_fields n d' r"
    if "2 * length r + 2 \<le> n" for d' r
    using Suc [of r] that by simp_all
  have v: "json_value (Suc (Suc n)) d s = json_value (Suc n) d s" if "2 * length s + 1 \<le> Suc n"
  proof -
    have "json_elems (Suc n) d' r = json_elems n d' r" "json_fields (Suc n) d' r = json_fields n d' r"
      if "skip_space s = c # r" for d' c r
      using skip_space_less [OF that] \<open>2 * length s + 1 \<le> Suc n\<close> by (simp_all add: elems fields)
    then show ?thesis
      unfolding json_value.simps(2) [of "Suc n" d s] json_value.simps(2) [of n d s]
      by (simp split: list.split)
  qed
  have e: "json_elems (Suc (Suc n)) d s = json_elems (Suc n) d s" if fuel: "2 * length s + 2 \<le> Suc n"
  proof -
    have "json_elems (Suc n) d r = json_elems n d r"
      if "json_value n d s = Some (x, t)" "skip_space t = c # r" for x t c r
      using skip_space_less [OF that(2)] json_less(1) [OF that(1)] fuel by (intro elems) simp
    then show ?thesis
      unfolding json_elems.simps(2) [of "Suc n" d s] json_elems.simps(2) [of n d s]
      using fuel by (simp add: vals split: option.split list.split)
  qed
  have f: "json_fields (Suc (Suc n)) d s = json_fields (Suc n) d s" if fuel: "2 * length s + 2 \<le> Suc n"
  proof -
    have 1: "json_value (Suc n) d r2 = json_value n d r2"
      if "skip_space s = c # r" "string_body r = Some (k, r1)" "skip_space r1 = c1 # r2" for c r k r1 c1 r2
      using skip_space_less [OF that(1)] string_body_less [OF that(2)] skip_space_less [OF that(3)] fuel
      by (intro vals) simp
    have 2: "json_fields (Suc n) d r4 = json_fields n d r4"
      if "skip_space s = c # r" "string_body r = Some (k, r1)" "skip_space r1 = c1 # r2"
        "json_value n d r2 = Some (v, r3)" "skip_space r3 = c2 # r4" for c r k r1 c1 r2 v r3 c2 r4
      using skip_space_less [OF that(1)] string_body_less [OF that(2)] skip_space_less [OF that(3)]
        json_less(1) [OF that(4)] skip_space_less [OF that(5)] fuel by (intro fields) simp
    show ?thesis
      unfolding json_fields.simps(2) [of "Suc n" d s] json_fields.simps(2) [of n d s]
      by (simp add: 1 2 split: option.split list.split)
  qed
  show ?case using v e f by simp
qed simp

lemma fuel_enough:
  assumes "2 * length s + 1 \<le> n" "n \<le> m"
  shows "json_value m d s = json_value n d s"
  using assms(2)
proof (induction m rule: dec_induct)
  case (step m)
  then show ?case using one_more [of s m d] assms(1) by simp
qed simp

section \<open>What is written is read back\<close>

text \<open>
  A string comes back with every byte that is not UTF-8 replaced by U+FFFD, as \<open>to_valid\<close> says;
  a valid string is unchanged.
\<close>

definition to_valid :: "gostring \<Rightarrow> gostring" where
  "to_valid s = of_runes (runes s)"

lemma to_valid_id: "valid_utf8 s \<Longrightarrow> to_valid s = s"
  by (simp add: to_valid_def of_runes_runes)

lemma hex_value_digit: "d < 16 \<Longrightarrow> hex_value (hex_digit d) = Some d"
  by (auto simp: hex_value_def hex_digit_def is_digit_def byte_char_of)

lemma string_body_plain:
  "\<forall>c\<in>set p. c \<noteq> dquote \<and> c \<noteq> backslash \<and> 0x20 \<le> byte c \<Longrightarrow>
     string_body (p @ t) = map_option (\<lambda>(b, r). (p @ b, r)) (string_body t)"
  by (induction p) (auto simp: option.map_comp comp_def case_prod_unfold option.map_ident)

lemma string_body_escape:
  "e \<in> {dquote, backslash} \<union> set ''/bfnrt'' \<Longrightarrow>
     string_body (backslash # e # t) = map_option (\<lambda>(b, r). (backslash # e # b, r)) (string_body t)"
  by auto

lemma string_body_u:
  "list_all (\<lambda>h. hex_value h \<noteq> None) [a, b, c, d] \<Longrightarrow>
     string_body (backslash # CHR ''u'' # a # b # c # d # t) =
       map_option (\<lambda>(x, r). (backslash # CHR ''u'' # a # b # c # d # x, r)) (string_body t)"
  by (simp add: numeral_eq_Suc)

lemma unquote_escape: "e \<noteq> CHR ''u'' \<Longrightarrow> unquote (backslash # e # t) = unescape e # unquote t"
  by simp

lemma unquote_u:
  assumes "those (map hex_value [a, b, c, d]) = Some ds" "foldl (\<lambda>n d. n * 16 + d) 0 ds = u"
    and "u < 0xD800 \<or> 0xDC00 \<le> u"
  shows "unquote (backslash # CHR ''u'' # a # b # c # d # t) = encode_rune u @ unquote t"
proof -
  have "getu4 (backslash # CHR ''u'' # a # b # c # d # t) = Some (u, t)"
    using assms(1,2) by (simp add: getu4_def numeral_eq_Suc)
  then show ?thesis using assms(3) by (auto simp: surrogate_pair_def)
qed

lemma unquote_rune:
  assumes "valid_rune r" "r \<noteq> 0x5C"
  shows "unquote (encode_rune r @ t) = encode_rune r @ unquote t"
proof (cases "r < 0x80")
  case True
  then have "byte (char_of r) = r" "encode_rune r = [char_of r]" by (simp_all add: byte_char_of encode_rune_def)
  moreover have "char_of r \<noteq> backslash"
  proof
    assume "char_of r = backslash"
    then have "byte (char_of r) = 92" by simp
    with calculation(1) assms(2) show False by simp
  qed
  ultimately show ?thesis using True by (simp del: of_char_of)
next
  case False
  obtain c cs where e: "encode_rune r = c # cs" using encode_nonempty [of r] by (cases "encode_rune r") auto
  have "byte c \<ge> 0x80"
  proof (rule ccontr)
    assume "\<not> 0x80 \<le> byte c"
    then have "fst (decode_rune (encode_rune r @ t)) = byte c" using e by simp
    with decode_encode_rune [OF assms(1), of t] False \<open>\<not> 0x80 \<le> byte c\<close> show False by simp
  qed
  moreover have "c \<noteq> backslash" using calculation by auto
  moreover have "decode_rune (c # cs @ t) = (r, length (encode_rune r))"
    using decode_encode_rune [OF assms(1), of t] e by simp
  ultimately show ?thesis using e by (simp del: decode_rune.simps)
qed

lemma encode_rune_high:
  assumes r: "0x80 \<le> r" "valid_rune r" "c \<in> set (encode_rune r)"
  shows "0x80 \<le> byte c"
proof -
  have cont: "0x80 \<le> byte (char_of (0x80 + n mod 64))" for n :: nat
  proof -
    have "0x80 + n mod 64 < 256" by (rule less_trans [of _ "0x80 + 64"]) simp_all
    then show ?thesis by (simp add: byte_char_of del: of_char_of)
  qed
  have lead: "0x80 \<le> byte (char_of (k + n))" if "0x80 \<le> k" "k + n < 256" for k n :: nat
    using that by (simp add: byte_char_of del: of_char_of)
  have "r < 0x110000" using r(2) by (auto simp: valid_rune_def)
  then have "r div 262144 < 5" by simp
  then have "r < 0x800 \<Longrightarrow> c \<in> set (enc2 r) \<Longrightarrow> ?thesis" "r < 0x10000 \<Longrightarrow> c \<in> set (enc3 r) \<Longrightarrow> ?thesis"
    "c \<in> set (enc4 r) \<Longrightarrow> ?thesis"
    using cont lead [of "0xC0" "r div 64"] lead [of "0xE0" "r div 4096"] lead [of "0xF0" "r div 262144"]
    by (auto simp: enc2_def enc3_def enc4_def less_mult_imp_div_less)
  then show ?thesis using r by (auto simp: encode_rune_def split: if_splits)
qed

lemma show_hex_2: "r < 256 \<Longrightarrow> show_hex 2 r = [hex_digit (r div 16), hex_digit (r mod 16)]"
  by (simp add: numeral_2_eq_2 less_mult_imp_div_less)

lemma show_hex_1: "show_hex 1 r = [hex_digit (r mod 16)]"
  by simp

text \<open>One rune of a string, as it is written: the scanner passes over it, and \<open>unquote\<close> gives it back.\<close>

definition passes :: "gostring \<Rightarrow> rune \<Rightarrow> bool" where
  "passes p r \<longleftrightarrow>
     (\<forall>t. string_body (p @ t) = map_option (\<lambda>(b, x). (p @ b, x)) (string_body t) \<and>
          unquote (p @ t) = encode_rune r @ unquote t)"

lemma passes_escape:
  assumes "e \<in> {dquote, backslash} \<union> set ''/bfnrt''" "byte (unescape e) = r" "r < 0x80"
  shows "passes [backslash, e] r"
proof -
  have "encode_rune r = [unescape e]"
    using assms(2,3) by (simp add: encode_rune_def char_of_eqI)
  moreover have "unquote (backslash # e # t) = unescape e # unquote t" for t
    using assms(1) by (intro unquote_escape) auto
  ultimately show ?thesis
    using string_body_escape [OF assms(1)] unfolding passes_def by simp
qed

lemma passes_u:
  assumes "those (map hex_value [a, b, c, d]) = Some ds" "foldl (\<lambda>n d. n * 16 + d) 0 ds = r"
    and "r < 0xD800 \<or> 0xDC00 \<le> r"
  shows "passes [backslash, CHR ''u'', a, b, c, d] r"
proof -
  have "list_all (\<lambda>h. hex_value h \<noteq> None) [a, b, c, d]"
    using assms(1) by (auto split: option.splits)
  then show ?thesis
    using string_body_u unquote_u [OF assms] by (simp add: passes_def)
qed

lemma passes_plain:
  assumes "valid_rune r" "0x20 \<le> r" "r \<noteq> 0x22" "r \<noteq> 0x5C"
  shows "passes (encode_rune r) r"
proof -
  have "c \<noteq> dquote \<and> c \<noteq> backslash \<and> 0x20 \<le> byte c" if c: "c \<in> set (encode_rune r)" for c
  proof (cases "r < 0x80")
    case True
    with c have "byte c = r" by (simp add: encode_rune_def byte_char_of)
    with assms show ?thesis by auto
  next
    case False
    then have "0x80 \<le> byte c" using encode_rune_high [OF _ assms(1) c] by simp
    then show ?thesis by auto
  qed
  then show ?thesis
    using unquote_rune [OF assms(1,4)] by (auto simp: passes_def intro!: string_body_plain)
qed

lemma passes_rune:
  assumes "(r, seg) \<in> set (segs s)"
  shows "passes (json_rune (r, seg)) r"
proof (cases "r = 0xFFFD \<and> length seg = 1")
  case True
  have "passes [backslash, CHR ''u'', CHR ''f'', CHR ''f'', CHR ''f'', CHR ''d''] 0xFFFD"
    by (rule passes_u [of _ _ _ _ "[15, 15, 15, 13]"]) (simp_all add: hex_value_def is_digit_def)
  with True show ?thesis by (simp add: json_rune_def)
next
  case False
  then have seg: "seg = encode_rune r" and valid: "valid_rune r"
    using segs_encode_or_error [OF assms] segs_valid_runes [OF assms] by auto
  consider "r = 0x22 \<or> r = 0x5C" | "r = 8 \<or> r = 9 \<or> r = 10 \<or> r = 12 \<or> r = 13"
    | "r \<notin> {8, 9, 10, 12, 13}" "r < 0x20 \<or> r = 0x3C \<or> r = 0x3E \<or> r = 0x26" | "r = 0x2028 \<or> r = 0x2029"
    | "0x20 \<le> r" "r \<notin> {0x22, 0x5C, 0x3C, 0x3E, 0x26, 0x2028, 0x2029}"
    by fastforce
  then show ?thesis
  proof cases
    case 1
    then have "json_rune (r, seg) = [backslash, char_of r]" using False by (auto simp: json_rune_def seg encode_rune_def)
    moreover have "char_of (34 :: nat) = dquote" "char_of (92 :: nat) = backslash"
      by (auto intro!: char_of_eqI)
    then have "passes [backslash, char_of r] r"
      using 1 by (intro passes_escape) (auto simp: unescape_def)
    ultimately show ?thesis by simp
  next
    case 2
    then show ?thesis
      by (elim disjE) (simp_all add: json_rune_def, (rule passes_escape; simp add: unescape_def)+)
  next
    case 3
    have "r < 256" using 3 by auto
    then have "json_rune (r, seg) = [backslash, CHR ''u'', CHR ''0'', CHR ''0'', hex_digit (r div 16), hex_digit (r mod 16)]"
      using 3 False by (auto simp: json_rune_def show_hex_2)
    moreover have "passes \<dots> r"
      using \<open>r < 256\<close> by (intro passes_u [of _ _ _ _ "[0, 0, r div 16, r mod 16]"])
        (simp_all add: hex_value_digit hex_value_def [of "CHR ''0''"] is_digit_def less_mult_imp_div_less)
    ultimately show ?thesis by simp
  next
    case 4
    then have "json_rune (r, seg) = [backslash, CHR ''u'', CHR ''2'', CHR ''0'', CHR ''2'', hex_digit (r mod 16)]"
      using False by (auto simp: json_rune_def show_hex_1)
    moreover have "passes \<dots> r"
      using 4 by (intro passes_u [of _ _ _ _ "[2, 0, 2, r mod 16]"])
        (auto simp: hex_value_digit hex_value_def [of "CHR ''0''"] hex_value_def [of "CHR ''2''"] is_digit_def)
    ultimately show ?thesis by simp
  next
    case 5
    then have "json_rune (r, seg) = encode_rune r" using False seg by (cases "r = 0xFFFD") (simp_all add: json_rune_def Let_def)
    then show ?thesis using passes_plain [OF valid] 5 by simp
  qed
qed

lemma string_read_back:
  "string_body (concat (map json_rune (segs s)) @ dquote # t) = Some (concat (map json_rune (segs s)), t)"
  "unquote (concat (map json_rune (segs s))) = to_valid s"
proof -
  have "string_body (concat (map json_rune ps) @ dquote # t) = Some (concat (map json_rune ps), t) \<and>
        unquote (concat (map json_rune ps)) = of_runes (map fst ps)" if "set ps \<subseteq> set (segs s)" for ps
    using that
  proof (induction ps)
    case (Cons p ps)
    obtain r seg where p: "p = (r, seg)" by (cases p)
    with Cons.prems have "passes (json_rune p) r" using passes_rune [of r seg s] by simp
    then show ?case using Cons p by (simp add: passes_def of_runes_Cons)
  qed simp
  from this [of "segs s"]
  show "string_body (concat (map json_rune (segs s)) @ dquote # t) = Some (concat (map json_rune (segs s)), t)"
    "unquote (concat (map json_rune (segs s))) = to_valid s"
    by (simp_all add: to_valid_def runes_def)
qed

text \<open>A number ends where no byte of a number follows.\<close>

definition ends_number :: "gostring \<Rightarrow> bool" where
  "ends_number t \<longleftrightarrow> t = [] \<or> \<not> is_digit (hd t) \<and> hd t \<notin> set ''.eE''"

definition number_text :: "gostring \<Rightarrow> bool" where
  "number_text n \<longleftrightarrow> json_number n = Some (n, [])"

lemma digits_front_append:
  "digits_front s = Some (ds, r) \<Longrightarrow> ends_number t \<Longrightarrow> digits_front (s @ t) = Some (ds, r @ t)"
proof -
  assume s: "digits_front s = Some (ds, r)" "ends_number t"
  have t: "takeWhile is_digit t = [] \<and> dropWhile is_digit t = t" using s(2) by (cases t) (auto simp: ends_number_def)
  have "takeWhile is_digit (s @ t) = takeWhile is_digit s \<and> dropWhile is_digit (s @ t) = dropWhile is_digit s @ t"
    using t by (induction s) auto
  then show ?thesis using s(1) by (auto simp: digits_front_def split: if_splits)
qed

lemma number_parts_append:
  assumes "ends_number t"
  shows "number_whole s = Some (w, r) \<Longrightarrow> number_whole (s @ t) = Some (w, r @ t)"
    "number_fraction s = Some (f, r) \<Longrightarrow> number_fraction (s @ t) = Some (f, r @ t)"
    "number_exponent s = Some (e, r) \<Longrightarrow> number_exponent (s @ t) = Some (e, r @ t)"
proof -
  show "number_whole s = Some (w, r) \<Longrightarrow> number_whole (s @ t) = Some (w, r @ t)"
  proof (cases "s \<noteq> [] \<and> hd s = CHR ''0''")
    case True
    then show "number_whole s = Some (w, r) \<Longrightarrow> ?thesis" by (cases s) (auto simp: number_whole_def)
  next
    case False
    assume "number_whole s = Some (w, r)"
    with False have s: "digits_front s = Some (w, r)" by (simp add: number_whole_def split: if_splits)
    then have "s \<noteq> []" by (auto simp: digits_front_def)
    then show ?thesis using False digits_front_append [OF s assms] by (simp add: number_whole_def)
  qed
  show "number_fraction s = Some (f, r) \<Longrightarrow> number_fraction (s @ t) = Some (f, r @ t)"
    using assms digits_front_append [OF _ assms]
    by (cases s; cases t) (auto simp: number_fraction_def ends_number_def split: if_splits)
  have sgn: "(if tl s @ t \<noteq> [] \<and> hd (tl s @ t) \<in> set ''+-'' then take 1 (tl s @ t) else []) =
      (if tl s \<noteq> [] \<and> hd (tl s) \<in> set ''+-'' then take 1 (tl s) else [])" if "tl s \<noteq> []"
    using that by (cases "tl s") auto
  assume e: "number_exponent s = Some (e, r)"
  show "number_exponent (s @ t) = Some (e, r @ t)"
  proof (cases "s \<noteq> [] \<and> hd s \<in> set ''eE''")
    case True
    then have "tl s \<noteq> []" using e by (auto simp: number_exponent_def digits_front_def Let_def)
    moreover obtain c u where "tl s = c # u" using calculation by (cases "tl s") auto
    ultimately show ?thesis
      using True e sgn digits_front_append [OF _ assms] digits_front_append [OF _ assms, of "c # u"]
      by (auto simp: number_exponent_def Let_def split: if_splits)
  next
    case False
    then show ?thesis using e assms
      by (cases s; cases t) (auto simp: number_exponent_def ends_number_def split: if_splits)
  qed
qed

lemma number_head: "json_number s = Some x \<Longrightarrow> s \<noteq> [] \<and> (hd s = CHR ''-'' \<or> is_digit (hd s))"
  by (cases s)
    (auto simp: json_number_def number_whole_def number_sign_def digits_front_def is_digit_def
      split: option.splits if_splits)

lemma json_number_append:
  assumes "json_number s = Some (n, r)" "ends_number t"
  shows "json_number (s @ t) = Some (n, r @ t)"
proof -
  have "s \<noteq> []" using number_head [OF assms(1)] by simp
  then have sgn: "number_sign (s @ t) = number_sign s"
    and drop: "drop (length (number_sign s)) (s @ t) = drop (length (number_sign s)) s @ t"
    by (cases s, auto simp: number_sign_def)+
  obtain whole s1 frac s2 expo where parts:
    "number_whole (drop (length (number_sign s)) s) = Some (whole, s1)" "number_fraction s1 = Some (frac, s2)"
    "number_exponent s2 = Some (expo, r)" "n = number_sign s @ whole @ frac @ expo"
    using assms(1) by (auto simp: json_number_def split: option.splits)
  show ?thesis
    using number_parts_append(1) [OF assms(2) parts(1)] number_parts_append(2) [OF assms(2) parts(2)]
      number_parts_append(3) [OF assms(2) parts(3)] parts(4)
    unfolding json_number_def sgn drop by simp
qed

text \<open>Texts that can be written: the numbers are numbers, and no value lies too deep.\<close>

function writable :: "nat \<Rightarrow> json \<Rightarrow> bool" where
  "writable d (JNum n) = number_text n"
| "writable d (JArr xs) = (d < maxNestingDepth \<and> list_all (writable (d + 1)) xs)"
| "writable d (JObj fs) = (d < maxNestingDepth \<and> list_all (\<lambda>kv. writable (d + 1) (snd kv)) fs)"
| "writable d JNull = True"
| "writable d (JBool b) = True"
| "writable d (JStr s) = True"
  by pat_completeness auto
termination by (relation "measure (size \<circ> snd)") (auto dest: parts_smaller)

function cleaned :: "json \<Rightarrow> json" where
  "cleaned (JStr s) = JStr (to_valid s)"
| "cleaned (JArr xs) = JArr (map cleaned xs)"
| "cleaned (JObj fs) = JObj (map (\<lambda>kv. (to_valid (fst kv), cleaned (snd kv))) fs)"
| "cleaned JNull = JNull"
| "cleaned (JBool b) = JBool b"
| "cleaned (JNum n) = JNum n"
  by pat_completeness auto
termination by (relation "measure size") (auto dest: parts_smaller)

lemma skip_space_id: "s \<noteq> [] \<Longrightarrow> \<not> json_space (hd s) \<Longrightarrow> skip_space s = s"
  by (cases s) (simp_all add: skip_space_def)

lemma number_text_head: "number_text n \<Longrightarrow> n \<noteq> [] \<and> (hd n = CHR ''-'' \<or> is_digit (hd n))"
  unfolding number_text_def by (rule number_head)

text \<open>The first byte of a text tells what it is.\<close>

lemma encode_head:
  "writable d j \<Longrightarrow> encode j \<noteq> [] \<and> \<not> json_space (hd (encode j)) \<and> hd (encode j) \<notin> set '']},:''"
  by (cases j)
    (auto simp: json_quote_def json_space_def is_digit_def dest!: number_text_head)

lemma skip_encode: "writable d j \<Longrightarrow> skip_space (encode j @ t) = encode j @ t"
  using encode_head [of d j] by (intro skip_space_id) simp_all

text \<open>Only after a number does it matter what follows.\<close>

definition ends_value :: "json \<Rightarrow> gostring \<Rightarrow> bool" where
  "ends_value j t = (case j of JNum _ \<Rightarrow> ends_number t | _ \<Rightarrow> True)"

definition reads_back :: "json \<Rightarrow> bool" where
  "reads_back j \<longleftrightarrow>
     (\<forall>n d t. writable d j \<longrightarrow> ends_value j t \<longrightarrow> 2 * length (encode j @ t) + 1 \<le> n \<longrightarrow>
        json_value n d (encode j @ t) = Some (cleaned j, t))"

lemma reads_backD:
  "reads_back j \<Longrightarrow> writable d j \<Longrightarrow> ends_value j t \<Longrightarrow> 2 * length (encode j @ t) + 1 \<le> n \<Longrightarrow>
     json_value n d (encode j @ t) = Some (cleaned j, t)"
  by (simp add: reads_back_def)

lemma json_atom_value:
  "s \<noteq> [] \<Longrightarrow> \<not> json_space (hd s) \<Longrightarrow> hd s \<notin> set ''[{'' \<Longrightarrow> json_value (Suc n) d s = json_atom s"
  by (cases s) (auto simp: json_value.simps(2) skip_space_id split: list.split)

lemma atoms_read_back:
  "reads_back JNull" "reads_back (JBool b)" "reads_back (JNum n)" "reads_back (JStr s)"
proof -
  have some_fuel: "\<exists>k. m = Suc k" if "(n :: nat) + 1 \<le> m" for n m using that by (cases m) auto
  have atom: "reads_back j"
    if "\<And>d. writable d j \<Longrightarrow> hd (encode j) \<notin> set ''[{''"
      "\<And>d t. writable d j \<Longrightarrow> ends_value j t \<Longrightarrow> json_atom (encode j @ t) = Some (cleaned j, t)" for j
    unfolding reads_back_def
  proof (intro allI impI)
    fix n d t assume j: "writable d j" "ends_value j t" "2 * length (encode j @ t) + 1 \<le> n"
    obtain k where "n = Suc k" using some_fuel [OF j(3)] by blast
    then show "json_value n d (encode j @ t) = Some (cleaned j, t)"
      using j that(2) [OF j(1,2)] that(1) [OF j(1)] encode_head [OF j(1)] by (simp add: json_atom_value)
  qed
  show "reads_back JNull" "reads_back (JBool b)"
    by (rule atom; simp add: json_atom_def json_word_def)+
  show "reads_back (JNum n)"
  proof (rule atom)
    fix d t assume "writable d (JNum n)" "ends_value (JNum n) t"
    then have "json_number (n @ t) = Some (n, t)" and h: "n \<noteq> []" "hd n = CHR ''-'' \<or> is_digit (hd n)"
      using json_number_append [of n n "[]" t] number_text_head by (auto simp: number_text_def ends_value_def)
    then show "json_atom (encode (JNum n) @ t) = Some (cleaned (JNum n), t)"
      by (auto simp: json_atom_def is_digit_def)
  qed (use number_text_head [of n] in \<open>auto simp: is_digit_def\<close>)
  show "reads_back (JStr s)"
    by (rule atom) (simp_all add: json_atom_def json_quote_def string_read_back)
qed

lemma elems_read_back:
  assumes "xs \<noteq> []" "\<forall>x\<in>set xs. reads_back x \<and> writable d x"
    and "2 * length (join '','' (map encode xs) @ CHR '']'' # t) + 2 \<le> n"
  shows "json_elems n d (join '','' (map encode xs) @ CHR '']'' # t) = Some (map cleaned xs, t)"
  using assms
proof (induction xs arbitrary: n)
  case (Cons x xs)
  obtain k where n: "n = Suc k" using Cons.prems(3) by (cases n) auto
  let ?rest = "if xs = [] then CHR '']'' # t else CHR '','' # join '','' (map encode xs) @ CHR '']'' # t"
  have whole: "join '','' (map encode (x # xs)) @ CHR '']'' # t = encode x @ ?rest"
    by (cases xs) simp_all
  have fuel: "2 * length (encode x @ ?rest) + 1 \<le> k" using Cons.prems(3) unfolding whole n by simp
  have "ends_value x ?rest" by (simp add: ends_value_def ends_number_def is_digit_def split: json.split)
  then have head: "json_value k d (encode x @ ?rest) = Some (cleaned x, ?rest)"
    using Cons.prems(2) fuel by (intro reads_backD) simp_all
  have rest: "skip_space ?rest = ?rest" by (intro skip_space_id) (simp_all add: json_space_def)
  show ?case
  proof (cases "xs = []")
    case True
    then show ?thesis using head rest unfolding whole n by (simp add: json_elems.simps(2))
  next
    case False
    then have "json_elems k d (join '','' (map encode xs) @ CHR '']'' # t) = Some (map cleaned xs, t)"
      using Cons.prems(2) fuel by (intro Cons.IH) simp_all
    then show ?thesis using False head rest unfolding whole n by (simp add: json_elems.simps(2))
  qed
qed simp

abbreviation encode_field :: "gostring \<times> json \<Rightarrow> gostring" where
  "encode_field kv \<equiv> json_quote (fst kv) @ '':'' @ encode (snd kv)"

lemma fields_read_back:
  assumes "fs \<noteq> []" "\<forall>kv\<in>set fs. reads_back (snd kv) \<and> writable d (snd kv)"
    and "2 * length (join '','' (map encode_field fs) @ CHR ''}'' # t) + 2 \<le> n"
  shows "json_fields n d (join '','' (map encode_field fs) @ CHR ''}'' # t) =
           Some (map (\<lambda>kv. (to_valid (fst kv), cleaned (snd kv))) fs, t)"
  using assms
proof (induction fs arbitrary: n)
  case (Cons kv fs)
  obtain k where n: "n = Suc k" using Cons.prems(3) by (cases n) auto
  let ?key = "concat (map json_rune (segs (fst kv)))"
  let ?rest = "if fs = [] then CHR ''}'' # t else CHR '','' # join '','' (map encode_field fs) @ CHR ''}'' # t"
  have whole: "join '','' (map encode_field (kv # fs)) @ CHR ''}'' # t =
      dquote # ?key @ dquote # CHR '':'' # encode (snd kv) @ ?rest"
    by (cases fs) (simp_all add: json_quote_def)
  have fuel: "2 * length (encode (snd kv) @ ?rest) + 1 \<le> k" using Cons.prems(3) unfolding whole n by simp
  have "ends_value (snd kv) ?rest" by (simp add: ends_value_def ends_number_def is_digit_def split: json.split)
  then have head: "json_value k d (encode (snd kv) @ ?rest) = Some (cleaned (snd kv), ?rest)"
    using Cons.prems(2) fuel by (intro reads_backD) simp_all
  have spaces: "skip_space ?rest = ?rest" "skip_space (dquote # s) = dquote # s" "skip_space (CHR '':'' # s) = CHR '':'' # s" for s
    by (intro skip_space_id; simp add: json_space_def)+
  show ?case
  proof (cases "fs = []")
    case True
    then show ?thesis using head spaces unfolding whole n by (simp add: json_fields.simps(2) string_read_back)
  next
    case False
    then have "json_fields k d (join '','' (map encode_field fs) @ CHR ''}'' # t) =
        Some (map (\<lambda>kv. (to_valid (fst kv), cleaned (snd kv))) fs, t)"
      using Cons.prems(2) fuel by (intro Cons.IH) simp_all
    then show ?thesis using False head spaces unfolding whole n by (simp add: json_fields.simps(2) string_read_back)
  qed
qed simp

lemma everything_reads_back: "reads_back j"
proof (induction j rule: encode.induct)
  case (5 xs)
  show ?case unfolding reads_back_def
  proof (intro allI impI)
    fix n d t assume j: "writable d (JArr xs)" "ends_value (JArr xs) t" "2 * length (encode (JArr xs) @ t) + 1 \<le> n"
    obtain k where n: "n = Suc k" using j(3) by (cases n) auto
    show "json_value n d (encode (JArr xs) @ t) = Some (cleaned (JArr xs), t)"
    proof (cases "xs = []")
      case True
      then show ?thesis using j n by (simp add: json_value.simps(2) skip_space_id json_space_def)
    next
      case False
      let ?s = "join '','' (map encode xs) @ CHR '']'' # t"
      have "json_elems k (d + 1) ?s = Some (map cleaned xs, t)"
        using 5 False j n by (intro elems_read_back) (auto simp: list_all_iff)
      moreover obtain c s where s: "?s = c # s" "\<not> json_space c" "c \<noteq> CHR '']''"
      proof -
        obtain x ys where xs: "xs = x # ys" using False by (cases xs) auto
        then have "writable (d + 1) x" using j(1) by simp
        then obtain c s where x: "encode x = c # s" "\<not> json_space c" "c \<noteq> CHR '']''"
          using encode_head [of "d + 1" x] by (cases "encode x") auto
        show ?thesis
          by (rule that [of c "s @ (if ys = [] then [] else '','' @ join '','' (map encode ys)) @ CHR '']'' # t"])
            (cases ys; simp add: xs x)+
      qed
      moreover have "skip_space ?s = c # s" using s by (simp add: skip_space_id)
      ultimately show ?thesis using j n by (simp add: json_value.simps(2) skip_space_id json_space_def)
    qed
  qed
next
  case (6 fs)
  show ?case unfolding reads_back_def
  proof (intro allI impI)
    fix n d t assume j: "writable d (JObj fs)" "ends_value (JObj fs) t" "2 * length (encode (JObj fs) @ t) + 1 \<le> n"
    obtain k where n: "n = Suc k" using j(3) by (cases n) auto
    show "json_value n d (encode (JObj fs) @ t) = Some (cleaned (JObj fs), t)"
    proof (cases "fs = []")
      case True
      then show ?thesis using j n by (simp add: json_value.simps(2) skip_space_id json_space_def)
    next
      case False
      let ?s = "join '','' (map encode_field fs) @ CHR ''}'' # t"
      have "json_fields k (d + 1) ?s = Some (map (\<lambda>kv. (to_valid (fst kv), cleaned (snd kv))) fs, t)"
        using 6 False j n by (intro fields_read_back) (auto simp: list_all_iff)
      moreover obtain s where s: "?s = dquote # s"
        using False by (cases fs; cases "tl fs") (auto simp: json_quote_def)
      moreover have "skip_space ?s = dquote # s" using s by (simp add: skip_space_id json_space_def)
      ultimately show ?thesis using j n by (simp add: json_value.simps(2) skip_space_id json_space_def)
    qed
  qed
qed (rule atoms_read_back)+

theorem written_is_read_back:
  assumes "writable 0 j" "ends_value j t"
  shows "json_first (encode j @ t) = Some (cleaned j, t)"
  unfolding json_first_def using assms everything_reads_back by (intro reads_backD) simp_all

text \<open>The numbers the program writes are numbers.\<close>

lemma show_nat_head: "hd (show_nat n) = CHR ''0'' \<Longrightarrow> n = 0"
proof (induction n rule: show_nat.induct)
  case (1 n)
  show ?case
  proof (cases "n < 10")
    case True
    then have "show_nat n = [digit_char n]" by (subst show_nat.simps) simp
    then have "byte (digit_char n) = 48" using 1(2) by simp
    then show ?thesis using True by (simp add: byte_digit_char)
  next
    case False
    then have "hd (show_nat n) = hd (show_nat (n div 10))" by (subst show_nat.simps) simp
    then show ?thesis using 1 False by simp
  qed
qed

lemma number_text_show_nat: "number_text (show_nat n) \<and> number_text (CHR ''-'' # show_nat n)"
proof -
  have ds: "list_all is_digit (show_nat n)" using show_nat_digits by (auto simp: list_all_iff)
  have "number_whole (show_nat n) = Some (show_nat n, [])"
  proof (cases "n = 0")
    case True
    have "show_nat 0 = ''0''" by code_simp
    with True show ?thesis by (simp add: number_whole_def)
  next
    case False
    have "takeWhile is_digit (show_nat n) = show_nat n" "dropWhile is_digit (show_nat n) = []"
      using ds by (simp_all add: list_all_iff)
    then have "digits_front (show_nat n) = Some (show_nat n, [])"
      unfolding digits_front_def by (simp only: show_nat_nonempty if_False)
    then show ?thesis using False show_nat_head [of n] by (auto simp: number_whole_def)
  qed
  then show ?thesis using show_nat_no_sign [of n]
    by (simp add: number_text_def json_number_def number_sign_def number_fraction_def number_exponent_def)
qed

lemma number_text_show_int: "number_text (show_int i)"
  by (simp add: show_int_def number_text_show_nat)

end
