(* ===== verification/Unmarshal.thy ===== *)
theory Unmarshal
  imports Json Embed
begin

text \<open>
  How \<open>encoding/json\<close> stores what it has read into the structs of the program: the values of a
  type, the field a key names, the faults, and the two ways in, \<open>Unmarshal\<close> and a
  \<open>Decoder\<close> on a stream. The parsing of a \<open>float32\<close> and the wording of a fault are parameters.
  The elements a slice keeps behind its length when a key comes three times are left out.
\<close>

section \<open>Types and values\<close>

datatype gotype = TString | TInt | TFloat32 | TSlice gotype | TPtr gotype | TStruct "(gostring \<times> gotype) list"

datatype goval =
    VString gostring
  | VInt int
  | VFloat float32
  | VNil
  | VSlice "goval list"
  | VPtr goval
  | VStruct "(gostring \<times> goval) list"

primrec zero_of :: "gotype \<Rightarrow> goval" where
  "zero_of TString = VString []"
| "zero_of TInt = VInt 0"
| "zero_of TFloat32 = VFloat 0"
| "zero_of (TSlice t) = VNil"
| "zero_of (TPtr t) = VNil"
| "zero_of (TStruct fs) = VStruct (map (map_prod id zero_of) fs)"

text \<open>
  A key names the field it equals, or else the field it equals up to case: \<open>foldName\<close>, on the
  runes whose case folding has a letter of ASCII.
\<close>

definition fold_rune :: "rune \<Rightarrow> rune" where
  "fold_rune r = (if 97 \<le> r \<and> r \<le> 122 then r - 32 else if r = 0x212A then 75 else if r = 0x17F then 83 else r)"

definition fold_name :: "gostring \<Rightarrow> rune list" where
  "fold_name s = map fold_rune (runes s)"

definition find_field :: "gostring list \<Rightarrow> gostring \<Rightarrow> gostring option" where
  "find_field names key =
     (if key \<in> set names then Some key else find (\<lambda>n. fold_name n = fold_name key) names)"

definition set_field :: "gostring \<Rightarrow> 'a \<Rightarrow> (gostring \<times> 'a) list \<Rightarrow> (gostring \<times> 'a) list" where
  "set_field name v = map (\<lambda>(n, u). (n, if n = name then v else u))"

section \<open>Storing a value\<close>

text \<open>The first fault is the one reported; what can be stored still is.\<close>

datatype fault = NoValue | NoField gostring | WrongType json

definition first_fault :: "fault option \<Rightarrow> fault \<Rightarrow> fault option" where
  "first_fault saved e = (if saved = None then Some e else saved)"

record decoder =
  strict :: bool
  parseFloat32 :: "gostring \<Rightarrow> float32 option"

definition elems_of :: "goval \<Rightarrow> goval list" where
  "elems_of v = (case v of VSlice vs \<Rightarrow> vs | _ \<Rightarrow> [])"

definition fields_of :: "goval \<Rightarrow> (gostring \<times> goval) list" where
  "fields_of v = (case v of VStruct vs \<Rightarrow> vs | _ \<Rightarrow> [])"

text \<open>The value of an element or a field before: what a pointer points to, or a zero.\<close>

definition pointee :: "gotype \<Rightarrow> goval \<Rightarrow> goval" where
  "pointee t v = (case v of VPtr u \<Rightarrow> u | _ \<Rightarrow> zero_of t)"

definition assign_atom :: "'a option \<Rightarrow> ('a \<Rightarrow> goval) \<Rightarrow> json \<Rightarrow> goval \<Rightarrow> fault option \<Rightarrow> goval \<times> fault option" where
  "assign_atom x f j old saved =
     (if j = JNull then (old, saved)
      else case x of None \<Rightarrow> (old, first_fault saved (WrongType j)) | Some a \<Rightarrow> (f a, saved))"

fun text_in :: "json \<Rightarrow> gostring option" where
  "text_in (JStr s) = Some s"
| "text_in _ = None"

fun number_in :: "json \<Rightarrow> gostring option" where
  "number_in (JNum n) = Some n"
| "number_in _ = None"

function assign :: "decoder \<Rightarrow> gotype \<Rightarrow> json \<Rightarrow> goval \<Rightarrow> fault option \<Rightarrow> goval \<times> fault option"
and assign_elems :: "decoder \<Rightarrow> gotype \<Rightarrow> json list \<Rightarrow> goval list \<Rightarrow> fault option \<Rightarrow> goval list \<times> fault option"
and assign_fields :: "decoder \<Rightarrow> (gostring \<times> gotype) list \<Rightarrow> (gostring \<times> json) list \<Rightarrow> (gostring \<times> goval) list \<Rightarrow>
   fault option \<Rightarrow> (gostring \<times> goval) list \<times> fault option" where
  "assign d TString j old saved = assign_atom (text_in j) VString j old saved"
| "assign d TInt j old saved = assign_atom (Option.bind (number_in j) atoi) VInt j old saved"
| "assign d TFloat32 j old saved = assign_atom (Option.bind (number_in j) (parseFloat32 d)) VFloat j old saved"
| "assign d (TPtr t) j old saved =
     (if j = JNull then (VNil, saved)
      else case assign d t j (pointee t old) saved of (v, saved) \<Rightarrow> (VPtr v, saved))"
| "assign d (TSlice t) j old saved =
     (case j of
        JNull \<Rightarrow> (VNil, saved)
      | JArr js \<Rightarrow> (case assign_elems d t js (elems_of old) saved of (vs, saved) \<Rightarrow> (VSlice vs, saved))
      | _ \<Rightarrow> (old, first_fault saved (WrongType j)))"
| "assign d (TStruct fs) j old saved =
     (case j of
        JNull \<Rightarrow> (old, saved)
      | JObj kvs \<Rightarrow> (case assign_fields d fs kvs (fields_of old) saved of (vs, saved) \<Rightarrow> (VStruct vs, saved))
      | _ \<Rightarrow> (old, first_fault saved (WrongType j)))"
| "assign_elems d t [] olds saved = ([], saved)"
| "assign_elems d t (j # js) olds saved =
     (case assign d t j (if olds = [] then zero_of t else hd olds) saved of
        (v, saved) \<Rightarrow> (case assign_elems d t js (tl olds) saved of (vs, saved) \<Rightarrow> (v # vs, saved)))"
| "assign_fields d fs [] vals saved = (vals, saved)"
| "assign_fields d fs (kv # kvs) vals saved =
     (case find_field (map fst fs) (fst kv) of
        None \<Rightarrow> assign_fields d fs kvs vals (if strict d then first_fault saved (NoField (fst kv)) else saved)
      | Some n \<Rightarrow>
          (case assign d (the (map_of fs n)) (snd kv) (the (map_of vals n)) saved of
             (v, saved) \<Rightarrow> assign_fields d fs kvs (set_field n v vals) saved))"
  by pat_completeness auto
termination
  by (relation "measures [\<lambda>x. case x of Inl (d, t, j, old, sv) \<Rightarrow> size j
        | Inr (Inl (d, t, js, olds, sv)) \<Rightarrow> size_list size js
        | Inr (Inr (d, fs, kvs, vals, sv)) \<Rightarrow> size_list (size_prod (\<lambda>_. 0) size) kvs,
      \<lambda>x. case x of Inl (d, t, j, old, sv) \<Rightarrow> size t | Inr y \<Rightarrow> 0]") auto

section \<open>The two ways in\<close>

text \<open>\<open>Unmarshal\<close> wants one value and nothing behind it.\<close>

definition Unmarshal ::
  "decoder \<Rightarrow> (gostring \<times> goerr option \<Rightarrow> fault \<Rightarrow> goerr) \<Rightarrow> gotype \<Rightarrow> gostring \<Rightarrow> goval result" where
  "Unmarshal d wording t s =
     (case json_first s of
        None \<Rightarrow> Inl (wording (s, None) NoValue)
      | Some (j, rest) \<Rightarrow>
          if skip_space rest \<noteq> [] then Inl (wording (s, None) NoValue)
          else (case assign d t j (zero_of t) None of
                  (v, None) \<Rightarrow> Inr v
                | (_, Some e) \<Rightarrow> Inl (wording (s, None) e)))"

text \<open>
  \<open>Decoder.Decode\<close> reads the first value of a stream. It sees the end of an object or an array
  in its last byte; any other value ends with the byte after it, or with the stream, which
  must then end well.
\<close>

fun self_delimiting :: "json \<Rightarrow> bool" where
  "self_delimiting (JArr xs) = True"
| "self_delimiting (JObj fs) = True"
| "self_delimiting v = False"

definition Decode ::
  "decoder \<Rightarrow> (gostring \<times> goerr option \<Rightarrow> fault \<Rightarrow> goerr) \<Rightarrow> gotype \<Rightarrow> gostring \<times> goerr option \<Rightarrow> goval result" where
  "Decode d wording t b =
     (case json_first (fst b) of
        None \<Rightarrow> Inl (wording b NoValue)
      | Some (j, rest) \<Rightarrow>
          if rest = [] \<and> snd b \<noteq> None \<and> \<not> self_delimiting j then Inl (wording b NoValue)
          else (case assign d t j (zero_of t) None of
                  (v, None) \<Rightarrow> Inr v
                | (_, Some e) \<Rightarrow> Inl (wording b e)))"

section \<open>Reading the fields of a struct\<close>

definition field_of :: "gostring \<Rightarrow> goval \<Rightarrow> goval" where
  "field_of name v = (case map_of (fields_of v) name of Some u \<Rightarrow> u | None \<Rightarrow> VNil)"

definition text_value :: "goval \<Rightarrow> gostring" where
  "text_value v = (case v of VString s \<Rightarrow> s | _ \<Rightarrow> [])"

definition int_value :: "goval \<Rightarrow> int" where
  "int_value v = (case v of VInt i \<Rightarrow> i | _ \<Rightarrow> 0)"

definition vector_value :: "goval \<Rightarrow> Vector" where
  "vector_value v = map (\<lambda>x. case x of VFloat f \<Rightarrow> f | _ \<Rightarrow> 0) (elems_of v)"

section \<open>What is stored has its type\<close>

primrec typed :: "gotype \<Rightarrow> goval \<Rightarrow> bool" where
  "typed TString v = (case v of VString s \<Rightarrow> True | _ \<Rightarrow> False)"
| "typed TInt v = (case v of VInt i \<Rightarrow> int64_range i | _ \<Rightarrow> False)"
| "typed TFloat32 v = (case v of VFloat f \<Rightarrow> True | _ \<Rightarrow> False)"
| "typed (TSlice t) v = (case v of VNil \<Rightarrow> True | VSlice vs \<Rightarrow> list_all (typed t) vs | _ \<Rightarrow> False)"
| "typed (TPtr t) v = (case v of VNil \<Rightarrow> True | VPtr u \<Rightarrow> typed t u | _ \<Rightarrow> False)"
| "typed (TStruct fs) v =
     (case v of
        VStruct vs \<Rightarrow> list_all2 (\<lambda>f x. fst f = fst x \<and> snd f (snd x)) (map (map_prod id typed) fs) vs
      | _ \<Rightarrow> False)"

definition typed_fields :: "(gostring \<times> gotype) list \<Rightarrow> (gostring \<times> goval) list \<Rightarrow> bool" where
  "typed_fields fs vs \<longleftrightarrow> list_all2 (\<lambda>f x. fst f = fst x \<and> typed (snd f) (snd x)) fs vs"

lemma typed_struct: "typed (TStruct fs) v \<longleftrightarrow> (\<exists>vs. v = VStruct vs \<and> typed_fields fs vs)"
  by (auto simp: typed_fields_def list_all2_map1 split: goval.splits)

lemma typed_fields_names: "typed_fields fs vs \<Longrightarrow> map fst vs = map fst fs"
  by (auto simp: typed_fields_def list_all2_conv_all_nth intro!: nth_equalityI)

lemma zero_typed: "typed t (zero_of t)"
proof (induction t)
  case (TStruct fs)
  then show ?case by (force simp: list_all2_map1 list_all2_map2 list_all2_same)
qed (auto simp: int64_range_def)

lemma typed_fields_map_of:
  "typed_fields fs vs \<Longrightarrow> n \<in> set (map fst fs) \<Longrightarrow> typed (the (map_of fs n)) (the (map_of vs n))"
  unfolding typed_fields_def by (induction fs vs rule: list_all2_induct) auto

lemma find_field_in: "find_field names key = Some n \<Longrightarrow> n \<in> set names"
  by (auto simp: find_field_def find_Some_iff split: if_splits)

lemma typed_set_field:
  "typed_fields fs vs \<Longrightarrow> distinct (map fst fs) \<Longrightarrow> typed (the (map_of fs n)) v \<Longrightarrow> typed_fields fs (set_field n v vs)"
  unfolding typed_fields_def set_field_def
proof (induction fs vs rule: list_all2_induct)
  case (Cons f fs x vs)
  show ?case
  proof (cases "fst f = n")
    case True
    then have "n \<notin> set (map fst vs)"
      using Cons typed_fields_names [of fs vs] by (auto simp: typed_fields_def)
    then have "map (\<lambda>(m, u). (m, if m = n then v else u)) vs = vs"
      by (intro map_idI) force
    then show ?thesis using True Cons by (auto split: prod.splits)
  next
    case False
    then show ?thesis using Cons by (auto split: prod.splits)
  qed
qed simp

text \<open>The names of the fields of a struct are different.\<close>

primrec sound_type :: "gotype \<Rightarrow> bool" where
  "sound_type TString = True"
| "sound_type TInt = True"
| "sound_type TFloat32 = True"
| "sound_type (TSlice t) = sound_type t"
| "sound_type (TPtr t) = sound_type t"
| "sound_type (TStruct fs) = (distinct (map fst fs) \<and> list_all snd (map (map_prod id sound_type) fs))"

lemma sound_field: "sound_type (TStruct fs) \<Longrightarrow> n \<in> set (map fst fs) \<Longrightarrow> sound_type (the (map_of fs n))"
  by (induction fs) (auto simp: list_all_iff)

lemma atoi_range: "atoi s = Some i \<Longrightarrow> int64_range i"
  by (auto simp: atoi_def Let_def split: if_splits)

lemma assign_typed:
  "sound_type t \<Longrightarrow> typed t old \<Longrightarrow> typed t (fst (assign d t j old saved))"
  "sound_type t \<Longrightarrow> list_all (typed t) olds \<Longrightarrow> list_all (typed t) (fst (assign_elems d t js olds saved))"
  "sound_type (TStruct fs) \<Longrightarrow> typed_fields fs vals \<Longrightarrow> typed_fields fs (fst (assign_fields d fs kvs vals saved))"
proof (induction d t j old saved and d t js olds saved and d fs kvs vals saved rule: assign_assign_elems_assign_fields.induct)
  case (1 d j old saved)
  then show ?case by (auto simp: assign_atom_def split: option.splits)
next
  case (2 d j old saved)
  then show ?case by (auto simp: assign_atom_def bind_eq_Some_conv dest: atoi_range split: option.splits)
next
  case (3 d j old saved)
  then show ?case by (auto simp: assign_atom_def split: option.splits)
next
  case (4 d t j old saved)
  have "typed t (pointee t old)" using 4(3) zero_typed by (auto simp: pointee_def split: goval.splits)
  then show ?case using 4 by (auto split: prod.splits)
next
  case (5 d t j old saved)
  have "list_all (typed t) (elems_of old)" using 5(3) by (auto simp: elems_of_def split: goval.splits)
  then show ?case using 5 by (auto split: prod.splits json.splits)
next
  case (6 d fs j old saved)
  obtain vs where vs: "old = VStruct vs" "typed_fields fs vs" using 6(3) unfolding typed_struct by blast
  then have "typed_fields fs (fst (assign_fields d fs kvs (fields_of old) saved))" if "j = JObj kvs" for kvs
    using 6(1) [OF that 6(2)] by (simp add: fields_of_def)
  then show ?case using 6(3) unfolding typed_struct
    by (auto split: json.split prod.split)
next
  case (8 d t j js olds saved)
  have "typed t (if olds = [] then zero_of t else hd olds)" "list_all (typed t) (tl olds)"
    using 8(4) zero_typed by (cases olds; simp)+
  then show ?case using 8 by (auto split: prod.splits)
next
  case (10 d fs kv kvs vals saved)
  show ?case
  proof (cases "find_field (map fst fs) (fst kv)")
    case None
    then show ?thesis using 10 by simp
  next
    case (Some n)
    have n: "n \<in> set (map fst fs)" using find_field_in [OF Some] .
    obtain v sv where a: "assign d (the (map_of fs n)) (snd kv) (the (map_of vals n)) saved = (v, sv)" by fastforce
    have "typed (the (map_of fs n)) v"
      using 10(2) [OF Some sound_field [OF 10(4) n] typed_fields_map_of [OF 10(5) n]] a by simp
    then have "typed_fields fs (set_field n v vals)"
      using 10(4,5) by (intro typed_set_field) simp_all
    then show ?thesis using Some a 10 by simp
  qed
qed simp_all

lemma assigned_typed: "assign d t j (zero_of t) saved = (v, sv) \<Longrightarrow> sound_type t \<Longrightarrow> typed t v"
  using assign_typed(1) [of t "zero_of t" d j saved] zero_typed [of t] by simp

lemma Unmarshal_typed: "Unmarshal d wording t s = Inr v \<Longrightarrow> sound_type t \<Longrightarrow> typed t v"
  by (auto simp: Unmarshal_def split: option.splits prod.splits if_splits dest: assigned_typed)

lemma Decode_typed: "Decode d wording t b = Inr v \<Longrightarrow> sound_type t \<Longrightarrow> typed t v"
  by (auto simp: Decode_def split: option.splits prod.splits if_splits dest: assigned_typed)

section \<open>A fault is not forgotten\<close>

lemma fault_stays:
  "saved \<noteq> None \<Longrightarrow> snd (assign d t j old saved) = saved"
  "saved \<noteq> None \<Longrightarrow> snd (assign_elems d t js olds saved) = saved"
  "saved \<noteq> None \<Longrightarrow> snd (assign_fields d fs kvs vals saved) = saved"
proof (induction d t j old saved and d t js olds saved and d fs kvs vals saved rule: assign_assign_elems_assign_fields.induct)
  case (10 d fs kv kvs vals saved)
  then show ?case
    by (cases "find_field (map fst fs) (fst kv)") (auto simp: first_fault_def split: prod.splits)
qed (auto simp: assign_atom_def first_fault_def split: option.splits json.splits prod.splits)

text \<open>A key that names no field is refused wherever it stands, by a strict decoder.\<close>

lemma unknown_field_refused:
  "strict d \<Longrightarrow> kv \<in> set kvs \<Longrightarrow> find_field (map fst fs) (fst kv) = None \<Longrightarrow>
     snd (assign_fields d fs kvs vals saved) \<noteq> None"
proof (induction kvs arbitrary: vals saved)
  case (Cons x kvs)
  show ?case
  proof (cases "kv = x")
    case True
    then show ?thesis
      using Cons.prems fault_stays(3) [of "first_fault saved (NoField (fst x))" d fs kvs vals]
      by (simp add: first_fault_def split: if_splits)
  next
    case False
    then show ?thesis using Cons by (auto split: option.split prod.split)
  qed
qed simp

section \<open>What determines a value\<close>

text \<open>A text that stores a value whatever was there before.\<close>

definition full :: "decoder \<Rightarrow> gotype \<Rightarrow> json \<Rightarrow> goval \<Rightarrow> bool" where
  "full d t j v \<longleftrightarrow> (\<forall>old. typed t old \<longrightarrow> assign d t j old None = (v, None))"

lemma full_zero: "full d t j v \<Longrightarrow> assign d t j (zero_of t) None = (v, None)"
  by (simp add: full_def zero_typed)

lemma full_atoms:
  "full d TString (JStr s) (VString s)"
  "int64_range i \<Longrightarrow> full d TInt (JNum (show_int i)) (VInt i)"
  "parseFloat32 d n = Some x \<Longrightarrow> full d TFloat32 (JNum n) (VFloat x)"
  by (simp_all add: full_def assign_atom_def atoi_show_int)

lemma full_elems:
  assumes "list_all2 (full d t) js vs" "list_all (typed t) olds"
  shows "assign_elems d t js olds None = (vs, None)"
  using assms
proof (induction js vs arbitrary: olds rule: list_all2_induct)
  case (Cons j js v vs)
  have "typed t (if olds = [] then zero_of t else hd olds)" "list_all (typed t) (tl olds)"
    using Cons.prems zero_typed by (cases olds; simp)+
  then show ?case using Cons by (simp add: full_def)
qed simp

lemma full_slice: "list_all2 (full d t) js vs \<Longrightarrow> full d (TSlice t) (JArr js) (VSlice vs)"
proof -
  assume fulls: "list_all2 (full d t) js vs"
  have "list_all (typed t) (elems_of old)" if "typed (TSlice t) old" for old
    using that by (auto simp: elems_of_def split: goval.splits)
  then show ?thesis using full_elems [OF fulls] by (simp add: full_def)
qed

text \<open>An object whose known keys carry full texts of their fields; other keys only if the decoder is not strict.\<close>

definition names_fields :: "decoder \<Rightarrow> (gostring \<times> gotype) list \<Rightarrow> (gostring \<times> json) list \<Rightarrow> (gostring \<times> goval) list \<Rightarrow> bool" where
  "names_fields d fs kvs vs \<longleftrightarrow>
     (\<forall>kv\<in>set kvs. case find_field (map fst fs) (fst kv) of
        None \<Rightarrow> \<not> strict d
      | Some n \<Rightarrow> full d (the (map_of fs n)) (snd kv) (the (map_of vs n)))"

definition named :: "gostring list \<Rightarrow> (gostring \<times> json) list \<Rightarrow> gostring \<Rightarrow> bool" where
  "named names kvs n \<longleftrightarrow> (\<exists>kv\<in>set kvs. find_field names (fst kv) = Some n)"

lemma full_fields:
  assumes "distinct (map fst fs)" "typed_fields fs vs" "typed_fields fs vals" "names_fields d fs kvs vs"
  shows "assign_fields d fs kvs vals None =
     (map (\<lambda>(n, u). (n, if named (map fst fs) kvs n then the (map_of vs n) else u)) vals, None)"
  using assms(3,4)
proof (induction kvs arbitrary: vals)
  case Nil
  then show ?case by (simp add: named_def case_prod_unfold)
next
  case (Cons kv kvs)
  have rest: "names_fields d fs kvs vs" using Cons.prems(2) by (simp add: names_fields_def)
  show ?case
  proof (cases "find_field (map fst fs) (fst kv)")
    case None
    then have "named (map fst fs) (kv # kvs) = named (map fst fs) kvs" by (simp add: named_def fun_eq_iff)
    moreover have "\<not> strict d" using Cons.prems(2) None by (simp add: names_fields_def)
    ultimately show ?thesis using None Cons.IH [OF Cons.prems(1) rest] by simp
  next
    case (Some n)
    have n: "n \<in> set (map fst fs)" using find_field_in [OF Some] .
    have "full d (the (map_of fs n)) (snd kv) (the (map_of vs n))"
      using Cons.prems(2) Some by (simp add: names_fields_def)
    then have one: "assign d (the (map_of fs n)) (snd kv) (the (map_of vals n)) None = (the (map_of vs n), None)"
      using typed_fields_map_of [OF Cons.prems(1) n] by (simp add: full_def)
    have "typed_fields fs (set_field n (the (map_of vs n)) vals)"
      using typed_set_field [OF Cons.prems(1) assms(1)] typed_fields_map_of [OF assms(2) n] by blast
    then have "assign_fields d fs kvs (set_field n (the (map_of vs n)) vals) None =
       (map (\<lambda>(m, u). (m, if named (map fst fs) kvs m then the (map_of vs m) else u)) (set_field n (the (map_of vs n)) vals), None)"
      using rest by (rule Cons.IH)
    moreover have "named (map fst fs) (kv # kvs) m \<longleftrightarrow> m = n \<or> named (map fst fs) kvs m" for m
      using Some by (auto simp: named_def)
    ultimately show ?thesis using Some one by (auto simp: set_field_def)
  qed
qed

lemma full_struct:
  assumes "distinct (map fst fs)" "typed_fields fs vs" "names_fields d fs kvs vs"
    and "\<forall>n\<in>set (map fst fs). named (map fst fs) kvs n"
  shows "full d (TStruct fs) (JObj kvs) (VStruct vs)"
  unfolding full_def
proof (intro allI impI)
  fix old assume "typed (TStruct fs) old"
  then obtain vals where old: "old = VStruct vals" "typed_fields fs vals" unfolding typed_struct by blast
  have "map (\<lambda>(n, u). (n, if named (map fst fs) kvs n then the (map_of vs n) else u)) vals = vs"
  proof (rule nth_equalityI)
    have names: "map fst vals = map fst fs" "map fst vs = map fst fs"
      using old(2) assms(2) typed_fields_names by auto
    then show len: "length (map (\<lambda>(n, u). (n, if named (map fst fs) kvs n then the (map_of vs n) else u)) vals) = length vs"
      by (metis length_map)
    fix i assume "i < length (map (\<lambda>(n, u). (n, if named (map fst fs) kvs n then the (map_of vs n) else u)) vals)"
    then have i: "i < length vals" "i < length vs" using len by simp_all
    have "map fst vals ! i = map fst vs ! i" using names by simp
    then have "fst (vals ! i) = fst (vs ! i)" using i by simp
    moreover have "fst (vs ! i) \<in> set (map fst fs)" using i(2) unfolding names(2) [symmetric] by simp
    moreover have "map_of vs (fst (vs ! i)) = Some (snd (vs ! i))"
      using names(2) assms(1) i(2) by (intro map_of_is_SomeI) simp_all
    ultimately have "fst (vals ! i) = fst (vs ! i)" "named (map fst fs) kvs (fst (vals ! i))"
      "the (map_of vs (fst (vals ! i))) = snd (vs ! i)"
      using assms(4) by (auto simp del: set_map)
    then show "map (\<lambda>(n, u). (n, if named (map fst fs) kvs n then the (map_of vs n) else u)) vals ! i = vs ! i"
      unfolding nth_map [OF i(1)] case_prod_unfold by (intro prod_eqI) simp_all
  qed
  then show "assign d (TStruct fs) (JObj kvs) old None = (VStruct vs, None)"
    using full_fields [OF assms(1,2) old(2) assms(3)] old(1) by (simp add: fields_of_def)
qed

section \<open>Reading what was written\<close>

lemma Unmarshal_written:
  assumes "writable 0 j" "skip_space rest = []" "ends_value j rest" "assign d t (cleaned j) (zero_of t) None = (v, None)"
  shows "Unmarshal d wording t (encode j @ rest) = Inr v"
  using written_is_read_back [OF assms(1,3)] assms(2,4) by (simp add: Unmarshal_def)

lemma Decode_written:
  assumes "writable 0 (JObj kvs)"
  shows "Decode d wording t (encode (JObj kvs) @ rest, e) =
     (case assign d t (cleaned (JObj kvs)) (zero_of t) None of
        (v, None) \<Rightarrow> Inr v
      | (_, Some f) \<Rightarrow> Inl (wording (encode (JObj kvs) @ rest, e) f))"
  using written_is_read_back [OF assms, of rest]
  by (simp add: Decode_def ends_value_def del: encode.simps)

lemma to_valid_ascii: "\<forall>c\<in>set s. byte c < 0x80 \<Longrightarrow> to_valid s = s"
proof (rule to_valid_id)
  show "\<forall>c\<in>set s. byte c < 0x80 \<Longrightarrow> valid_utf8 s"
    by (induction s) (simp_all add: valid_utf8_ascii_Cons)
qed

end
