(* ===== verification/Clients.thy ===== *)
theory Clients
  imports Providers Prompt Unmarshal "HOL-Library.Multiset"
begin

text \<open>
  The clients of the hosted and local models: \<open>embed/openai.go\<close>, \<open>embed/ollama.go\<close>,
  \<open>embed/google.go\<close> and their counterparts in \<open>llm\<close> with \<open>llm/openrouter.go\<close>. The network is
  the parameter \<open>net\<close>: what a POST of a JSON value answers, with a status, headers and a body
  that may break off. An answer is decoded by \<open>Unmarshal\<close>; the order \<open>sort.Slice\<close> leaves equal
  elements in and the \<open>genai\<close> client are parameters too.
\<close>

section \<open>Requests and responses\<close>

record response =
  rStatus :: int
  rLine :: gostring
  rHeader :: "gostring \<Rightarrow> gostring"
  rBody :: "gostring \<times> goerr option"

record 'w net =
  badURL :: "gostring \<Rightarrow> goerr option"
  post :: "gostring \<Rightarrow> json \<Rightarrow> (gostring \<times> gostring) list \<Rightarrow> 'w \<Rightarrow> response result \<times> 'w"
  retryDate :: "gostring \<Rightarrow> Duration option"

text \<open>\<open>io.ReadAll(io.LimitReader(body, n))\<close>, and the stream a decoder reads under the same limit.\<close>

definition limit_stream :: "nat \<Rightarrow> gostring \<times> goerr option \<Rightarrow> gostring \<times> goerr option" where
  "limit_stream n b = (take n (fst b), if n \<le> length (fst b) then None else snd b)"

definition read_all :: "nat \<Rightarrow> gostring \<times> goerr option \<Rightarrow> gostring result" where
  "read_all n b = (case limit_stream n b of (bytes, None) \<Rightarrow> Inr bytes | (_, Some e) \<Rightarrow> Inl e)"

definition mark_transport :: "goerr \<Rightarrow> goerr" where
  "mark_transport e = (case MarkTransport (Some e) of Some e \<Rightarrow> e | None \<Rightarrow> e)"

definition ellipsis :: gostring where
  "ellipsis = of_runes [0x2026]"

definition truncate_text :: "gostring \<Rightarrow> nat \<Rightarrow> gostring" where
  "truncate_text s n = (if length s \<le> n then s else take n s @ ellipsis)"

text \<open>The error of a status other than 200: marked as retryable with the server's hint, or not.\<close>

definition status_error :: "'w net \<Rightarrow> response \<Rightarrow> goerr \<Rightarrow> goerr" where
  "status_error net resp err =
     (if IsTransientStatus (rStatus resp)
      then Retryable err (ParseRetryAfter (retryDate net) (rHeader resp ''Retry-After''))
      else err)"

text \<open>A round trip as the OpenAI clients make it, up to the raw body of a good answer.\<close>

definition openai_post ::
  "'w net \<Rightarrow> gostring \<Rightarrow> nat \<Rightarrow> gostring \<Rightarrow> json \<Rightarrow> (gostring \<times> gostring) list \<Rightarrow> 'w \<Rightarrow> gostring result \<times> 'w" where
  "openai_post net label limit url req headers w =
     (case badURL net url of
        Some e \<Rightarrow> (Inl (wrap (label @ '': build request'') e), w)
      | None \<Rightarrow>
          (case post net url req headers w of
             (Inl e, w) \<Rightarrow> (Inl (mark_transport (wrap label e)), w)
           | (Inr resp, w) \<Rightarrow>
               (case read_all limit (rBody resp) of
                  Inl e \<Rightarrow> (Inl (mark_transport (wrap (label @ '': read body'') e)), w)
                | Inr raw \<Rightarrow>
                    if rStatus resp \<noteq> 200 then
                      (Inl (status_error net resp
                         (Plain (label @ '': '' @ rLine resp @ '': '' @ trim_space (truncate_text raw 400)))), w)
                    else (Inr raw, w))))"

text \<open>The round trip of the Ollama clients, up to the stream of a good answer.\<close>

definition ollama_hint :: "gostring \<Rightarrow> gostring" where
  "ollama_hint model = '' (is the model pulled? try: docker compose exec ollama ollama pull '' @ model @ '')''"

definition ollama_post ::
  "'w net \<Rightarrow> gostring \<Rightarrow> gostring \<Rightarrow> nat \<Rightarrow> gostring \<Rightarrow> json \<Rightarrow> 'w \<Rightarrow> (gostring \<times> goerr option) result \<times> 'w" where
  "ollama_post net label model limit url req w =
     (case badURL net url of
        Some e \<Rightarrow> (Inl (wrap (label @ '': build request'') e), w)
      | None \<Rightarrow>
          (case post net url req [(''Content-Type'', ''application/json'')] w of
             (Inl e, w) \<Rightarrow> (Inl (mark_transport (wrap label e)), w)
           | (Inr resp, w) \<Rightarrow>
               if rStatus resp \<noteq> 200 then
                 (let snippet = take 4096 (fst (rBody resp));
                      err = Plain (label @ '': http '' @ show_int (rStatus resp) @ '': '' @ trim_space snippet)
                  in if IsTransientStatus (rStatus resp) then (Inl (status_error net resp err), w)
                     else if rStatus resp = 404 then (Inl (Wrapf [] err (ollama_hint model)), w)
                     else (Inl err, w))
               else (Inr (limit_stream limit (rBody resp)), w)))"

definition bearer_headers :: "gostring \<Rightarrow> (gostring \<times> gostring) list" where
  "bearer_headers apiKey =
     (''Content-Type'', ''application/json'') #
     (if apiKey \<noteq> [] then [(''Authorization'', ''Bearer '' @ apiKey)] else [])"

section \<open>Decoded answers\<close>

record embed_answer =
  eData :: "(int \<times> Vector) list"
  eError :: "gostring option"

record chat_answer =
  cChoices :: "(gostring \<times> gostring) list"
  cError :: "gostring option"

text \<open>What decoding an answer leaves to the library: see \<open>Unmarshal\<close> for the first two.\<close>

record codec =
  floatText :: "gostring \<Rightarrow> float32 option"
  faultText :: "gostring \<times> goerr option \<Rightarrow> fault \<Rightarrow> goerr"
  sortByIndex :: "(int \<times> Vector) list \<Rightarrow> (int \<times> Vector) list"
  quotable :: "rune \<Rightarrow> bool"

definition lenient :: "codec \<Rightarrow> decoder" where
  "lenient js = \<lparr>strict = False, parseFloat32 = floatText js\<rparr>"

text \<open>The structs of the four answers, and what the clients read from them.\<close>

definition openAIError :: gotype where
  "openAIError = TPtr (TStruct [(''message'', TString), (''type'', TString)])"

definition error_message :: "goval \<Rightarrow> gostring option" where
  "error_message v = (case field_of ''error'' v of VPtr e \<Rightarrow> Some (text_value (field_of ''message'' e)) | _ \<Rightarrow> None)"

definition openAIEmbedItem :: gotype where
  "openAIEmbedItem = TStruct [(''index'', TInt), (''embedding'', TSlice TFloat32)]"

definition openAIEmbedResponse :: gotype where
  "openAIEmbedResponse = TStruct [(''data'', TSlice openAIEmbedItem), (''error'', openAIError)]"

definition decEmbed :: "codec \<Rightarrow> gostring \<Rightarrow> embed_answer result" where
  "decEmbed js raw =
     map_sum id (\<lambda>v. \<lparr>eData = map (\<lambda>x. (int_value (field_of ''index'' x), vector_value (field_of ''embedding'' x)))
                               (elems_of (field_of ''data'' v)),
                     eError = error_message v\<rparr>)
       (Unmarshal (lenient js) (faultText js) openAIEmbedResponse raw)"

definition ollamaEmbedResponse :: gotype where
  "ollamaEmbedResponse = TStruct [(''embeddings'', TSlice (TSlice TFloat32))]"

definition decEmbeddings :: "codec \<Rightarrow> gostring \<times> goerr option \<Rightarrow> Vector list result" where
  "decEmbeddings js stream =
     map_sum id (\<lambda>v. map vector_value (elems_of (field_of ''embeddings'' v)))
       (Decode (lenient js) (faultText js) ollamaEmbedResponse stream)"

definition chatMessage :: gotype where
  "chatMessage = TStruct [(''role'', TString), (''content'', TString)]"

definition openAIChatResponse :: gotype where
  "openAIChatResponse =
     TStruct [(''choices'', TSlice (TStruct [(''message'', chatMessage), (''finish_reason'', TString)])),
              (''error'', openAIError)]"

definition decChat :: "codec \<Rightarrow> gostring \<Rightarrow> chat_answer result" where
  "decChat js raw =
     map_sum id (\<lambda>v. \<lparr>cChoices = map (\<lambda>c. (text_value (field_of ''content'' (field_of ''message'' c)),
                                              text_value (field_of ''finish_reason'' c)))
                                  (elems_of (field_of ''choices'' v)),
                     cError = error_message v\<rparr>)
       (Unmarshal (lenient js) (faultText js) openAIChatResponse raw)"

definition ollamaChatResponse :: gotype where
  "ollamaChatResponse = TStruct [(''message'', chatMessage)]"

definition decMessage :: "codec \<Rightarrow> gostring \<times> goerr option \<Rightarrow> gostring result" where
  "decMessage js stream =
     map_sum id (\<lambda>v. text_value (field_of ''content'' (field_of ''message'' v)))
       (Decode (lenient js) (faultText js) ollamaChatResponse stream)"

section \<open>Embedding clients\<close>

text \<open>The strings a model family wants before a stored passage and before a query.\<close>

definition openAIPrefixes :: "gostring \<Rightarrow> gostring \<times> gostring" where
  "openAIPrefixes model =
     (if model \<in> {''multilingual-e5-large'', ''multilingual-e5-base'', ''multilingual-e5-small''}
      then (''passage: '', ''query: '')
      else if model = ''nomic-embed-text-v1.5'' then (''search_document: '', ''search_query: '')
      else ([], []))"

definition ollamaPrefixes :: "gostring \<Rightarrow> gostring \<times> gostring" where
  "ollamaPrefixes model =
     (if model = ''nomic-embed-text'' then (''search_document: '', ''search_query: '')
      else if model = ''mxbai-embed-large''
      then ([], ''Represent this sentence for searching relevant passages: '')
      else ([], []))"

definition task_prefix :: "gostring \<times> gostring \<Rightarrow> Kind \<Rightarrow> gostring" where
  "task_prefix prefix kind = (case kind of KindQuery \<Rightarrow> snd prefix | _ \<Rightarrow> fst prefix)"

definition openAIEmbedRequest :: "gostring \<Rightarrow> gostring list \<Rightarrow> json" where
  "openAIEmbedRequest model input = JObj [(''model'', JStr model), (''input'', JArr (map JStr input))]"

definition ollamaEmbedRequest :: "gostring \<Rightarrow> gostring list \<Rightarrow> json" where
  "ollamaEmbedRequest model input = JObj [(''model'', JStr model), (''input'', JArr (map JStr input))]"

text \<open>The vectors of the sorted data, or the first with another dimension.\<close>

fun take_vectors :: "(rune \<Rightarrow> bool) \<Rightarrow> gostring \<Rightarrow> int \<Rightarrow> (int \<times> Vector) list \<Rightarrow> Vector list result" where
  "take_vectors pr model dim [] = Inr []"
| "take_vectors pr model dim ((i, v) # rest) =
     (if int (length v) \<noteq> dim then
        Inl (Plain (''openai embeddings: model '' @ go_quote pr model @ '' returned dimension '' @
          show_nat (length v) @ '', configured '' @ show_int dim @ em_dash @ ''set EMBED_DIM='' @ show_nat (length v)))
      else (case take_vectors pr model dim rest of Inl e \<Rightarrow> Inl e | Inr vs \<Rightarrow> Inr (v # vs)))"

definition openai_Embed ::
  "'w net \<Rightarrow> codec \<Rightarrow> gostring \<Rightarrow> gostring \<Rightarrow> gostring \<Rightarrow> int \<Rightarrow> gostring list \<Rightarrow> Kind \<Rightarrow> 'w \<Rightarrow>
   Vector list result \<times> 'w" where
  "openai_Embed net js baseURL apiKey model dim texts kind w =
     (if texts = [] then (Inr [], w)
      else if length texts > 64 then
        (Inl (Plain (''openai embeddings: batch of '' @ show_nat (length texts) @ '' exceeds 64'')), w)
      else
        (let prefixed = map (\<lambda>t. task_prefix (openAIPrefixes model) kind @ t) texts in
         case openai_post net ''openai embeddings'' 67108864 (baseURL @ ''/embeddings'')
                (openAIEmbedRequest model prefixed) (bearer_headers apiKey) w of
           (Inl e, w) \<Rightarrow> (Inl e, w)
         | (Inr raw, w) \<Rightarrow>
             (case decEmbed js raw of
                Inl e \<Rightarrow> (Inl (wrap ''openai embeddings: decode response'' e), w)
              | Inr parsed \<Rightarrow>
                  (case eError parsed of
                     Some message \<Rightarrow> (Inl (Plain (''openai embeddings: '' @ message)), w)
                   | None \<Rightarrow>
                       if length (eData parsed) \<noteq> length texts then
                         (Inl (Plain (''openai embeddings: got '' @ show_nat (length (eData parsed)) @
                            '' vectors for '' @ show_nat (length texts) @ '' inputs'')), w)
                       else (take_vectors (quotable js) model dim (sortByIndex js (eData parsed)), w)))))"

definition embed_NewOpenAI ::
  "'w net \<Rightarrow> codec \<Rightarrow> gostring \<Rightarrow> gostring \<Rightarrow> gostring \<Rightarrow> int \<Rightarrow> 'w embedder result" where
  "embed_NewOpenAI net js baseURL apiKey model dim =
     (if trim_space baseURL = [] then Inl (Plain ''openai embeddings: base URL is empty (set EMBED_BASE_URL)'')
      else if trim_space model = [] then Inl (Plain ''openai embeddings: model is empty (set EMBED_MODEL)'')
      else if dim \<le> 0 then Inl (Plain (''openai embeddings: dimension '' @ show_int dim @ '' must be positive''))
      else Inr \<lparr>Embed = openai_Embed net js (trim_right_cutset ''/'' baseURL) apiKey model dim,
                embedSpace = \<lparr>spaceProvider = ''openai'', spaceModel = model, Dim = dim\<rparr>, MaxBatch = 64\<rparr>)"

definition baseModelName :: "gostring \<Rightarrow> gostring" where
  "baseModelName model = fst (cut_at CHR '':'' model)"

definition ollama_Embed ::
  "'w net \<Rightarrow> codec \<Rightarrow> gostring \<Rightarrow> Space \<Rightarrow> gostring list \<Rightarrow> Kind \<Rightarrow> 'w \<Rightarrow> Vector list result \<times> 'w" where
  "ollama_Embed net js baseURL space texts kind w =
     (if texts = [] then (Inr [], w)
      else if length texts > 32 then
        (Inl (Plain (''ollama embeddings: '' @ show_nat (length texts) @ '' texts exceeds the batch limit of 32'')), w)
      else
        (let prefix = task_prefix (ollamaPrefixes (baseModelName (spaceModel space))) kind;
             input = map (\<lambda>t. prefix @ t) texts in
         case ollama_post net ''ollama embeddings'' (spaceModel space) 67108864 (baseURL @ ''/api/embed'')
                (ollamaEmbedRequest (spaceModel space) input) w of
           (Inl e, w) \<Rightarrow> (Inl e, w)
         | (Inr stream, w) \<Rightarrow>
             (case decEmbeddings js stream of
                Inl e \<Rightarrow> (Inl (wrap ''ollama embeddings: decode response'' e), w)
              | Inr out \<Rightarrow>
                  if out = [] then (Inl (Plain ''ollama embeddings: response contained no embeddings''), w)
                  else (case checkResult space texts out of
                          Some e \<Rightarrow> (Inl (wrap ''ollama embeddings'' e), w)
                        | None \<Rightarrow> (Inr out, w)))))"

definition DefaultOllamaURL :: gostring where
  "DefaultOllamaURL = ''http://127.0.0.1:11434''"

definition embed_NewOllama :: "'w net \<Rightarrow> codec \<Rightarrow> gostring \<Rightarrow> gostring \<Rightarrow> int \<Rightarrow> 'w embedder result" where
  "embed_NewOllama net js baseURL model dim =
     (let space = \<lparr>spaceProvider = ''ollama'', spaceModel = model, Dim = dim\<rparr> in
      case Validate space of
        Some e \<Rightarrow> Inl e
      | None \<Rightarrow>
          (let baseURL = (if baseURL = [] then DefaultOllamaURL else baseURL)
           in Inr \<lparr>Embed = ollama_Embed net js (trim_right_cutset ''/'' baseURL) space,
                   embedSpace = space, MaxBatch = 32\<rparr>))"

section \<open>Google\<close>

text \<open>The \<open>genai\<close> client: its construction, and the two calls the program makes.\<close>

record 'w genai =
  newClient :: "gostring \<Rightarrow> goerr option"
  embedContent :: "gostring \<Rightarrow> gostring list \<Rightarrow> gostring \<Rightarrow> int option \<Rightarrow> 'w \<Rightarrow> Vector list result \<times> 'w"
  generateContent :: "gostring \<Rightarrow> gostring option \<Rightarrow> gostring \<Rightarrow> 'w \<Rightarrow> gostring result \<times> 'w"
  parseDelay :: "gostring \<Rightarrow> Duration option"

definition classifyGoogleErr :: "(gostring \<Rightarrow> Duration option) \<Rightarrow> gostring \<Rightarrow> goerr \<Rightarrow> goerr" where
  "classifyGoogleErr parseDuration label err =
     (case as_api_error err of
        Some (code, details) \<Rightarrow>
          (let wrapped = wrap (label @ '': api error '' @ show_int code) err;
               (after, daily) = GoogleHint parseDuration details
           in if IsTransientStatus code \<and> \<not> daily then Retryable wrapped after else wrapped)
      | None \<Rightarrow> mark_transport (wrap label err))"

definition nativeDims :: "gostring \<Rightarrow> int" where
  "nativeDims model =
     (if model = ''gemini-embedding-001'' then 3072 else if model = ''text-embedding-004'' then 768 else 0)"

definition googleTaskType :: "Kind \<Rightarrow> gostring" where
  "googleTaskType k = (case k of KindQuery \<Rightarrow> ''RETRIEVAL_QUERY'' | _ \<Rightarrow> ''RETRIEVAL_DOCUMENT'')"

definition google_Embed ::
  "floats \<Rightarrow> 'w genai \<Rightarrow> Space \<Rightarrow> gostring list \<Rightarrow> Kind \<Rightarrow> 'w \<Rightarrow> Vector list result \<times> 'w" where
  "google_Embed fp g space texts kind w =
     (if texts = [] then (Inr [], w)
      else if length texts > 100 then
        (Inl (Plain (''google embeddings: '' @ show_nat (length texts) @ '' texts exceeds the batch limit of 100'')), w)
      else
        (let dim = (if spaceModel space \<noteq> ''embedding-001'' then Some (Dim space) else None) in
         case embedContent g (spaceModel space) texts (googleTaskType kind) dim w of
           (Inl e, w) \<Rightarrow> (Inl (classifyGoogleErr (parseDelay g) ''google embeddings'' e), w)
         | (Inr values, w) \<Rightarrow>
             (let truncated = Dim space < nativeDims (spaceModel space);
                  out = map (\<lambda>v. if truncated then normalize fp v else v) values in
              case checkResult space texts out of
                Some e \<Rightarrow> (Inl (wrap ''google embeddings'' e), w)
              | None \<Rightarrow> (Inr out, w))))"

definition embed_NewGoogle :: "floats \<Rightarrow> 'w genai \<Rightarrow> gostring \<Rightarrow> gostring \<Rightarrow> int \<Rightarrow> 'w embedder result" where
  "embed_NewGoogle fp g apiKey model dim =
     (if apiKey = [] then Inl (Plain ''google embeddings: API key is empty (set GOOGLE_API_KEY)'')
      else
        (let space = \<lparr>spaceProvider = ''google'', spaceModel = model, Dim = dim\<rparr> in
         case Validate space of
           Some e \<Rightarrow> Inl e
         | None \<Rightarrow>
             (case newClient g apiKey of
                Some e \<Rightarrow> Inl (wrap ''google embeddings: init client'' e)
              | None \<Rightarrow> Inr \<lparr>Embed = google_Embed fp g space, embedSpace = space, MaxBatch = 100\<rparr>)))"

section \<open>Generation clients\<close>

definition message :: "gostring \<Rightarrow> gostring \<Rightarrow> json" where
  "message role content = JObj [(''role'', JStr role), (''content'', JStr content)]"

definition openAIChatRequest :: "gostring \<Rightarrow> json list \<Rightarrow> json" where
  "openAIChatRequest model messages =
     JObj [(''model'', JStr model), (''messages'', JArr messages), (''stream'', JBool False)]"

definition ollamaChatRequest :: "gostring \<Rightarrow> json list \<Rightarrow> json" where
  "ollamaChatRequest model messages =
     JObj [(''model'', JStr model), (''messages'', JArr messages), (''stream'', JBool False),
           (''options'', JObj [(''temperature'', JNum ''0.1'')])]"

definition openai_Generate ::
  "'w net \<Rightarrow> codec \<Rightarrow> gostring \<Rightarrow> gostring \<Rightarrow> gostring \<Rightarrow> (gostring \<times> gostring) list \<Rightarrow>
   gostring \<Rightarrow> gostring \<Rightarrow> 'w \<Rightarrow> gostring result \<times> 'w" where
  "openai_Generate net js baseURL apiKey model extra system user w =
     (let messages = (if trim_space system \<noteq> [] then [message ''system'' system] else []) @ [message ''user'' user];
          req = openAIChatRequest model messages in
      case openai_post net ''openai generation'' 33554432 (baseURL @ ''/chat/completions'') req
             (bearer_headers apiKey @ extra) w of
        (Inl e, w) \<Rightarrow> (Inl e, w)
      | (Inr raw, w) \<Rightarrow>
          (case decChat js raw of
             Inl e \<Rightarrow> (Inl (wrap ''openai generation: decode response'' e), w)
           | Inr parsed \<Rightarrow>
               (case cError parsed of
                  Some msg \<Rightarrow> (Inl (Plain (''openai generation: '' @ msg)), w)
                | None \<Rightarrow>
                    (case cChoices parsed of
                       [] \<Rightarrow> (Inl (Plain ''openai generation: response contained no choices''), w)
                     | (content, finish) # _ \<Rightarrow>
                         if trim_space content = [] then
                           (Inl (Plain (''openai generation: empty answer (finish_reason='' @
                              go_quote (quotable js) finish @ '')'')), w)
                         else (Inr (trim_space content), w)))))"

definition newOpenAIProvider ::
  "'w net \<Rightarrow> codec \<Rightarrow> gostring \<Rightarrow> gostring \<Rightarrow> gostring \<Rightarrow> (gostring \<times> gostring) list \<Rightarrow> 'w generator result" where
  "newOpenAIProvider net js baseURL apiKey model extra =
     (if trim_space baseURL = [] then Inl (Plain ''openai generation: base URL is empty (set LLM_BASE_URL)'')
      else if trim_space model = [] then Inl (Plain ''openai generation: model is empty (set LLM_MODEL)'')
      else Inr \<lparr>Generate = openai_Generate net js (trim_right_cutset ''/'' baseURL) apiKey model extra, Model = model\<rparr>)"

definition llm_NewOpenAI :: "'w net \<Rightarrow> codec \<Rightarrow> gostring \<Rightarrow> gostring \<Rightarrow> gostring \<Rightarrow> 'w generator result" where
  "llm_NewOpenAI net js baseURL apiKey model = newOpenAIProvider net js baseURL apiKey model []"

definition OpenRouterBaseURL :: gostring where
  "OpenRouterBaseURL = ''https://openrouter.ai/api/v1''"

definition NewOpenRouter ::
  "'w net \<Rightarrow> codec \<Rightarrow> gostring \<Rightarrow> gostring \<Rightarrow> gostring \<Rightarrow> gostring \<Rightarrow> 'w generator result" where
  "NewOpenRouter net js apiKey model referer title =
     (if trim_space apiKey = [] then
        Inl (Plain (''openrouter generation: no API key (set OPENROUTER_API_KEY; '' @
          ''a key is issued at https://openrouter.ai/keys)''))
      else if trim_space model = [] then
        Inl (Plain (''openrouter generation: no model (set LLM_MODEL, '' @
          ''for example LLM_MODEL='' @ [CHR 0x22] @ ''z-ai/glm-4.6:free'' @ [CHR 0x22] @ ''; '' @
          ''the free ones are listed at https://openrouter.ai/models?max_price=0)''))
      else newOpenAIProvider net js OpenRouterBaseURL apiKey model
             ((if trim_space referer \<noteq> [] then [(''HTTP-Referer'', referer)] else []) @
              (if trim_space title \<noteq> [] then [(''X-Title'', title)] else [])))"

definition ollama_Generate ::
  "'w net \<Rightarrow> codec \<Rightarrow> gostring \<Rightarrow> gostring \<Rightarrow> gostring \<Rightarrow> gostring \<Rightarrow> 'w \<Rightarrow> gostring result \<times> 'w" where
  "ollama_Generate net js baseURL model system user w =
     (let messages = (if system \<noteq> [] then [message ''system'' system] else []) @ [message ''user'' user];
          req = ollamaChatRequest model messages in
      case ollama_post net ''ollama generation'' model 33554432 (baseURL @ ''/api/chat'') req w of
        (Inl e, w) \<Rightarrow> (Inl e, w)
      | (Inr stream, w) \<Rightarrow>
          (case decMessage js stream of
             Inl e \<Rightarrow> (Inl (wrap ''ollama generation: decode response'' e), w)
           | Inr content \<Rightarrow>
               if trim_space content = [] then
                 (Inl (Plain (''ollama generation: model '' @ model @ '' returned an empty answer'')), w)
               else (Inr (trim_space content), w)))"

definition llm_NewOllama :: "'w net \<Rightarrow> codec \<Rightarrow> gostring \<Rightarrow> gostring \<Rightarrow> 'w generator result" where
  "llm_NewOllama net js baseURL model =
     (if trim_space model = [] then Inl (Plain ''ollama generation: model is empty'')
      else
        (let baseURL = (if baseURL = [] then DefaultOllamaURL else baseURL)
         in Inr \<lparr>Generate = ollama_Generate net js (trim_right_cutset ''/'' baseURL) model, Model = model\<rparr>))"

definition llm_classifyGoogleErr :: "(gostring \<Rightarrow> Duration option) \<Rightarrow> goerr \<Rightarrow> goerr" where
  "llm_classifyGoogleErr parseDuration err =
     (case as_api_error err of
        Some (code, details) \<Rightarrow>
          (let wrapped = wrap (''google generation: api error '' @ show_int code) err;
               (after, daily) = GoogleHint parseDuration details
           in if IsTransientStatus code \<and> \<not> daily then Retryable wrapped after else wrapped)
      | None \<Rightarrow> mark_transport (wrap ''google generation'' err))"

text \<open>Both packages classify an error alike, but for its label.\<close>

lemma llm_classifyGoogleErr_eq: "llm_classifyGoogleErr p = classifyGoogleErr p ''google generation''"
  by (intro ext) (simp add: llm_classifyGoogleErr_def classifyGoogleErr_def Let_def split: option.split prod.split)

definition google_Generate :: "'w genai \<Rightarrow> gostring \<Rightarrow> gostring \<Rightarrow> gostring \<Rightarrow> 'w \<Rightarrow> gostring result \<times> 'w" where
  "google_Generate g model system user w =
     (case generateContent g model (if system \<noteq> [] then Some system else None) user w of
        (Inl e, w) \<Rightarrow> (Inl (llm_classifyGoogleErr (parseDelay g) e), w)
      | (Inr t, w) \<Rightarrow>
          if trim_space t = [] then
            (Inl (Plain (''google generation: model '' @ model @ '' returned an empty answer'')), w)
          else (Inr (trim_space t), w))"

definition llm_NewGoogle :: "'w genai \<Rightarrow> gostring \<Rightarrow> gostring \<Rightarrow> 'w generator result" where
  "llm_NewGoogle g apiKey model =
     (if apiKey = [] then Inl (Plain ''google generation: API key is empty (set GOOGLE_API_KEY)'')
      else if trim_space model = [] then Inl (Plain ''google generation: model is empty'')
      else (case newClient g apiKey of
              Some e \<Rightarrow> Inl (wrap ''google generation: init client'' e)
            | None \<Rightarrow> Inr \<lparr>Generate = google_Generate g model, Model = model\<rparr>))"

section \<open>The contract of the embedding clients\<close>

text \<open>\<open>sort.Slice\<close> promises a permutation in ascending order, nothing about equal indexes.\<close>

definition sorts_items :: "((int \<times> Vector) list \<Rightarrow> (int \<times> Vector) list) \<Rightarrow> bool" where
  "sorts_items f \<longleftrightarrow> (\<forall>xs. mset (f xs) = mset xs \<and> sorted (map fst (f xs)))"

definition of_dim :: "int \<Rightarrow> Kind \<Rightarrow> gostring \<Rightarrow> Vector \<Rightarrow> bool" where
  "of_dim dim kind text v \<longleftrightarrow> int (length v) = dim"

lemma list_all2_of_dim: "list_all2 (of_dim dim kind) texts vs \<longleftrightarrow>
    length vs = length texts \<and> (\<forall>v\<in>set vs. int (length v) = dim)"
  by (auto simp: list_all2_conv_all_nth of_dim_def all_set_conv_all_nth)

lemma take_vectors_Inr: "take_vectors pr model dim items = Inr vs \<longleftrightarrow>
    vs = map snd items \<and> (\<forall>v\<in>snd ` set items. int (length v) = dim)"
  by (induction pr model dim items arbitrary: vs rule: take_vectors.induct) (auto split: sum.splits)

text \<open>What a successful call of the OpenAI client comes from.\<close>

lemma openai_Embed_Inr:
  assumes "openai_Embed net js base key model dim texts kind w = (Inr vs, w')" "texts \<noteq> []"
  shows "\<exists>raw parsed. decEmbed js raw = Inr parsed \<and> eError parsed = None \<and>
    length (eData parsed) = length texts \<and> vs = map snd (sortByIndex js (eData parsed)) \<and>
    (\<forall>v\<in>set vs. int (length v) = dim)"
  using assms
  by (auto simp: openai_Embed_def Let_def take_vectors_Inr
      split: if_splits prod.splits sum.splits option.splits)

lemma sorts_items_length: "sorts_items f \<Longrightarrow> length (f xs) = length xs"
  unfolding sorts_items_def by (metis size_mset)

lemma embedding_openai:
  assumes "sorts_items (sortByIndex js)"
  shows "embedding (openai_Embed net js base key model dim) (of_dim dim)"
proof (rule embedding.intro)
  fix texts kind and w w' :: 'a and vs
  assume run: "openai_Embed net js base key model dim texts kind w = (Inr vs, w')"
  show "list_all2 (of_dim dim kind) texts vs"
  proof (cases "texts = []")
    case True
    then show ?thesis using run by (simp add: openai_Embed_def)
  next
    case False
    obtain parsed :: embed_answer where "length (eData parsed) = length texts"
      "vs = map snd (sortByIndex js (eData parsed))" "\<forall>v\<in>set vs. int (length v) = dim"
      using openai_Embed_Inr [OF run False] by blast
    then show ?thesis using sorts_items_length [OF assms] by (simp add: list_all2_of_dim)
  qed
qed

interpretation ollama: embedding "ollama_Embed net js base space" "of_dim (Dim space)" for net js base space
  by unfold_locales
    (auto simp: ollama_Embed_def Let_def list_all2_of_dim checkResult_None
      split: if_splits prod.splits sum.splits option.splits)

interpretation google: embedding "google_Embed fp g space" "of_dim (Dim space)" for fp g space
  by unfold_locales
    (auto simp: google_Embed_def Let_def list_all2_of_dim checkResult_None
      split: if_splits prod.splits sum.splits option.splits)

lemma embedding_fake: "embedding (fake_embed fp wr ul ctx (nat dim)) (of_dim dim)" if "0 \<le> dim"
proof (rule embedding.intro)
  fix texts kind and w w' :: 'a and vs
  assume "fake_embed fp wr ul ctx (nat dim) texts kind w = (Inr vs, w')"
  then have "vs = map (fake_vector fp wr ul (nat dim)) texts"
    by (simp add: fake_embed_def split: if_splits option.splits)
  then show "list_all2 (of_dim dim kind) texts vs" using that by (auto simp: list_all2_of_dim)
qed

text \<open>Sorting by index puts the item of every index in its place.\<close>

lemma sorted_by_index:
  assumes "sorts_items f" "mset (map fst xs) = mset (map int [0 ..< n])"
  shows "length (f xs) = n" "i < n \<Longrightarrow> (int i, map snd (f xs) ! i) \<in> set xs"
proof -
  have s: "mset (f xs) = mset xs" "sorted (map fst (f xs))" using assms(1) by (auto simp: sorts_items_def)
  have "mset (map fst (f xs)) = mset (map int [0 ..< n])" using s(1) assms(2) by (metis mset_map)
  moreover have "sorted (map int [0 ..< n])" by (simp add: sorted_map)
  ultimately have idx: "map fst (f xs) = map int [0 ..< n]" using s(2) by (metis properties_for_sort)
  show len: "length (f xs) = n" using arg_cong [OF idx, of length] by simp
  assume i: "i < n"
  have "fst (f xs ! i) = int i" using arg_cong [OF idx, of "\<lambda>xs. xs ! i"] i len by simp
  moreover have "f xs ! i \<in> set xs" using nth_mem [of i "f xs"] i len s(1) by (metis set_mset_mset)
  ultimately show "(int i, map snd (f xs) ! i) \<in> set xs" using i len by (metis nth_map prod.collapse)
qed

text \<open>
  Whatever order the server answers in, a text gets the vector with its index. If
  \<open>Embed\<close> of the OpenAI client succeeds, and the indexes of the decoded answer are those of
  the inputs in any order, then the vector returned for the \<open>i\<close>-th text is the one the answer
  labels \<open>i\<close>, for any implementation of \<open>sort.Slice\<close>; and in every case there is one vector
  of the configured dimension per text, and they are exactly the vectors of the answer.
\<close>

theorem openai_restores_order:
  assumes "sorts_items (sortByIndex js)"
    "openai_Embed net js base key model dim texts kind w = (Inr vs, w')" "texts \<noteq> []"
  shows "\<exists>raw parsed. decEmbed js raw = Inr parsed \<and> eError parsed = None \<and>
    mset vs = mset (map snd (eData parsed)) \<and> length vs = length texts \<and> (\<forall>v\<in>set vs. int (length v) = dim) \<and>
    (mset (map fst (eData parsed)) = mset (map int [0 ..< length texts]) \<longrightarrow>
       (\<forall>i < length texts. (int i, vs ! i) \<in> set (eData parsed)))"
proof -
  obtain raw parsed where p: "decEmbed js raw = Inr parsed" "eError parsed = None"
    "length (eData parsed) = length texts" "vs = map snd (sortByIndex js (eData parsed))"
    "\<forall>v\<in>set vs. int (length v) = dim" using openai_Embed_Inr [OF assms(2,3)] by blast
  have s: "mset (sortByIndex js (eData parsed)) = mset (eData parsed)"
    using assms(1) by (auto simp: sorts_items_def)
  have "(int i, vs ! i) \<in> set (eData parsed)"
    if "mset (map fst (eData parsed)) = mset (map int [0 ..< length texts])" "i < length texts" for i
    using sorted_by_index(2) [OF assms(1) that] p(4) by simp
  moreover have "mset vs = mset (map snd (eData parsed))" using s p(4) by (metis mset_map)
  moreover have "length vs = length texts" using p(3,4) s by (metis length_map size_mset)
  ultimately show ?thesis using p by blast
qed

text \<open>A server that answers two vectors in the wrong order, and the insertion sort.\<close>

definition embedding_item :: "nat \<times> gostring list \<Rightarrow> json" where
  "embedding_item x =
     JObj [(''object'', JStr ''embedding''), (''index'', JNum (show_nat (fst x))), (''embedding'', JArr (map JNum (snd x)))]"

definition embedding_list :: "gostring \<Rightarrow> gostring \<Rightarrow> (nat \<times> gostring list) list \<Rightarrow> (gostring \<times> json) list" where
  "embedding_list model tokens items =
     [(''object'', JStr ''list''), (''data'', JArr (map embedding_item items)), (''model'', JStr model),
      (''usage'', JObj [(''prompt_tokens'', JNum tokens), (''total_tokens'', JNum tokens)])]"

lemma item_full:
  assumes "\<forall>n\<in>set ns. floatText js n = Some (f n)" "i < 2 ^ 63"
  shows "full (lenient js) openAIEmbedItem (cleaned (embedding_item (i, ns)))
     (VStruct [(''index'', VInt (int i)), (''embedding'', VSlice (map (\<lambda>x. VFloat (f x)) ns))])"
proof -
  have num: "show_nat i = show_int (int i)" by (simp add: show_int_def)
  have index: "full (lenient js) TInt (JNum (show_nat i)) (VInt (int i))"
    unfolding num using assms(2) by (intro full_atoms) (simp add: int64_range_def)
  have vector: "full (lenient js) (TSlice TFloat32) (JArr (map JNum ns)) (VSlice (map (\<lambda>x. VFloat (f x)) ns))"
    using assms(1) by (intro full_slice) (auto simp: list_all2_map1 list_all2_map2 list_all2_same lenient_def intro: full_atoms)
  have names: "find_field [''index'', ''embedding''] ''object'' = None" "find_field [''index'', ''embedding''] ''index'' = Some ''index''"
    "find_field [''index'', ''embedding''] ''embedding'' = Some ''embedding''"
    by code_simp+
  have ascii: "to_valid ''object'' = ''object''" "to_valid ''index'' = ''index''" "to_valid ''embedding'' = ''embedding''"
    by (auto intro!: to_valid_ascii)
  have typed: "typed_fields [(''index'', TInt), (''embedding'', TSlice TFloat32)]
      [(''index'', VInt (int i)), (''embedding'', VSlice (map (\<lambda>x. VFloat (f x)) ns))]"
    using assms(2) by (simp add: typed_fields_def int64_range_def list_all_iff)
  show ?thesis
    unfolding openAIEmbedItem_def
    using index vector by (auto simp: embedding_item_def comp_def ascii names names_fields_def named_def lenient_def
        intro!: full_struct typed)
qed

definition item_value :: "codec \<Rightarrow> nat \<times> gostring list \<Rightarrow> int \<times> Vector" where
  "item_value js x = (int (fst x), map (\<lambda>n. the (floatText js n)) (snd x))"

definition readable_item :: "codec \<Rightarrow> nat \<times> gostring list \<Rightarrow> bool" where
  "readable_item js x \<longleftrightarrow> fst x < 2 ^ 63 \<and> (\<forall>n\<in>set (snd x). number_text n \<and> floatText js n \<noteq> None)"

lemma embedding_list_writable:
  "\<forall>x\<in>set items. readable_item js x \<Longrightarrow> number_text tokens \<Longrightarrow> writable 0 (JObj (embedding_list model tokens items))"
  by (auto simp: embedding_list_def embedding_item_def maxNestingDepth_def list_all_iff number_text_show_nat readable_item_def)

lemma embedding_list_read:
  assumes "\<forall>x\<in>set items. readable_item js x" "number_text tokens"
  shows "decEmbed js (encode (JObj (embedding_list model tokens items))) =
     Inr \<lparr>eData = map (item_value js) items, eError = None\<rparr>"
proof -
  let ?val = "\<lambda>x. VStruct [(''index'', VInt (int (fst x))), (''embedding'', VSlice (map (\<lambda>n. VFloat (the (floatText js n))) (snd x)))]"
  let ?fs = "[(''data'', TSlice openAIEmbedItem), (''error'', openAIError)]"
  let ?vs = "[(''data'', VSlice (map ?val items)), (''error'', VNil)]"
  let ?kvs = "map (\<lambda>kv. (to_valid (fst kv), cleaned (snd kv))) (embedding_list model tokens items)"
  have items: "full (lenient js) openAIEmbedItem (cleaned (embedding_item x)) (?val x)" if "x \<in> set items" for x
    using assms(1) that item_full [of "snd x" js "\<lambda>n. the (floatText js n)" "fst x"] by (auto simp: readable_item_def)
  then have data: "full (lenient js) (TSlice openAIEmbedItem) (JArr (map cleaned (map embedding_item items))) (VSlice (map ?val items))"
    by (intro full_slice) (auto simp: list_all2_map1 list_all2_map2 list_all2_same)
  have names: "find_field [''data'', ''error''] ''object'' = None" "find_field [''data'', ''error''] ''data'' = Some ''data''"
    "find_field [''data'', ''error''] ''model'' = None" "find_field [''data'', ''error''] ''usage'' = None"
    by code_simp+
  have ascii: "to_valid ''object'' = ''object''" "to_valid ''data'' = ''data''" "to_valid ''model'' = ''model''" "to_valid ''usage'' = ''usage''"
    by (auto intro!: to_valid_ascii)
  have typed_item: "typed openAIEmbedItem (?val x)" if "x \<in> set items" for x
    using assms(1) that by (auto simp: openAIEmbedItem_def list_all_iff readable_item_def int64_range_def)
  have fields: "assign_fields (lenient js) ?fs ?kvs [(''data'', VNil), (''error'', VNil)] None =
     (map (\<lambda>(n, u). (n, if named (map fst ?fs) ?kvs n then the (map_of ?vs n) else u)) [(''data'', VNil), (''error'', VNil)], None)"
  proof (rule full_fields)
    show "typed_fields ?fs ?vs" using typed_item by (auto simp: typed_fields_def openAIError_def list_all_iff)
    show "names_fields (lenient js) ?fs ?kvs ?vs"
      using data by (simp add: names_fields_def embedding_list_def ascii names lenient_def)
  qed (simp_all add: typed_fields_def openAIError_def)
  have "named [''data'', ''error''] ?kvs ''data''" "\<not> named [''data'', ''error''] ?kvs ''error''"
    by (simp_all add: named_def embedding_list_def ascii names)
  then have "assign (lenient js) openAIEmbedResponse (cleaned (JObj (embedding_list model tokens items)))
      (zero_of openAIEmbedResponse) None = (VStruct ?vs, None)"
    using fields by (simp add: openAIEmbedResponse_def openAIError_def fields_of_def)
  then have "Unmarshal (lenient js) (faultText js) openAIEmbedResponse (encode (JObj (embedding_list model tokens items))) = Inr (VStruct ?vs)"
    using Unmarshal_written [OF embedding_list_writable [OF assms], of "[]"]
    by (simp add: ends_value_def skip_space_def del: encode.simps cleaned.simps)
  then show ?thesis
    by (simp add: decEmbed_def error_message_def field_of_def fields_of_def elems_of_def vector_value_def text_value_def
        int_value_def item_value_def comp_def del: encode.simps)
qed

text \<open>
  C35. Whatever order an OpenAI-compatible server lists its vectors in, each text gets the one with
  its index: if the answer is the documented list with one item per text, in any order, whose
  numbers are numbers and whose vectors have the configured dimension, \<open>Embed\<close> succeeds and
  the vector of the \<open>i\<close>-th text is the one labelled \<open>i\<close>, for any implementation of \<open>sort.Slice\<close>.
\<close>

theorem openai_reads_any_order:
  assumes "sorts_items (sortByIndex js)" "texts \<noteq> []" "length texts \<le> 64"
    and "mset (map fst items) = mset [0 ..< length texts]"
    and "\<forall>x\<in>set items. (\<forall>n\<in>set (snd x). number_text n \<and> floatText js n \<noteq> None) \<and> int (length (snd x)) = dim"
    and "number_text tokens" "length (encode (JObj (embedding_list m tokens items))) < 67108864"
    and "badURL net (base @ ''/embeddings'') = None"
    and "post net (base @ ''/embeddings'')
           (openAIEmbedRequest model (map (\<lambda>t. task_prefix (openAIPrefixes model) kind @ t) texts)) (bearer_headers key) w =
         (Inr resp, w')"
    and "rStatus resp = 200" "rBody resp = (encode (JObj (embedding_list m tokens items)), None)"
  shows "openai_Embed net js base key model dim texts kind w =
     (Inr (map (\<lambda>i. map (\<lambda>n. the (floatText js n)) (the (map_of items i))) [0 ..< length texts]), w')"
proof -
  define raw where "raw = encode (JObj (embedding_list m tokens items))"
  let ?data = "map (item_value js) items" and ?items = "sortByIndex js (map (item_value js) items)"
  let ?req = "openAIEmbedRequest model (map (\<lambda>t. task_prefix (openAIPrefixes model) kind @ t) texts)"
  have len: "length items = length texts" using arg_cong [OF assms(4), of size] by simp
  have keys: "set (map fst items) = set [0 ..< length texts]" using assms(4) by (metis set_mset_mset)
  have dist: "distinct (map fst items)" using mset_eq_imp_distinct_iff [OF assms(4)] by simp
  have "\<forall>x\<in>set items. readable_item js x"
  proof
    fix x assume x: "x \<in> set items"
    then have "fst x < length texts" using keys by force
    then show "readable_item js x" using assms(3,5) x by (simp add: readable_item_def)
  qed
  then have dec: "decEmbed js raw = Inr \<lparr>eData = ?data, eError = None\<rparr>"
    unfolding raw_def using assms(6) by (rule embedding_list_read)
  have "length raw < 67108864" unfolding raw_def by (rule assms(7))
  then have "read_all 67108864 (raw, None) = Inr raw" by (simp add: read_all_def limit_stream_def)
  moreover have "post net (base @ ''/embeddings'') ?req (bearer_headers key) w = (Inr resp, w')" "rBody resp = (raw, None)"
    unfolding raw_def by (fact assms)+
  ultimately have post: "openai_post net ''openai embeddings'' 67108864 (base @ ''/embeddings'') ?req (bearer_headers key) w = (Inr raw, w')"
    using assms(8,10) by (simp add: openai_post_def)
  have s: "mset ?items = mset ?data" using assms(1) by (auto simp: sorts_items_def)
  have "\<forall>x\<in>set ?data. int (length (snd x)) = dim" using assms(5) by (auto simp: item_value_def)
  then have "\<forall>v\<in>snd ` set ?items. int (length v) = dim" using mset_eq_setD [OF s] by simp
  then have "take_vectors (quotable js) model dim ?items = Inr (map snd ?items)" by (simp add: take_vectors_Inr)
  then have run: "openai_Embed net js base key model dim texts kind w = (Inr (map snd ?items), w')"
    using assms(2,3) post dec len by (simp add: openai_Embed_def Let_def)
  have "map fst ?data = map int (map fst items)" by (simp add: item_value_def)
  then have order: "mset (map fst ?data) = mset (map int [0 ..< length texts])" using assms(4) by (metis mset_map)
  have "map snd ?items ! i = map (\<lambda>n. the (floatText js n)) (the (map_of items i))" if lt: "i < length texts" for i
  proof -
    obtain ns where "(i, ns) \<in> set items" "map snd ?items ! i = map (\<lambda>n. the (floatText js n)) ns"
      using sorted_by_index(2) [OF assms(1) order lt] by (auto simp: item_value_def)
    moreover from this have "map_of items i = Some ns" using dist by simp
    ultimately show ?thesis by simp
  qed
  then have "map snd ?items = map (\<lambda>i. map (\<lambda>n. the (floatText js n)) (the (map_of items i))) [0 ..< length texts]"
    using sorted_by_index(1) [OF assms(1) order] by (intro nth_equalityI) simp_all
  then show ?thesis using run by simp
qed

definition ok_response :: response where
  "ok_response = \<lparr>rStatus = 200, rLine = ''200 OK'', rHeader = \<lambda>h. [],
     rBody = (encode (JObj (embedding_list ''m'' ''2'' [(1, [''8'']), (0, [''7''])])), None)\<rparr>"

definition demo_net :: "response \<Rightarrow> unit net" where
  "demo_net resp = \<lparr>badURL = \<lambda>u. None, post = \<lambda>u b h w. (Inr resp, w), retryDate = \<lambda>h. None\<rparr>"

definition demo_codec :: codec where
  "demo_codec = \<lparr>floatText = \<lambda>n. map_option word_of_int (atoi n), faultText = \<lambda>b f. Plain ''unreadable'',
     sortByIndex = sort_key fst, quotable = \<lambda>r. True\<rparr>"

lemma openai_restores_order_witness:
  "openai_Embed (demo_net ok_response) demo_codec ''u'' [] ''m'' 1 [''a'', ''b''] KindDocument () = (Inr [[7], [8]], ()) \<and>
   length [[7 :: float32], [8]] = length [''a'', ''b'']"
proof -
  have srt: "sorts_items (sortByIndex demo_codec)" by (simp add: sorts_items_def demo_codec_def)
  have run: "openai_Embed (demo_net ok_response) demo_codec ''u'' [] ''m'' 1 [''a'', ''b''] KindDocument () = (Inr [[7], [8]], ())"
    by code_simp
  have "[''a'', ''b''] \<noteq> []" by simp
  from openai_restores_order [OF srt run this] run show ?thesis by simp
qed

lemma openai_reads_any_order_witness:
  "openai_Embed (demo_net ok_response) demo_codec ''u'' [] ''m'' 1 [''a'', ''b''] KindDocument () = (Inr [[7], [8]], ())"
proof -
  let ?items = "[(1, [''8'']), (0, [''7''])] :: (nat \<times> gostring list) list"
  have vals: "atoi ''7'' = Some 7" "atoi ''8'' = Some 8" "number_text ''7''" "number_text ''8''" "number_text ''2''"
    by code_simp+
  have srt: "sorts_items (sortByIndex demo_codec)" by (simp add: sorts_items_def demo_codec_def)
  have idx: "mset (map fst ?items) = mset [0 ..< length [''a'', ''b'']]" by (simp add: upt_rec)
  have nums: "\<forall>x\<in>set ?items. (\<forall>n\<in>set (snd x). number_text n \<and> floatText demo_codec n \<noteq> None) \<and> int (length (snd x)) = 1"
    using vals by (simp add: demo_codec_def)
  have short: "length (encode (JObj (embedding_list ''m'' ''2'' ?items))) < 67108864" by code_simp
  have "openai_Embed (demo_net ok_response) demo_codec ''u'' [] ''m'' 1 [''a'', ''b''] KindDocument () =
     (Inr (map (\<lambda>i. map (\<lambda>n. the (floatText demo_codec n)) (the (map_of ?items i))) [0 ..< length [''a'', ''b'']]), ())"
    by (rule openai_reads_any_order [OF srt _ _ idx nums vals(5) short, where resp = ok_response])
      (simp_all only: demo_net_def net.simps ok_response_def response.simps, simp_all)
  then show ?thesis using vals by (simp add: demo_codec_def upt_rec)
qed

section \<open>Which failures are retried\<close>

definition retry_hint :: "'a result \<times> 'w \<Rightarrow> Duration option" where
  "retry_hint r = (case fst r of Inr _ \<Rightarrow> None | Inl e \<Rightarrow> map_option snd (as_retryable e))"

lemma retryable_status: "as_retryable err = None \<Longrightarrow>
    as_retryable (status_error net resp err) =
      (if IsTransientStatus (rStatus resp)
       then Some (err, ParseRetryAfter (retryDate net) (rHeader resp ''Retry-After'')) else None)"
  by (simp add: status_error_def)

text \<open>
  C36. A refused request is retried exactly if its status is transient. Let the server answer
  every request with one and the same response whose status is not 200 and whose body can
  be read. Then each of the four HTTP clients - two for embedding, two for generation -
  fails after that one request, and the error is marked as retryable if and only if the
  status is 408, 429 or at least 500, with the pause the server asks for in \<open>Retry-After\<close>.
\<close>

theorem refused_requests_retry:
  fixes net :: "'w net" and resp :: response
  assumes "\<And>u. badURL net u = None" "\<And>u b h w. post net u b h w = (Inr resp, w)"
    "rStatus resp \<noteq> 200" "snd (rBody resp) = None" "texts \<noteq> []" "length texts \<le> 32"
  defines "expected \<equiv> (if IsTransientStatus (rStatus resp)
                     then Some (ParseRetryAfter (retryDate net) (rHeader resp ''Retry-After'')) else None)"
  shows "isl (fst (openai_Embed net js base key model dim texts kind w)) \<and>
    isl (fst (ollama_Embed net js base space texts kind w)) \<and>
    isl (fst (openai_Generate net js base key model extra system user w)) \<and>
    isl (fst (ollama_Generate net js base model system user w)) \<and>
    retry_hint (openai_Embed net js base key model dim texts kind w) = expected \<and>
    retry_hint (ollama_Embed net js base space texts kind w) = expected \<and>
    retry_hint (openai_Generate net js base key model extra system user w) = expected \<and>
    retry_hint (ollama_Generate net js base model system user w) = expected"
proof -
  have all: "read_all n (rBody resp) = Inr (take n (fst (rBody resp)))" for n
    using assms(4) by (simp add: read_all_def limit_stream_def)
  define failed where "failed = (\<lambda>label n. Plain (label @ '': '' @ rLine resp @ '': '' @
      trim_space (truncate_text (take n (fst (rBody resp))) 400)))"
  have openai: "openai_post net label n url req hs w = (Inl (status_error net resp (failed label n)), w)"
    for label n url req hs w
    using assms(1-3) all by (simp add: openai_post_def failed_def)
  have failed: "map_option snd (as_retryable (status_error net resp (failed label n))) = expected" for label n
    by (simp add: expected_def status_error_def failed_def)
  define refused where "refused = (\<lambda>label m. fst (ollama_post net label m 0 [] JNull w))"
  have ollama: "ollama_post net label m n url req w = (refused label m, w)" for label m n url req
    using assms(1-3) by (simp add: ollama_post_def Let_def refused_def)
  have refused: "\<exists>e. refused label m = Inl e \<and> map_option snd (as_retryable e) = expected" for label m
    using assms(1-3) by (simp add: refused_def ollama_post_def Let_def expected_def status_error_def)
  show ?thesis
  proof (intro conjI)
    show "isl (fst (openai_Embed net js base key model dim texts kind w))"
      "retry_hint (openai_Embed net js base key model dim texts kind w) = expected"
      "isl (fst (openai_Generate net js base key model extra system user w))"
      "retry_hint (openai_Generate net js base key model extra system user w) = expected"
      using assms(5,6) by (simp_all add: openai_Embed_def openai_Generate_def Let_def openai failed retry_hint_def)
    obtain e where e: "refused ''ollama embeddings'' (spaceModel space) = Inl e"
      "map_option snd (as_retryable e) = expected" using refused by blast
    then show "isl (fst (ollama_Embed net js base space texts kind w))"
      "retry_hint (ollama_Embed net js base space texts kind w) = expected"
      using assms(5,6) by (simp_all add: ollama_Embed_def Let_def ollama retry_hint_def)
    obtain e' where "refused ''ollama generation'' model = Inl e'"
      "map_option snd (as_retryable e') = expected" using refused by blast
    then show "isl (fst (ollama_Generate net js base model system user w))"
      "retry_hint (ollama_Generate net js base model system user w) = expected"
      by (simp_all add: ollama_Generate_def Let_def ollama retry_hint_def)
  qed
qed

lemma refused_requests_retry_witness:
  "let resp = \<lparr>rStatus = 429, rLine = ''429 Too Many Requests'', rHeader = \<lambda>h. ''7'', rBody = (''slow down'', None)\<rparr>
   in retry_hint (openai_Embed (demo_net resp) demo_codec ''u'' [] ''m'' 1 [''a''] KindDocument ()) = Some (7 * second) \<and>
      retry_hint (ollama_Generate (demo_net (resp\<lparr>rStatus := 404\<rparr>)) demo_codec ''u'' ''m'' [] ''q'' ()) = None"
proof -
  let ?resp = "\<lparr>rStatus = 429, rLine = ''429 Too Many Requests'', rHeader = \<lambda>h. ''7'', rBody = (''slow down'', None)\<rparr>"
  let ?gone = "?resp\<lparr>rStatus := 404\<rparr>"
  have net: "badURL (demo_net r) u = None" "post (demo_net r) u b h w = (Inr r, w)" for r u b h w
    by (simp_all add: demo_net_def)
  have seven: "ParseRetryAfter (\<lambda>h. None) ''7'' = 7 * second" by code_simp
  have "retry_hint (openai_Embed (demo_net ?resp) demo_codec ''u'' [] ''m'' 1 [''a''] KindDocument ()) =
      Some (ParseRetryAfter (retryDate (demo_net ?resp)) ''7'')"
    using refused_requests_retry [OF net, of ?resp "[''a'']" demo_codec "''u''" "[]" "''m''" 1 KindDocument "()"]
    by (simp add: IsTransientStatus_def)
  moreover have "retry_hint (ollama_Generate (demo_net ?gone) demo_codec ''u'' ''m'' [] ''q'' ()) = None"
    using refused_requests_retry [OF net, of ?gone "[''a'']" demo_codec "''u''" "[]" "''m''" 1 KindDocument "()"]
    by (simp add: IsTransientStatus_def)
  ultimately show ?thesis using seven by (simp add: Let_def demo_net_def)
qed

end
