(* ===== verification/Settings.thy ===== *)
theory Settings
  imports Clients
begin

text \<open>
  Configuration: reading the environment (\<open>internal/config/env.go\<close>, \<open>storage/postgres.go\<close>),
  the connection string (\<open>knowledge/postgres.go\<close> with the escaping of \<open>net/url\<close>), and the two
  factories that pick a vendor and wrap it (\<open>embed/factory.go\<close>, \<open>llm/factory.go\<close>). The
  environment is a function from names, empty where a variable is unset;
  \<open>strconv.ParseFloat\<close> is a parameter.
\<close>

section \<open>Reading a variable\<close>

type_synonym environment = "gostring \<Rightarrow> gostring"

record parsing =
  parseFloat :: "gostring \<Rightarrow> float64 option"
  printable :: "rune \<Rightarrow> bool"

definition config_String :: "environment \<Rightarrow> gostring \<Rightarrow> gostring \<Rightarrow> gostring" where
  "config_String env key def =
     (let v = trim_space (env key) in if v \<noteq> [] then v else def)"

definition config_Int :: "parsing \<Rightarrow> environment \<Rightarrow> gostring \<Rightarrow> int \<Rightarrow> int result" where
  "config_Int ps env key def =
     (let raw = trim_space (env key) in
      if raw = [] then Inr def
      else (case atoi raw of
              None \<Rightarrow> Inl (Plain (key @ ''='' @ go_quote (printable ps) raw @ '': not an integer''))
            | Some v \<Rightarrow> Inr v))"

definition config_Float :: "parsing \<Rightarrow> environment \<Rightarrow> gostring \<Rightarrow> float64 \<Rightarrow> float64 result" where
  "config_Float ps env key def =
     (let raw = trim_space (env key) in
      if raw = [] then Inr def
      else (case parseFloat ps raw of
              None \<Rightarrow> Inl (Plain (key @ ''='' @ go_quote (printable ps) raw @ '': not a number''))
            | Some v \<Rightarrow> Inr v))"

definition config_Required :: "environment \<Rightarrow> gostring \<Rightarrow> gostring result" where
  "config_Required env key =
     (let v = trim_space (env key) in if v = [] then Inl (Plain (key @ '' is not set'')) else Inr v)"

text \<open>\<open>strconv.ParseBool\<close>.\<close>

definition parse_bool :: "gostring \<Rightarrow> bool option" where
  "parse_bool s =
     (if s \<in> {''1'', ''t'', ''T'', ''TRUE'', ''true'', ''True''} then Some True
      else if s \<in> {''0'', ''f'', ''F'', ''FALSE'', ''false'', ''False''} then Some False
      else None)"

definition config_Bool :: "parsing \<Rightarrow> environment \<Rightarrow> gostring \<Rightarrow> bool \<Rightarrow> bool result" where
  "config_Bool ps env key def =
     (let raw = trim_space (env key) in
      if raw = [] then Inr def
      else (case parse_bool raw of
              None \<Rightarrow> Inl (Plain (key @ ''='' @ go_quote (printable ps) raw @ '': not a boolean (try true or false)''))
            | Some v \<Rightarrow> Inr v))"

section \<open>Escaping in a URL\<close>

text \<open>\<open>net/url\<close>: what each part of a URL escapes, and \<open>URL.String\<close> of the program's URLs.\<close>

datatype url_part = UserPart | HostPart | PathPart | QueryPart

definition unreserved :: "char \<Rightarrow> bool" where
  "unreserved c \<longleftrightarrow> 97 \<le> byte c \<and> byte c \<le> 122 \<or> 65 \<le> byte c \<and> byte c \<le> 90 \<or> is_digit c \<or> c \<in> set ''-_.~''"

definition should_escape :: "url_part \<Rightarrow> char \<Rightarrow> bool" where
  "should_escape part c =
     (if unreserved c then False
      else case part of
        UserPart \<Rightarrow> c \<notin> set ''$&+,;=''
      | HostPart \<Rightarrow> c \<notin> set ''!$&()*+,;=:[]<>'' \<and> byte c \<noteq> 34 \<and> byte c \<noteq> 39
      | PathPart \<Rightarrow> c \<notin> set ''$&+,/:;=@''
      | QueryPart \<Rightarrow> True)"

definition upper_hex :: "nat \<Rightarrow> char" where
  "upper_hex d = char_of (if d < 10 then 48 + d else 55 + d)"

definition escape_char :: "url_part \<Rightarrow> char \<Rightarrow> gostring" where
  "escape_char part c =
     (if part = QueryPart \<and> c = CHR '' '' then ''+''
      else if should_escape part c then [CHR ''%'', upper_hex (byte c div 16), upper_hex (byte c mod 16)]
      else [c])"

definition url_escape :: "url_part \<Rightarrow> gostring \<Rightarrow> gostring" where
  "url_escape part s = concat (map (escape_char part) s)"

text \<open>\<open>URL.String\<close> with a scheme, \<open>UserPassword\<close>, a host, a path and a raw query.\<close>

definition url_string :: "gostring \<Rightarrow> gostring \<Rightarrow> gostring \<Rightarrow> gostring \<Rightarrow> gostring \<Rightarrow> gostring \<Rightarrow> gostring" where
  "url_string scheme user password host path query =
     scheme @ ''://'' @ url_escape UserPart user @ '':'' @ url_escape UserPart password @ ''@'' @
     url_escape HostPart host @
     (if path \<noteq> [] \<and> hd path \<noteq> CHR ''/'' \<and> host \<noteq> [] then ''/'' else []) @
     (if path = ''*'' then ''*'' else url_escape PathPart path) @
     (if query \<noteq> [] then ''?'' @ query else [])"

section \<open>The connection string\<close>

record Postgres =
  pgHost :: gostring
  pgPort :: gostring
  pgUser :: gostring
  pgPassword :: gostring
  pgDatabase :: gostring
  pgSSLMode :: gostring

definition Postgres_DSN :: "Postgres \<Rightarrow> gostring" where
  "Postgres_DSN p =
     (let host = (if pgHost p = [] then ''127.0.0.1'' else pgHost p);
          port = (if pgPort p = [] then ''5432'' else pgPort p);
          sslMode = (if pgSSLMode p = [] then ''disable'' else pgSSLMode p)
      in url_string ''postgres'' (pgUser p) (pgPassword p) (host @ '':'' @ port) (pgDatabase p)
           (''sslmode='' @ url_escape QueryPart sslMode))"

definition Postgres_validate :: "Postgres \<Rightarrow> goerr option" where
  "Postgres_validate p =
     (let missing = (if trim_space (pgUser p) = [] then [''User''] else []) @
                    (if trim_space (pgDatabase p) = [] then [''Database''] else [])
      in if missing \<noteq> [] then Some (Plain (''knowledge: Config.Postgres is missing '' @ join '', '' missing)) else None)"

text \<open>
  The \<open>POSTGRES_*\<close> variables: the missing ones are collected from a map, in any order, and
  sorted, so their order is that of their names.
\<close>

definition readDBEnv :: "environment \<Rightarrow> Postgres result" where
  "readDBEnv env =
     (let missing = filter (\<lambda>name. trim_space (env name) = [])
            [''POSTGRES_DB'', ''POSTGRES_HOST'', ''POSTGRES_PASSWORD'', ''POSTGRES_PORT'', ''POSTGRES_USER'']
      in if missing \<noteq> [] then Inl (Plain (''database configuration: '' @ join '', '' missing @ '' not set''))
         else Inr \<lparr>pgHost = env ''POSTGRES_HOST'', pgPort = env ''POSTGRES_PORT'', pgUser = env ''POSTGRES_USER'',
                   pgPassword = env ''POSTGRES_PASSWORD'', pgDatabase = env ''POSTGRES_DB'', pgSSLMode = []\<rparr>)"

definition buildDSN :: "Postgres \<Rightarrow> gostring" where
  "buildDSN p = url_string ''postgres'' (pgUser p) (pgPassword p) (pgHost p @ '':'' @ pgPort p) (pgDatabase p) ''sslmode=disable''"

definition DSNFromEnv :: "environment \<Rightarrow> gostring result" where
  "DSNFromEnv env = (case readDBEnv env of Inl e \<Rightarrow> Inl e | Inr p \<Rightarrow> Inr (buildDSN p))"

section \<open>The embedding provider\<close>

record embed_config =
  ecProvider :: gostring
  ecModel :: gostring
  ecDim :: int
  ecAPIKey :: gostring
  ecBaseURL :: gostring
  ecOllamaURL :: gostring
  ecRPS :: float64
  ecBurst :: int
  ecRetry :: Policy

abbreviation f64_one :: float64 where
  "f64_one \<equiv> 0x3FF0000000000000"

definition embed_defaults :: "gostring \<Rightarrow> (gostring \<times> int \<times> float64) option" where
  "embed_defaults = map_of
     [(''google'', ''gemini-embedding-001'', 768, 0x3FF8000000000000),
      (''openai'', [], 0, f64_one),
      (''ollama'', ''nomic-embed-text'', 768, 0),
      (''fake'', ''hashing-trick'', 768, 0)]"

definition embedAPIKey :: "environment \<Rightarrow> gostring \<Rightarrow> gostring" where
  "embedAPIKey env provider = (if provider = ''openai'' then env ''EMBED_API_KEY'' else env ''GOOGLE_API_KEY'')"

definition no_openrouter :: gostring where
  "no_openrouter = '': OpenRouter serves chat models only and has no embeddings endpoint. '' @
     ''Use LLM_PROVIDER=openrouter for answers and pick a separate embedder: EMBED_PROVIDER=ollama '' @
     ''(local, free) or EMBED_PROVIDER=google (hosted)''"

definition embed_ConfigFromEnv :: "parsing \<Rightarrow> (rune \<Rightarrow> rune) \<Rightarrow> environment \<Rightarrow> embed_config result" where
  "embed_ConfigFromEnv ps ul env =
     (let provider = to_lower ul (config_String env ''EMBED_PROVIDER'' ''ollama'') in
      case embed_defaults provider of
        None \<Rightarrow>
          Inl (Plain (''EMBED_PROVIDER='' @ go_quote (printable ps) provider @
            (if provider = ''openrouter'' then no_openrouter else '': want one of google, openai, ollama, fake'')))
      | Some (model, dim, rps) \<Rightarrow>
          (case config_Int ps env ''EMBED_DIM'' dim of
             Inl e \<Rightarrow> Inl e
           | Inr dim \<Rightarrow>
               (case config_Float ps env ''EMBED_RPS'' rps of
                  Inl e \<Rightarrow> Inl e
                | Inr rps \<Rightarrow>
                    (case config_Int ps env ''EMBED_BURST'' 1 of
                       Inl e \<Rightarrow> Inl e
                     | Inr burst \<Rightarrow>
                         Inr \<lparr>ecProvider = provider, ecModel = config_String env ''EMBED_MODEL'' model, ecDim = dim,
                              ecAPIKey = embedAPIKey env provider, ecBaseURL = env ''EMBED_BASE_URL'',
                              ecOllamaURL = config_String env ''OLLAMA_URL'' DefaultOllamaURL,
                              ecRPS = rps, ecBurst = burst, ecRetry = Default\<rparr>))))"

text \<open>What the providers are built on.\<close>

record 'w deps =
  dWorld :: "'w world"
  dLimiter :: "float64 \<Rightarrow> int \<Rightarrow> 'w \<Rightarrow> goerr option \<times> 'w"
  dNet :: "'w net"
  dCodec :: codec
  dGenai :: "'w genai"
  dFloats :: floats
  dWord :: "rune \<Rightarrow> bool"
  dLower :: "rune \<Rightarrow> rune"

definition embed_vendor :: "'w deps \<Rightarrow> embed_config \<Rightarrow> 'w embedder result" where
  "embed_vendor d cfg =
     (let vendor = to_lower (dLower d) (ecProvider cfg);
          (model0, dim0, rps0) = (case embed_defaults vendor of Some x \<Rightarrow> x | None \<Rightarrow> ([], 0, 0));
          model = (if ecModel cfg = [] then model0 else ecModel cfg);
          dim = (if ecDim cfg = 0 then dim0 else ecDim cfg)
      in if vendor = ''google'' then embed_NewGoogle (dFloats d) (dGenai d) (ecAPIKey cfg) model dim
         else if vendor = ''openai'' then embed_NewOpenAI (dNet d) (dCodec d) (ecBaseURL cfg) (ecAPIKey cfg) model dim
         else if vendor = ''ollama'' then embed_NewOllama (dNet d) (dCodec d) (ecOllamaURL cfg) model dim
         else if vendor = ''fake'' then NewFake (dFloats d) (dWord d) (dLower d) (ctxErr (dWorld d)) dim
         else Inl (Plain (''unknown embedding provider '' @ go_quote (quotable (dCodec d)) (ecProvider cfg))))"

definition embed_New :: "'w deps \<Rightarrow> embed_config \<Rightarrow> 'w embedder result" where
  "embed_New d cfg =
     (case embed_vendor d cfg of
        Inl e \<Rightarrow> Inl e
      | Inr p \<Rightarrow> Inr (WithRateLimit (dLimiter d) (WithRetry (dWorld d) (ecRetry cfg) p) (ecRPS cfg) (ecBurst cfg)))"

section \<open>The generation provider\<close>

record llm_config =
  lcProvider :: gostring
  lcModel :: gostring
  lcAPIKey :: gostring
  lcBaseURL :: gostring
  lcOllamaURL :: gostring
  lcAppURL :: gostring
  lcAppName :: gostring
  lcRPS :: float64
  lcBurst :: int
  lcRetry :: Policy

definition llm_defaults :: "gostring \<Rightarrow> (gostring \<times> float64) option" where
  "llm_defaults = map_of
     [(''google'', ''gemini-3.6-flash'', f64_one), (''openai'', [], f64_one), (''openrouter'', [], f64_one),
      (''ollama'', ''llama3.2'', 0), (''stub'', ''stub'', 0)]"

definition llmAPIKey :: "environment \<Rightarrow> gostring \<Rightarrow> gostring" where
  "llmAPIKey env provider =
     (if provider = ''openai'' then env ''LLM_API_KEY''
      else if provider = ''openrouter'' then
        (if env ''OPENROUTER_API_KEY'' \<noteq> [] then env ''OPENROUTER_API_KEY'' else env ''LLM_API_KEY'')
      else env ''GOOGLE_API_KEY'')"

definition defaultAppURL :: gostring where
  "defaultAppURL = ''https://github.com/Zinoki12/rag-ai-system''"

definition defaultAppName :: gostring where
  "defaultAppName = ''rag-ai-system''"

definition llm_ConfigFromEnv :: "parsing \<Rightarrow> (rune \<Rightarrow> rune) \<Rightarrow> environment \<Rightarrow> llm_config result" where
  "llm_ConfigFromEnv ps ul env =
     (let provider = to_lower ul (config_String env ''LLM_PROVIDER'' ''stub'') in
      case llm_defaults provider of
        None \<Rightarrow>
          Inl (Plain (''LLM_PROVIDER='' @ go_quote (printable ps) provider @
            '': want one of google, openai, openrouter, ollama, stub''))
      | Some (model, rps) \<Rightarrow>
          (case config_Float ps env ''LLM_RPS'' rps of
             Inl e \<Rightarrow> Inl e
           | Inr rps \<Rightarrow>
               (case config_Int ps env ''LLM_BURST'' 1 of
                  Inl e \<Rightarrow> Inl e
                | Inr burst \<Rightarrow>
                    Inr \<lparr>lcProvider = provider, lcModel = config_String env ''LLM_MODEL'' model,
                         lcAPIKey = llmAPIKey env provider, lcBaseURL = env ''LLM_BASE_URL'',
                         lcOllamaURL = config_String env ''OLLAMA_URL'' DefaultOllamaURL,
                         lcAppURL = config_String env ''OPENROUTER_REFERER'' defaultAppURL,
                         lcAppName = config_String env ''OPENROUTER_TITLE'' defaultAppName,
                         lcRPS = rps, lcBurst = burst, lcRetry = Default\<rparr>)))"

definition llm_vendor :: "'w deps \<Rightarrow> llm_config \<Rightarrow> 'w generator result" where
  "llm_vendor d cfg =
     (let vendor = to_lower (dLower d) (lcProvider cfg);
          model = (if lcModel cfg = []
                   then (case llm_defaults vendor of Some (m, _) \<Rightarrow> m | None \<Rightarrow> []) else lcModel cfg)
      in if vendor = ''google'' then llm_NewGoogle (dGenai d) (lcAPIKey cfg) model
         else if vendor = ''openai'' then llm_NewOpenAI (dNet d) (dCodec d) (lcBaseURL cfg) (lcAPIKey cfg) model
         else if vendor = ''openrouter'' then
           NewOpenRouter (dNet d) (dCodec d) (lcAPIKey cfg) model (lcAppURL cfg) (lcAppName cfg)
         else if vendor = ''ollama'' then llm_NewOllama (dNet d) (dCodec d) (lcOllamaURL cfg) model
         else if vendor = ''stub'' then Inr (NewStub (ctxErr (dWorld d)))
         else Inl (Plain (''unknown generation provider '' @ go_quote (quotable (dCodec d)) (lcProvider cfg))))"

definition llm_New :: "'w deps \<Rightarrow> llm_config \<Rightarrow> 'w generator result" where
  "llm_New d cfg =
     (case llm_vendor d cfg of
        Inl e \<Rightarrow> Inl e
      | Inr p \<Rightarrow> Inr (gen_WithRateLimit (dLimiter d) (gen_WithRetry (dWorld d) (lcRetry cfg) p) (lcRPS cfg) (lcBurst cfg)))"

section \<open>A connection string is read back as it was meant\<close>

text \<open>
  The reader's side: \<open>url.Parse\<close> for a URL of the scheme \<open>postgres\<close>, with \<open>Hostname\<close>, \<open>Port\<close>,
  \<open>Query\<close> and the path less its first slash. A percent sign that no two hexadecimal digits
  follow is an error; in a host an escape may stand for a byte outside ASCII or a percent
  sign only, and the characters a host would escape must not stand for themselves.
\<close>

fun url_unescape :: "url_part \<Rightarrow> gostring \<Rightarrow> gostring option" where
  "url_unescape part [] = Some []"
| "url_unescape part (c # s) =
     (if c = CHR ''%'' then
        (case s of
           a # b # t \<Rightarrow>
             (case (hex_value a, hex_value b) of
                (Some x, Some y) \<Rightarrow>
                  if part = HostPart \<and> x < 8 \<and> [a, b] \<noteq> ''25'' then None
                  else map_option ((#) (char_of (16 * x + y))) (url_unescape part t)
              | _ \<Rightarrow> None)
         | _ \<Rightarrow> None)
      else if part = HostPart \<and> byte c < 128 \<and> should_escape HostPart c then None
      else map_option ((#) (if part = QueryPart \<and> c = CHR ''+'' then CHR '' '' else c)) (url_unescape part s))"

definition cut_last :: "char \<Rightarrow> gostring \<Rightarrow> gostring \<times> gostring" where
  "cut_last c s = (case cut_at c (rev s) of (b, a, _) \<Rightarrow> (rev a, rev b))"

text \<open>
  Host and port. A host that holds colons itself has to stand in brackets, and a port has
  digits only. What is between brackets has to be an address of IPv6, with its zone if it has
  one: \<open>v6\<close>, the parser of \<open>net/netip\<close>, is a parameter.
\<close>

definition split_host :: "(gostring \<Rightarrow> gostring option) \<Rightarrow> gostring \<Rightarrow> (gostring \<times> gostring) option" where
  "split_host v6 s =
     (if s \<noteq> [] \<and> hd s = CHR ''['' then
        (if CHR '']'' \<notin> set s then None
         else (case cut_last CHR '']'' (tl s) of
                 (a, rest) \<Rightarrow>
                   if rest = [] \<or> hd rest = CHR '':'' \<and> list_all is_digit (tl rest)
                   then map_option (\<lambda>a. (a, tl rest)) (v6 a) else None))
      else (case cut_at CHR '':'' s of
              (h, port, _) \<Rightarrow>
                if CHR ''['' \<in> set s \<or> \<not> list_all is_digit port then None
                else map_option (\<lambda>h. (h, port)) (url_unescape HostPart h)))"

definition userinfo_char :: "char \<Rightarrow> bool" where
  "userinfo_char c \<longleftrightarrow> unreserved c \<or> c \<in> set ''!$&()*+,;=%@:'' \<or> byte c = 39"

fun split_on :: "char \<Rightarrow> gostring \<Rightarrow> gostring list" where
  "split_on c [] = [[]]"
| "split_on c (x # s) =
     (if x = c then [] # split_on c s else (x # hd (split_on c s)) # tl (split_on c s))"

definition query_settings :: "gostring \<Rightarrow> (gostring \<times> gostring) list" where
  "query_settings q = List.map_filter
     (\<lambda>kv. if kv = [] \<or> CHR '';'' \<in> set kv then None
           else (case cut_at CHR ''='' kv of
                   (k, v, _) \<Rightarrow>
                     (case (url_unescape QueryPart k, url_unescape QueryPart v) of
                        (Some k, Some v) \<Rightarrow> Some (k, v)
                      | _ \<Rightarrow> None)))
     (split_on CHR ''&'' q)"

definition no_control :: "char \<Rightarrow> bool" where
  "no_control c \<longleftrightarrow> 32 \<le> byte c \<and> byte c \<noteq> 127"

record dsn =
  dsnUser :: gostring
  dsnPassword :: gostring
  dsnHost :: gostring
  dsnPort :: gostring
  dsnDatabase :: gostring
  dsnSettings :: "(gostring \<times> gostring) list"

definition dsn_parts :: "(gostring \<Rightarrow> gostring option) \<Rightarrow> gostring \<Rightarrow> dsn option" where
  "dsn_parts v6 s =
     (let (u, frag, _) = cut_at CHR ''#'' s;
          (hier, query, _) = cut_at CHR ''?'' (drop 11 u);
          (authority, path, _) = cut_at CHR ''/'' hier;
          (userinfo, host) = cut_last CHR ''@'' authority;
          (user, password, _) = cut_at CHR '':'' userinfo
      in if take 11 u \<noteq> ''postgres://'' \<or> \<not> list_all no_control u \<or> url_unescape PathPart frag = None \<or>
            \<not> list_all userinfo_char userinfo then None
         else (case (url_unescape UserPart user, url_unescape UserPart password, split_host v6 host,
                     url_unescape PathPart path) of
                 (Some user, Some password, Some (host, port), Some path) \<Rightarrow>
                   Some \<lparr>dsnUser = user, dsnPassword = password, dsnHost = host, dsnPort = port, dsnDatabase = path,
                         dsnSettings = query_settings query\<rparr>
               | _ \<Rightarrow> None))"

lemma hex_value_upper: "d < 16 \<Longrightarrow> hex_value (upper_hex d) = Some d"
  by (auto simp: upper_hex_def hex_value_def is_digit_def byte_char_of)

lemma percent_escaped: "should_escape part CHR ''%''"
proof -
  have "list_all (\<lambda>p. should_escape p CHR ''%'') [UserPart, HostPart, PathPart, QueryPart]" by code_simp
  then show ?thesis by (cases part) simp_all
qed

lemma plus_escaped: "should_escape QueryPart CHR ''+''"
  by code_simp

lemma url_unescape_char:
  assumes "part \<noteq> HostPart"
  shows "url_unescape part (escape_char part c @ s) = map_option ((#) c) (url_unescape part s)"
proof (cases "should_escape part c")
  case True
  have "16 * (byte c div 16) + byte c mod 16 = byte c" by simp
  moreover have "byte c div 16 < 16" using byte_less_256 [of c] by linarith
  ultimately show ?thesis using True assms by (simp add: escape_char_def hex_value_upper)
next
  case False
  then have "c \<noteq> CHR ''%''" "part = QueryPart \<Longrightarrow> c \<noteq> CHR ''+''" "part = QueryPart \<Longrightarrow> c \<noteq> CHR '' ''"
    using percent_escaped [of part] plus_escaped by (blast, blast, auto simp: should_escape_def unreserved_def is_digit_def)
  then show ?thesis using False assms by (auto simp: escape_char_def)
qed

lemma url_unescape_escape: "part \<noteq> HostPart \<Longrightarrow> url_unescape part (url_escape part s) = Some s"
  by (induction s) (simp_all add: url_escape_def url_unescape_char)

text \<open>The separators do not occur in the escaped parts they separate.\<close>

lemma upper_hex_cases: "d < 16 \<Longrightarrow> upper_hex d \<in> set ''0123456789ABCDEF''"
proof -
  assume "d < 16"
  then have "d \<in> set [0 ..< 16]" by simp
  moreover have "list_all (\<lambda>d. upper_hex d \<in> set ''0123456789ABCDEF'') [0 ..< 16]" by code_simp
  ultimately show ?thesis unfolding list_all_iff by blast
qed

lemma set_url_escape:
  assumes "x \<in> set (url_escape part s)"
  shows "x \<in> set ''0123456789ABCDEF%+'' \<or> \<not> should_escape part x"
proof -
  from assms obtain c where c: "x \<in> set (escape_char part c)" by (auto simp: url_escape_def)
  have "byte c div 16 < 16" using byte_less_256 [of c] by linarith
  then have "upper_hex (byte c div 16) \<in> set ''0123456789ABCDEF''" "upper_hex (byte c mod 16) \<in> set ''0123456789ABCDEF''"
    using upper_hex_cases by auto
  then show ?thesis using c by (auto simp: escape_char_def split: if_splits)
qed

lemma escape_avoids:
  "should_escape part x \<Longrightarrow> x \<notin> set ''0123456789ABCDEF%+'' \<Longrightarrow> x \<notin> set (url_escape part s)"
  using set_url_escape by blast

lemma user_separators:
  "CHR ''?'' \<notin> set (url_escape UserPart s)" "CHR ''/'' \<notin> set (url_escape UserPart s)"
  "CHR ''@'' \<notin> set (url_escape UserPart s)" "CHR '':'' \<notin> set (url_escape UserPart s)"
  by (rule escape_avoids; code_simp)+

lemma path_separator: "CHR ''?'' \<notin> set (url_escape PathPart s)"
  by (rule escape_avoids; code_simp)

lemma query_separators: "CHR ''&'' \<notin> set (url_escape QueryPart s)" "CHR '';'' \<notin> set (url_escape QueryPart s)"
  by (rule escape_avoids; code_simp)+

lemma cut_at_absent: "c \<notin> set s \<Longrightarrow> cut_at c s = (s, [], False)"
  by (simp add: cut_at_def)

text \<open>What a URL is written in: no control characters, and no number sign before the fragment.\<close>

definition url_text :: "gostring \<Rightarrow> bool" where
  "url_text s \<longleftrightarrow> list_all (\<lambda>c. no_control c \<and> c \<noteq> CHR ''#'') s"

lemma url_text_append [simp]: "url_text (s @ t) \<longleftrightarrow> url_text s \<and> url_text t"
  by (simp add: url_text_def)

lemma url_text_Cons [simp]: "url_text (c # s) \<longleftrightarrow> no_control c \<and> c \<noteq> CHR ''#'' \<and> url_text s"
  by (simp add: url_text_def)

lemma url_text_Nil [simp]: "url_text []"
  by (simp add: url_text_def)

lemma url_text_cut: "url_text s \<Longrightarrow> cut_at CHR ''#'' s = (s, [], False)"
  by (auto simp: url_text_def list_all_iff intro!: cut_at_absent)

lemma url_text_control: "url_text s \<Longrightarrow> list_all no_control s"
  by (simp add: url_text_def list_all_iff)

lemma unreserved_no_control: "unreserved c \<Longrightarrow> no_control c"
  by (auto simp: unreserved_def is_digit_def no_control_def)

lemma number_sign_escaped: "should_escape part CHR ''#''"
proof -
  have "list_all (\<lambda>p. should_escape p CHR ''#'') [UserPart, HostPart, PathPart, QueryPart]" by code_simp
  then show ?thesis by (cases part) simp_all
qed

lemma unescaped_no_control: "\<not> should_escape part c \<Longrightarrow> no_control c \<and> c \<noteq> CHR ''#''"
proof -
  assume c: "\<not> should_escape part c"
  have "list_all no_control ''!$&()*+,/;=:@[]<>''" by code_simp
  then have "no_control c" if "c \<in> set ''!$&()*+,/;=:@[]<>''" using that unfolding list_all_iff by blast
  moreover have "byte c = 34 \<or> byte c = 39 \<Longrightarrow> no_control c" by (auto simp: no_control_def)
  moreover have "unreserved c \<or> c \<in> set ''!$&()*+,/;=:@[]<>'' \<or> byte c = 34 \<or> byte c = 39"
  proof (rule ccontr)
    assume no: "\<not> ?thesis"
    then have "should_escape p c" for p unfolding should_escape_def by (cases p) simp_all
    with c show False by blast
  qed
  ultimately have "no_control c" using unreserved_no_control by blast
  with c number_sign_escaped show ?thesis by blast
qed

lemma url_text_escape: "url_text (url_escape part s)"
proof -
  have "list_all (\<lambda>c. no_control c \<and> c \<noteq> CHR ''#'') ''0123456789ABCDEF%+''" by code_simp
  then have "\<forall>c\<in>set (url_escape part s). no_control c \<and> c \<noteq> CHR ''#''"
    using set_url_escape [of _ part s] unescaped_no_control [of part] unfolding list_all_iff by blast
  then show ?thesis by (simp add: url_text_def list_all_iff)
qed

lemma userinfo_escape: "list_all userinfo_char (url_escape UserPart s)"
proof -
  have "list_all userinfo_char ''0123456789ABCDEF%+''" by code_simp
  moreover have "\<not> should_escape UserPart c \<Longrightarrow> userinfo_char c" for c
    by (auto simp: should_escape_def userinfo_char_def split: if_splits)
  ultimately show ?thesis using set_url_escape [of _ UserPart s] unfolding list_all_iff by blast
qed

lemma cut_last_found: "c \<notin> set t \<Longrightarrow> cut_last c (s @ c # t) = (s, t)"
  using cut_at_found [of c "rev t" "rev s"] by (simp add: cut_last_def)

text \<open>A host with its port, written without an escape.\<close>

definition host_text :: "gostring \<Rightarrow> bool" where
  "host_text s \<longleftrightarrow> list_all (\<lambda>c. unreserved c \<or> c \<in> set '':[]'') s"

lemma host_text_append [simp]: "host_text (s @ t) \<longleftrightarrow> host_text s \<and> host_text t"
  by (simp add: host_text_def)

lemma host_text_digits: "list_all is_digit s \<Longrightarrow> host_text s"
  by (auto simp: host_text_def list_all_iff unreserved_def)

lemma host_text_escape: "host_text s \<Longrightarrow> url_escape HostPart s = s"
  by (induction s) (auto simp: host_text_def url_escape_def escape_char_def should_escape_def)

lemma host_text_separators:
  "host_text s \<Longrightarrow> CHR ''?'' \<notin> set s \<and> CHR ''/'' \<notin> set s \<and> CHR ''@'' \<notin> set s"
  by (auto simp: host_text_def list_all_iff unreserved_def is_digit_def)

lemma dsn_parts_url_string:
  assumes "host_text host" "host \<noteq> []" "db = [] \<or> hd db \<noteq> CHR ''/''" "query \<noteq> []" "url_text query"
  shows "dsn_parts v6 (url_string ''postgres'' user password host db query) =
    map_option (\<lambda>(h, port). \<lparr>dsnUser = user, dsnPassword = password, dsnHost = h, dsnPort = port, dsnDatabase = db,
      dsnSettings = query_settings query\<rparr>) (split_host v6 host)"
proof -
  let ?u = "url_escape UserPart user" and ?p = "url_escape UserPart password"
  let ?path = "if db = ''*'' then ''*'' else url_escape PathPart db"
  let ?auth = "?u @ CHR '':'' # ?p @ CHR ''@'' # host"
  let ?hier = "?auth @ (if db = [] then [] else CHR ''/'' # ?path)"
  note sep = user_separators host_text_separators [OF assms(1)] path_separator
  have str: "url_string ''postgres'' user password host db query = ''postgres://'' @ ?hier @ CHR ''?'' # query"
    using assms by (auto simp: url_string_def host_text_escape url_escape_def [of PathPart "[]"])
  have path: "url_unescape PathPart ?path = Some db"
    using url_unescape_escape [of PathPart db] by auto
  have clean: "url_text (''postgres://'' @ ?hier @ CHR ''?'' # query)"
    using assms(5) url_text_escape host_text_escape [OF assms(1)] url_text_escape [of HostPart host]
    by (simp add: no_control_def)
  note f = url_text_cut [OF clean] and c = url_text_control [OF clean]
  have q: "cut_at CHR ''?'' (?hier @ CHR ''?'' # query) = (?hier, query, True)"
    using sep by (intro cut_at_found) auto
  have h: "\<exists>f. cut_at CHR ''/'' ?hier = (?auth, (if db = [] then [] else ?path), f)"
  proof (cases "db = []")
    case True
    then show ?thesis using sep by (subst cut_at_absent) auto
  next
    case False
    have "cut_at CHR ''/'' (?auth @ CHR ''/'' # ?path) = (?auth, ?path, True)"
      using sep by (intro cut_at_found) auto
    then show ?thesis using False by (intro exI [of _ True]) simp
  qed
  have a: "cut_last CHR ''@'' ?auth = (?u @ CHR '':'' # ?p, host)"
    using cut_last_found [of "CHR ''@''" host "?u @ CHR '':'' # ?p"] sep by simp
  have u: "cut_at CHR '':'' (?u @ CHR '':'' # ?p) = (?u, ?p, True)" using sep by (intro cut_at_found) auto
  have i: "list_all userinfo_char (?u @ CHR '':'' # ?p)" using userinfo_escape by (simp add: userinfo_char_def)
  have p: "url_unescape PathPart (if db = [] then [] else ?path) = Some db" using path by (cases "db = []") auto
  have ends: "take 11 (''postgres://'' @ x) = ''postgres://''" "drop 11 (''postgres://'' @ x) = x" for x by simp_all
  from h obtain fl where h': "cut_at CHR ''/'' ?hier = (?auth, (if db = [] then [] else ?path), fl)" ..
  show ?thesis unfolding str dsn_parts_def
    by (simp only: f c ends q h' a u i p prod.case Let_def url_unescape_escape url_part.simps url_unescape.simps
        option.simps simp_thms if_False) (simp split: option.split)
qed

text \<open>
  The hosts a connection string can name: a name or an IPv4 address, or an address of IPv6
  in brackets.
\<close>

definition names_host :: "(gostring \<Rightarrow> gostring option) \<Rightarrow> gostring \<Rightarrow> gostring \<Rightarrow> bool" where
  "names_host v6 text host \<longleftrightarrow>
     list_all unreserved text \<and> host = text \<or>
     host \<noteq> [] \<and> text = CHR ''['' # host @ '']'' \<and> list_all (\<lambda>c. unreserved c \<or> c = CHR '':'') host \<and> v6 host = Some host"

definition unbracketed :: "gostring \<Rightarrow> bool" where
  "unbracketed text \<longleftrightarrow> list_all (\<lambda>c. unreserved c \<or> c = CHR '':'') text \<and> CHR '':'' \<in> set text"

lemma host_text_names: "names_host v6 t host \<Longrightarrow> host_text t"
  by (auto simp: names_host_def host_text_def list_all_iff)

lemma unescape_plain: "list_all unreserved s \<Longrightarrow> url_unescape HostPart s = Some s"
proof (induction s)
  case (Cons c s)
  then have "c \<noteq> CHR ''%''" by (auto simp: unreserved_def is_digit_def)
  then show ?case using Cons by (simp add: should_escape_def)
qed simp

lemma digits_avoid: "list_all is_digit port \<Longrightarrow> \<not> is_digit c \<Longrightarrow> c \<notin> set port"
  by (auto simp: list_all_iff)

lemma split_host_names:
  assumes "names_host v6 t host" "list_all is_digit port"
  shows "split_host v6 (t @ '':'' @ port) = Some (host, port)"
  using assms(1) unfolding names_host_def
proof (elim disjE conjE)
  assume t: "list_all unreserved t" "host = t"
  then have a: "CHR ''['' \<notin> set t" "CHR '':'' \<notin> set t" by (auto simp: list_all_iff unreserved_def is_digit_def)
  have p: "CHR ''['' \<notin> set port" using digits_avoid [OF assms(2)] by (simp add: is_digit_def)
  have "t @ '':'' @ port = t @ CHR '':'' # port" by simp
  moreover have "hd (t @ CHR '':'' # port) \<noteq> CHR ''[''" using a by (cases t) auto
  ultimately show ?thesis
    using a p assms(2) unescape_plain [OF t(1)] t(2) cut_at_found [OF a(2), of port] by (simp add: split_host_def)
next
  assume t: "t = CHR ''['' # host @ '']''" "v6 host = Some host"
  have "CHR '']'' \<notin> set (CHR '':'' # port)" using digits_avoid [OF assms(2), of "CHR '']''"] by (simp add: is_digit_def)
  from cut_last_found [OF this, of host] show ?thesis using t assms(2) by (simp add: split_host_def)
qed

lemma split_host_unbracketed: "unbracketed t \<Longrightarrow> split_host v6 (t @ '':'' @ port) = None"
proof -
  assume t: "unbracketed t"
  then obtain h r where r: "t = h @ CHR '':'' # r" "CHR '':'' \<notin> set h" by (auto simp: unbracketed_def dest: split_list_first)
  have no: "CHR ''['' \<notin> set t" using t by (auto simp: unbracketed_def list_all_iff unreserved_def is_digit_def)
  have "\<not> is_digit CHR '':''" by (simp add: is_digit_def)
  moreover have "t @ '':'' @ port = h @ CHR '':'' # (r @ CHR '':'' # port)" using r by simp
  moreover have "hd (t @ '':'' @ port) \<noteq> CHR ''[''" using no by (cases t) auto
  ultimately show ?thesis using cut_at_found [OF r(2), of "r @ CHR '':'' # port"]
    unfolding split_host_def by (simp only: if_False simp_thms) simp
qed

lemma split_on_absent: "c \<notin> set s \<Longrightarrow> split_on c s = [s]"
  by (induction s) auto

lemma sslmode_setting: "query_settings (''sslmode='' @ url_escape QueryPart m) = [(''sslmode'', m)]"
proof -
  let ?q = "''sslmode='' @ url_escape QueryPart m"
  have "split_on CHR ''&'' ?q = [?q]" using query_separators(1) by (intro split_on_absent) simp
  moreover have "cut_at CHR ''='' (''sslmode'' @ CHR ''='' # url_escape QueryPart m) = (''sslmode'', url_escape QueryPart m, True)"
    by (rule cut_at_found) simp
  moreover have "url_unescape QueryPart ''sslmode'' = Some ''sslmode''" by code_simp
  moreover have "CHR '';'' \<notin> set ?q" using query_separators(2) by simp
  ultimately show ?thesis using url_unescape_escape [of QueryPart m]
    by (simp add: query_settings_def List.map_filter_def)
qed

lemma loopback: "list_all unreserved ''127.0.0.1''" "host_text ''127.0.0.1''"
  by code_simp+



section \<open>Every provider a configuration selects is well typed\<close>

lemmas vendor_splits = if_splits option.splits

lemma NewGoogle_typed: "embed_NewGoogle fp g key model dim = Inr p \<Longrightarrow>
    embedding (Embed p) (of_dim (Dim (embedSpace p))) \<and> 1 \<le> MaxBatch p"
  using google.embedding_axioms [of fp g "\<lparr>spaceProvider = ''google'', spaceModel = model, Dim = dim\<rparr>"]
  by (auto simp: embed_NewGoogle_def Let_def split: vendor_splits)

lemma NewOpenAI_typed: "sorts_items (sortByIndex js) \<Longrightarrow> embed_NewOpenAI net js url key model dim = Inr p \<Longrightarrow>
    embedding (Embed p) (of_dim (Dim (embedSpace p))) \<and> 1 \<le> MaxBatch p"
  by (auto simp: embed_NewOpenAI_def intro!: embedding_openai split: vendor_splits)

lemma NewOllama_typed: "embed_NewOllama net js url model dim = Inr p \<Longrightarrow>
    embedding (Embed p) (of_dim (Dim (embedSpace p))) \<and> 1 \<le> MaxBatch p"
  using ollama.embedding_axioms [of net js _ "\<lparr>spaceProvider = ''ollama'', spaceModel = model, Dim = dim\<rparr>"]
  by (auto simp: embed_NewOllama_def Let_def split: vendor_splits)

lemma NewFake_typed: "NewFake fp wr ul ctx dim = Inr p \<Longrightarrow>
    embedding (Embed p) (of_dim (Dim (embedSpace p))) \<and> 1 \<le> MaxBatch p"
  by (auto simp: NewFake_def Validate_def Let_def intro!: embedding_fake split: vendor_splits)

lemma vendor_embedding:
  assumes "sorts_items (sortByIndex (dCodec d))" "embed_vendor d cfg = Inr p"
  shows "embedding (Embed p) (of_dim (Dim (embedSpace p))) \<and> 1 \<le> MaxBatch p"
  using assms(2) unfolding embed_vendor_def Let_def
  by (auto split: if_splits prod.splits dest!: NewGoogle_typed NewOpenAI_typed [OF assms(1)] NewOllama_typed NewFake_typed)

lemma embedSpace_New:
  "embed_vendor d cfg = Inr p \<Longrightarrow> embed_New d cfg = Inr q \<Longrightarrow> embedSpace q = embedSpace p \<and> MaxBatch q = MaxBatch p"
  by (auto simp: embed_New_def WithRateLimit_def WithRetry_def Let_def)

lemma New_embedding:
  assumes "sorts_items (sortByIndex (dCodec d))" "embed_New d cfg = Inr p"
  shows "embedding (Embed p) (of_dim (Dim (embedSpace p))) \<and> 1 \<le> MaxBatch p"
proof -
  from assms(2) obtain q where q: "embed_vendor d cfg = Inr q"
    "p = WithRateLimit (dLimiter d) (WithRetry (dWorld d) (ecRetry cfg) q) (ecRPS cfg) (ecBurst cfg)"
    by (auto simp: embed_New_def split: sum.splits)
  from vendor_embedding [OF assms(1) q(1)] have "embedding (Embed q) (of_dim (Dim (embedSpace q)))" "1 \<le> MaxBatch q"
    by auto
  moreover have "embedSpace p = embedSpace q" "MaxBatch p = MaxBatch q" using embedSpace_New [OF q(1) assms(2)] by auto
  ultimately show ?thesis unfolding q(2) by (intro conjI embedding_WithRateLimit embedding_WithRetry) simp_all
qed

text \<open>
  C38. Whatever vendor a configuration selects, the provider \<open>New\<close> returns is well typed. Every
  successful call, direct or through \<open>Batched\<close>, returns one vector per text and each of
  exactly the dimension of the space the provider reports, through retries and rate limit
  and for any network, server answer and world; so what is stored always fits its table.
\<close>

theorem New_typed:
  assumes "sorts_items (sortByIndex (dCodec d))" "embed_New d cfg = Inr p"
    "Embed p texts kind w = (Inr vs, w') \<or> Batched p texts kind w = (Inr vs, w')"
  shows "length vs = length texts \<and> list_all (\<lambda>v. int (length v) = Dim (embedSpace p)) vs"
proof -
  have e: "embedding (Embed p) (of_dim (Dim (embedSpace p)))" using New_embedding [OF assms(1,2)] by simp
  have "list_all2 (of_dim (Dim (embedSpace p)) kind) texts vs"
    using assms(3) embedding.embed_ok [OF e] embedding.batched_ok [OF e refl] by blast
  then show ?thesis by (simp add: list_all2_of_dim list_all_iff)
qed

text \<open>A configuration without a network.\<close>

definition demo_deps :: "nat deps" where
  "demo_deps = \<lparr>dWorld = calm_world, dLimiter = \<lambda>rps burst w. (None, w),
     dNet = \<lparr>badURL = \<lambda>u. None, post = \<lambda>u b h w. (Inl (NetErr ''refused''), w), retryDate = \<lambda>h. None\<rparr>,
     dCodec = demo_codec,
     dGenai = \<lparr>newClient = \<lambda>k. None, embedContent = \<lambda>m ts t d w. (Inr [], w),
               generateContent = \<lambda>m s u w. (Inr [], w), parseDelay = \<lambda>s. None\<rparr>,
     dFloats = int_floats, dWord = ascii_letter, dLower = \<lambda>r. r\<rparr>"

definition fake_config :: "int \<Rightarrow> embed_config" where
  "fake_config dim = \<lparr>ecProvider = ''Fake'', ecModel = [], ecDim = dim, ecAPIKey = [], ecBaseURL = [],
     ecOllamaURL = [], ecRPS = f64_one, ecBurst = 1, ecRetry = Default\<rparr>"

lemma New_typed_witness:
  "\<exists>p vs w'. embed_New demo_deps (fake_config 4) = Inr p \<and> Embed p [''a b'', ''b''] KindQuery 0 = (Inr vs, w') \<and>
     length vs = 2 \<and> list_all (\<lambda>v. int (length v) = 4) vs"
proof -
  have srt: "sorts_items (sortByIndex (dCodec demo_deps))"
    by (simp add: sorts_items_def demo_codec_def demo_deps_def)
  have run: "case embed_New demo_deps (fake_config 4) of Inl _ \<Rightarrow> False
     | Inr p \<Rightarrow> Dim (embedSpace p) = 4 \<and> \<not> isl (fst (Embed p [''a b'', ''b''] KindQuery 0))"
    by code_simp
  then obtain p where p: "embed_New demo_deps (fake_config 4) = Inr p" "Dim (embedSpace p) = 4"
    "\<not> isl (fst (Embed p [''a b'', ''b''] KindQuery 0))" by (auto split: sum.splits)
  then obtain vs w' where vs: "Embed p [''a b'', ''b''] KindQuery 0 = (Inr vs, w')"
    by (cases "Embed p [''a b'', ''b''] KindQuery 0", cases "fst (Embed p [''a b'', ''b''] KindQuery 0)") auto
  from New_typed [OF srt p(1) disjI1 [OF vs]] p vs show ?thesis by auto
qed

section \<open>Retries and the rate limit\<close>

text \<open>What happens in a call, in order: a wait at the limiter, or a request to the vendor.\<close>

datatype event = Waited | Asked

definition traced_limiter :: "(float64 \<Rightarrow> int \<Rightarrow> 'w \<Rightarrow> goerr option \<times> 'w) \<Rightarrow> float64 \<Rightarrow> int \<Rightarrow>
    'w \<times> event list \<Rightarrow> goerr option \<times> 'w \<times> event list" where
  "traced_limiter lim rps burst s = (case lim rps burst (fst s) of (e, w) \<Rightarrow> (e, w, snd s @ [Waited]))"

definition traced_embedder :: "'w embedder \<Rightarrow> ('w \<times> event list) embedder" where
  "traced_embedder p =
     \<lparr>Embed = \<lambda>texts kind s. (case Embed p texts kind (fst s) of (r, w) \<Rightarrow> (r, w, snd s @ [Asked])),
      embedSpace = embedSpace p, MaxBatch = MaxBatch p\<rparr>"

lemma calm_beside: "calm env \<Longrightarrow> calm (beside env)"
  by (simp add: calm_def beside_def case_prod_beta)

text \<open>What a retry loop does to a part of the state that only the operation changes.\<close>

lemma do_loop_part:
  assumes "calm w" "\<And>s. fst (op s) = Some e" "retryable e" "n \<le> MaxAttempts p"
    "\<And>s. f (snd (op s)) = g (f s)" "\<And>s. f (snd (randBits w s)) = f s" "\<And>d s. f (snd (timer w d s)) = f s"
  shows "f (snd (do_loop w p op l n s)) = (g ^^ nat (MaxAttempts p - n + 1)) (f s)"
  using assms(4)
proof (induction "nat (MaxAttempts p - n)" arbitrary: n l s)
  case 0
  then have n: "n = MaxAttempts p" by simp
  obtain s1 where op: "op s = (Some e, s1)" using assms(2) [of s] by (cases "op s") auto
  obtain e0 after where after: "as_retryable e = Some (e0, after)" using assms(3) by auto
  have "do_loop w p op l n s = (Some (Wrapf (attempts_text ''giving up after '' n) e []), s1)"
    using op after n assms(1) by (subst do_loop.simps) (simp add: calm_def)
  then show ?case using assms(5) [of s] op n by simp
next
  case (Suc k)
  obtain s1 where op: "op s = (Some e, s1)" using assms(2) [of s] by (cases "op s") auto
  obtain e0 after where after: "as_retryable e = Some (e0, after)" using assms(3) by auto
  obtain d s2 where d: "delay w p n after s1 = (d, s2)" by fastforce
  obtain s3 where z: "sleep w d s2 = (None, s3)" using calm_sleep [OF assms(1), of d s2] by (cases "sleep w d s2") auto
  have less: "n < MaxAttempts p" using Suc by simp
  then have step: "do_loop w p op l n s = do_loop w p op (Some e) (n + 1) s3"
    using op after d z assms(1) by (subst do_loop.simps) (simp add: calm_def)
  have "f s1 = g (f s)" using assms(5) [of s] op by simp
  moreover have "f s2 = f s1" using d assms(6) by (auto simp: delay_def Let_def split: if_splits prod.splits) (metis snd_conv)
  moreover have "f s3 = f s2" using z assms(7) by (auto simp: sleep_def split: if_splits) (metis snd_conv)
  ultimately have f: "f s3 = g (f s)" by simp
  have "f (snd (do_loop w p op (Some e) (n + 1) s3)) = (g ^^ nat (MaxAttempts p - (n + 1) + 1)) (f s3)"
    using Suc(1) [of "n + 1" "Some e" s3] Suc(2) less by simp
  moreover have "nat (MaxAttempts p - n + 1) = Suc (nat (MaxAttempts p - (n + 1) + 1))" using less by simp
  ultimately show ?case unfolding step f by (simp add: funpow_swap1)
qed

text \<open>
  Retries bypass the rate limit. In the order in which \<open>New\<close> wraps a provider the limiter is
  waited for once per call, and then every attempt of the retry loop asks the vendor
  without waiting again: a call that keeps failing with a retryable error is one wait
  followed by \<open>MaxAttempts\<close> requests, for any limiter that lets the call pass, rate and burst.
\<close>

theorem retries_bypass_the_limit:
  fixes env :: "'w world" and p :: "'w embedder"
  assumes "calm env" "\<And>w. fst (lim rps (max 1 burst) w) = None" "\<not> f64_le_zero rps" "texts \<noteq> []"
    "\<And>w. fst (Embed p texts kind w) = Inl e" "retryable e"
  shows "snd (snd (Embed (WithRateLimit (traced_limiter lim) (WithRetry (beside env) policy (traced_embedder p)) rps burst)
             texts kind (w, []))) =
    Waited # replicate (nat (max 1 (MaxAttempts policy))) Asked"
proof -
  let ?call = "\<lambda>(s, out :: Vector list). case Embed (traced_embedder p) texts kind s of
      (Inl e, s) \<Rightarrow> (Some e, s, []) | (Inr v, s) \<Rightarrow> (None, s, v)"
  obtain w1 where lim: "lim rps (max 1 burst) w = (None, w1)" using assms(2) [of w] by (cases "lim rps (max 1 burst) w") auto
  have m: "MaxAttempts (normalized policy) = max 1 (MaxAttempts policy)" by (simp add: normalized_def Let_def)
  have calm: "calm (beside (beside env))" by (intro calm_beside assms(1))
  have op: "fst (?call s) = Some e" "snd (fst (snd (?call s))) = snd (fst s) @ [Asked]" for s
    using assms(5) [of "fst (fst s)"]
    by (cases "Embed p texts kind (fst (fst s))"; simp add: traced_embedder_def case_prod_beta)+
  have "snd (fst (snd (do_loop (beside (beside env)) (normalized policy) ?call None 1 ((w1, [Waited]), [])))) =
      ((\<lambda>log. log @ [Asked]) ^^ nat (MaxAttempts (normalized policy) - 1 + 1)) (snd (fst ((w1, [Waited]), [] :: Vector list)))"
    by (rule do_loop_part [where f = "\<lambda>s. snd (fst s)" and g = "\<lambda>log. log @ [Asked]" and e = e], rule calm, rule op, rule assms(6))
      (simp add: m, rule op, simp_all add: beside_def case_prod_beta)
  moreover have "((\<lambda>log. log @ [Asked]) ^^ n) log = log @ replicate n Asked" for n log
    by (induction n arbitrary: log) (simp_all add: replicate_append_same)
  ultimately have run: "snd (fst (snd (Do (beside (beside env)) policy ?call ((w1, [Waited]), [])))) =
      Waited # replicate (nat (max 1 (MaxAttempts policy))) Asked"
    by (simp add: Do_def m)
  have "(if burst < 1 then 1 else burst) = max 1 burst" by simp
  then show ?thesis using assms(3,4) lim run
    by (simp add: WithRateLimit_def WithRetry_def limited_embed_def traced_limiter_def retry_call_def Let_def
        case_prod_beta split: option.splits)
qed

lemma retries_bypass_the_limit_witness:
  "snd (snd (Embed (WithRateLimit (traced_limiter (\<lambda>rps burst w. (None, w))) (WithRetry (beside calm_world) Default
       (traced_embedder \<lparr>Embed = \<lambda>texts kind w. (Inl (Retryable (Plain ''503'') second), w :: nat),
          embedSpace = \<lparr>spaceProvider = ''p'', spaceModel = ''m'', Dim = 1\<rparr>, MaxBatch = 1\<rparr>)) f64_one 1)
     [''a''] KindQuery (0, []))) = [Waited, Asked, Asked, Asked, Asked]"
proof -
  have "calm calm_world" by (simp add: calm_def calm_world_def)
  moreover have "\<not> f64_le_zero f64_one" by code_simp
  moreover have "MaxAttempts Default = 4" by (simp add: Default_def)
  ultimately show ?thesis
    by (subst retries_bypass_the_limit [where e = "Retryable (Plain ''503'') second"])
      (simp_all add: numeral_eq_Suc)
qed

end
