(* ===== verification/Chunk.thy ===== *)
theory Chunk
  imports GoError
begin

text \<open>
  \<open>internal/chunk/cut.go\<close>: a text is read as paragraphs (runs of non-blank lines) and the
  paragraphs are packed into chunks of at most \<open>chunkSize\<close> runes; a paragraph longer than
  that is cut by runes. The lemmas show the bound, that no visible rune is lost or moved,
  that UTF-8 validity is kept, and that the packing loop is the greedy grouping of
  paragraphs.
\<close>

section \<open>Model\<close>

text \<open>\<open>maxBuffSize\<close> of packages \<open>chunk\<close> and \<open>vault\<close>: 10 MiB.\<close>

definition maxBuffSize :: nat where
  "maxBuffSize = 10 * 1024 * 1024"

text \<open>The scanner loop of \<open>extractParagraphs\<close>: the paragraphs so far and \<open>curPara\<close>.\<close>

fun paragraph_loop :: "gostring list \<Rightarrow> gostring list \<Rightarrow> gostring \<Rightarrow> gostring list \<times> gostring" where
  "paragraph_loop [] paragraphs curPara = (paragraphs, curPara)"
| "paragraph_loop (line # ls) paragraphs curPara =
     (if trim_space line = [] then
        (if curPara \<noteq> [] then paragraph_loop ls (paragraphs @ [trim_space curPara]) []
         else paragraph_loop ls paragraphs curPara)
      else paragraph_loop ls paragraphs ((if curPara \<noteq> [] then curPara @ [newline] else curPara) @ line))"

definition extractParagraphs :: "gostring \<Rightarrow> gostring list result" where
  "extractParagraphs text =
     (let (ls, too_long) = scan_lines maxBuffSize text;
          (paragraphs, curPara) = paragraph_loop ls [] []
      in if too_long then Inl (wrap ''scanner read line'' (Sentinel ErrTooLong))
         else Inr (if curPara \<noteq> [] then paragraphs @ [trim_space curPara] else paragraphs))"

text \<open>\<open>splitByRunes\<close>: the loop runs on the rune slice; \<open>string(runes)\<close> encodes it again.\<close>

function split_runes :: "rune list \<Rightarrow> nat \<Rightarrow> gostring list" where
  "split_runes rs limit =
     (if limit = 0 \<or> length rs \<le> limit then (if rs \<noteq> [] then [of_runes rs] else [])
      else of_runes (take limit rs) # split_runes (drop limit rs) limit)"
  by pat_completeness auto
termination
  by (relation "measure (\<lambda>(rs, limit). length rs)") auto

declare split_runes.simps [simp del]

definition splitByRunes :: "gostring \<Rightarrow> nat \<Rightarrow> gostring list" where
  "splitByRunes s limit = split_runes (runes s) limit"

text \<open>
  The packing loop of \<open>Cut\<close>, one paragraph per step, over \<open>chunks\<close>, \<open>currentChunk\<close>
  and \<open>currentRunes\<close>.
\<close>

record packing =
  chunks :: "gostring list"
  currentChunk :: gostring
  currentRunes :: nat

definition cut_step :: "nat \<Rightarrow> packing \<Rightarrow> gostring \<Rightarrow> packing" where
  "cut_step chunkSize st p =
     (let pRunes = rune_count p in
      if pRunes > chunkSize then
        (let st = (if currentRunes st > 0
                   then st\<lparr>chunks := chunks st @ [currentChunk st], currentChunk := [], currentRunes := 0\<rparr>
                   else st)
         in st\<lparr>chunks := chunks st @ splitByRunes p chunkSize\<rparr>)
      else
        (let neededRunes = (if currentRunes st > 0 then pRunes + 2 else pRunes) in
         if currentRunes st + neededRunes \<le> chunkSize then
           st\<lparr>currentChunk := (if currentRunes st > 0 then currentChunk st @ [newline, newline]
                               else currentChunk st) @ p,
              currentRunes := currentRunes st + neededRunes\<rparr>
         else
           st\<lparr>chunks := chunks st @ [currentChunk st], currentChunk := p, currentRunes := pRunes\<rparr>))"

definition cut_paragraphs :: "gostring list \<Rightarrow> nat \<Rightarrow> gostring list" where
  "cut_paragraphs paragraphs chunkSize =
     (let st = foldl (cut_step chunkSize) \<lparr>chunks = [], currentChunk = [], currentRunes = 0\<rparr> paragraphs
      in if currentRunes st > 0 then chunks st @ [currentChunk st] else chunks st)"

definition Cut :: "gostring \<Rightarrow> int \<Rightarrow> gostring list result" where
  "Cut text chunkSize =
     (if chunkSize \<le> 0 then Inl (Sentinel ErrInvalidChunkSize)
      else let text = trim_space text in
        if text = [] then Inr []
        else case extractParagraphs text of
            Inl err \<Rightarrow> Inl (wrap ''extract paragraphs'' err)
          | Inr paragraphs \<Rightarrow>
              if paragraphs = [] then Inr []
              else Inr (cut_paragraphs paragraphs (nat chunkSize)))"

section \<open>Paragraphs\<close>

lemma paragraph_loop_blank [simp]:
  "trim_space line = [] \<Longrightarrow> paragraph_loop (line # ls) ps [] = paragraph_loop ls ps []"
  "trim_space line = [] \<Longrightarrow> cur \<noteq> [] \<Longrightarrow>
     paragraph_loop (line # ls) ps cur = paragraph_loop ls (ps @ [trim_space cur]) []"
  by simp_all

lemma paragraph_loop_text [simp]:
  "trim_space line \<noteq> [] \<Longrightarrow> paragraph_loop (line # ls) ps [] = paragraph_loop ls ps line"
  "trim_space line \<noteq> [] \<Longrightarrow> cur \<noteq> [] \<Longrightarrow>
     paragraph_loop (line # ls) ps cur = paragraph_loop ls ps (cur @ newline # line)"
  by simp_all

declare paragraph_loop.simps(2) [simp del]

text \<open>One line at a time: the four cases of the loop body as an induction rule.\<close>

lemma paragraph_loop_induct [case_names Nil Blank Flush First More]:
  assumes "\<And>ps cur. P [] ps cur"
    and "\<And>line ls ps. trim_space line = [] \<Longrightarrow> P ls ps [] \<Longrightarrow> P (line # ls) ps []"
    and "\<And>line ls ps cur. trim_space line = [] \<Longrightarrow> cur \<noteq> [] \<Longrightarrow>
           P ls (ps @ [trim_space cur]) [] \<Longrightarrow> P (line # ls) ps cur"
    and "\<And>line ls ps. trim_space line \<noteq> [] \<Longrightarrow> P ls ps line \<Longrightarrow> P (line # ls) ps []"
    and "\<And>line ls ps cur. trim_space line \<noteq> [] \<Longrightarrow> cur \<noteq> [] \<Longrightarrow>
           P ls ps (cur @ newline # line) \<Longrightarrow> P (line # ls) ps cur"
  shows "P ls ps cur"
proof (induction ls arbitrary: ps cur)
  case Nil
  show ?case by (rule assms(1))
next
  case (Cons line ls ps cur)
  show ?case
    by (cases "trim_space line = []"; cases "cur = []") (simp_all add: assms(2-5) Cons.IH)
qed

lemma paragraph_loop_ink:
  "paragraph_loop ls ps cur = (ps', cur') \<Longrightarrow>
     concat (map ink ps') @ ink cur' = concat (map ink ps) @ ink cur @ concat (map ink ls)"
  by (induction ls ps cur rule: paragraph_loop_induct) (simp_all add: trim_simps trim_space_eq_Nil)

text \<open>Every paragraph, and the pending one when it is not empty, has a visible rune.\<close>

lemma paragraph_loop_visible:
  "paragraph_loop ls ps cur = (ps', cur') \<Longrightarrow> \<forall>p\<in>set ps. ink p \<noteq> [] \<Longrightarrow> cur = [] \<or> ink cur \<noteq> [] \<Longrightarrow>
     (\<forall>p\<in>set ps'. ink p \<noteq> []) \<and> (cur' = [] \<or> ink cur' \<noteq> [])"
  by (induction ls ps cur rule: paragraph_loop_induct) (auto simp: trim_simps trim_space_eq_Nil)

lemma paragraph_loop_valid:
  "paragraph_loop ls ps cur = (ps', cur') \<Longrightarrow> \<forall>p\<in>set ps \<union> set ls. valid_utf8 p \<Longrightarrow> valid_utf8 cur \<Longrightarrow>
     (\<forall>p\<in>set ps'. valid_utf8 p) \<and> valid_utf8 cur'"
  by (induction ls ps cur rule: paragraph_loop_induct) (simp_all add: trim_simps valid_utf8_sep)

lemma extractParagraphs_error:
  "extractParagraphs text = Inl e \<longleftrightarrow>
     snd (scan_lines maxBuffSize text) \<and> e = wrap ''scanner read line'' (Sentinel ErrTooLong)"
  by (auto simp: extractParagraphs_def split: prod.splits)

lemma extractParagraphs_too_long:
  "snd (scan_lines maxBuffSize text) \<Longrightarrow>
     extractParagraphs text = Inl (wrap ''scanner read line'' (Sentinel ErrTooLong))"
  by (simp add: extractParagraphs_error)

lemma extractParagraphs_ink:
  assumes "extractParagraphs text = Inr ps"
  shows "concat (map ink ps) = ink text"
proof -
  obtain ls ps' cur' where s: "scan_lines maxBuffSize text = (ls, False)"
    and l: "paragraph_loop ls [] [] = (ps', cur')"
    and ps: "ps = (if cur' \<noteq> [] then ps' @ [trim_space cur'] else ps')"
    using assms by (auto simp: extractParagraphs_def split: prod.splits if_splits)
  have "concat (map ink ps') @ ink cur' = concat (map ink ls)"
    using paragraph_loop_ink [OF l] by simp
  also have "\<dots> = ink text" using scan_lines_ink [of maxBuffSize "text"] s by simp
  finally show ?thesis using ps by (auto simp: trim_simps)
qed

lemma extractParagraphs_visible:
  assumes "extractParagraphs text = Inr ps" "p \<in> set ps"
  shows "ink p \<noteq> []"
proof -
  obtain ls ps' cur' where l: "paragraph_loop ls [] [] = (ps', cur')"
    and ps: "ps = (if cur' \<noteq> [] then ps' @ [trim_space cur'] else ps')"
    using assms by (auto simp: extractParagraphs_def split: prod.splits if_splits)
  show ?thesis
    using paragraph_loop_visible [OF l] ps assms(2) by (auto simp: trim_simps split: if_splits)
qed

lemma extractParagraphs_valid:
  assumes "extractParagraphs text = Inr ps" "valid_utf8 text" "p \<in> set ps"
  shows "valid_utf8 p"
proof -
  obtain ls tl ps' cur' where s: "scan_lines maxBuffSize text = (ls, tl)"
    and l: "paragraph_loop ls [] [] = (ps', cur')"
    and ps: "ps = (if cur' \<noteq> [] then ps' @ [trim_space cur'] else ps')"
    using assms by (auto simp: extractParagraphs_def split: prod.splits if_splits)
  have "\<forall>l\<in>set ls. valid_utf8 l" using scan_lines_valid [OF assms(2)] s by (metis fst_conv)
  then show ?thesis
    using paragraph_loop_valid [OF l] ps assms(3) by (auto simp: trim_simps split: if_splits)
qed

lemma ink_rune_count: "ink p \<noteq> [] \<Longrightarrow> 0 < rune_count p"
  by (cases "p = []") (auto simp: zero_less_iff_neq_zero)

section \<open>Cutting by runes\<close>

lemma split_runes_bound:
  "0 < limit \<Longrightarrow> c \<in> set (split_runes rs limit) \<Longrightarrow> 1 \<le> rune_count c \<and> rune_count c \<le> limit"
proof (induction rs limit rule: split_runes.induct)
  case (1 rs limit)
  then show ?case
    by (cases "length rs \<le> limit")
      (auto simp: split_runes.simps [of rs limit] Suc_le_eq split: if_splits)
qed

lemma split_runes_runes:
  "0 < limit \<Longrightarrow> concat (map runes (split_runes rs limit)) = map fix_rune rs"
proof (induction rs limit rule: split_runes.induct)
  case (1 rs limit)
  show ?case
  proof (cases "length rs \<le> limit")
    case True
    then show ?thesis by (simp add: split_runes.simps [of rs limit] runes_of_runes)
  next
    case False
    then show ?thesis
      using 1 by (simp add: split_runes.simps [of rs limit] runes_of_runes map_append [symmetric] del: map_append)
  qed
qed

text \<open>All parts but the last are exactly \<open>limit\<close> runes long.\<close>

lemma split_runes_full:
  "0 < limit \<Longrightarrow> c \<in> set (butlast (split_runes rs limit)) \<Longrightarrow> rune_count c = limit"
proof (induction rs limit rule: split_runes.induct)
  case (1 rs limit)
  show ?case
  proof (cases "length rs \<le> limit")
    case True
    then show ?thesis using 1 by (simp add: split_runes.simps [of rs limit] split: if_splits)
  next
    case False
    then show ?thesis
      using 1 by (auto simp: split_runes.simps [of rs limit] min_absorb2 split: if_splits)
  qed
qed

lemma split_runes_valid: "c \<in> set (split_runes rs limit) \<Longrightarrow> valid_utf8 c"
proof (induction rs limit rule: split_runes.induct)
  case (1 rs limit)
  then show ?case
    by (auto simp: split_runes.simps [of rs limit] valid_utf8_of_runes split: if_splits)
qed

lemma splitByRunes_runes: "0 < limit \<Longrightarrow> concat (map runes (splitByRunes p limit)) = runes p"
  by (simp add: splitByRunes_def split_runes_runes)

lemma splitByRunes_ink: "0 < limit \<Longrightarrow> concat (map ink (splitByRunes p limit)) = ink p"
proof -
  assume "0 < limit"
  have "concat (map ink ps) = filter (\<lambda>r. \<not> is_space r) (concat (map runes ps))" for ps
    by (induction ps) (simp_all add: ink_def)
  then show ?thesis using splitByRunes_runes [OF \<open>0 < limit\<close>, of p] by (simp add: ink_def)
qed

section \<open>Packing\<close>

definition packing_inv :: "nat \<Rightarrow> packing \<Rightarrow> bool" where
  "packing_inv lim st \<longleftrightarrow>
     currentRunes st = rune_count (currentChunk st) \<and> currentRunes st \<le> lim \<and>
     (\<forall>c\<in>set (chunks st). 1 \<le> rune_count c \<and> rune_count c \<le> lim)"

lemma rune_count_blank_line [utf8_simps]:
  "rune_count (s @ newline # newline # t) = rune_count s + 2 + rune_count t"
  by (simp add: utf8_simps)

lemma cut_step_inv [inv_intros]:
  assumes "0 < lim" "packing_inv lim st" "p \<noteq> []"
  shows "packing_inv lim (cut_step lim st p)"
proof (cases "rune_count p > lim")
  case True
  then show ?thesis
    using assms split_runes_bound [of lim _ "runes p"]
    by (auto simp: cut_step_def packing_inv_def splitByRunes_def utf8_simps)
next
  case False
  then show ?thesis
    using assms by (auto simp: cut_step_def packing_inv_def Let_def utf8_simps Suc_le_eq)
qed

lemma cut_fold_inv:
  "0 < lim \<Longrightarrow> packing_inv lim st \<Longrightarrow> \<forall>p\<in>set ps. p \<noteq> [] \<Longrightarrow> packing_inv lim (foldl (cut_step lim) st ps)"
  by (rule foldl_invariant) (simp_all add: inv_intros)

abbreviation packing_init :: packing where
  "packing_init \<equiv> \<lparr>chunks = [], currentChunk = [], currentRunes = 0\<rparr>"

lemma packing_inv_init [simp]: "packing_inv lim packing_init"
  by (simp add: packing_inv_def utf8_simps)

lemma cut_paragraphs_bound:
  assumes "0 < lim" "\<forall>p\<in>set ps. p \<noteq> []" "c \<in> set (cut_paragraphs ps lim)"
  shows "1 \<le> rune_count c \<and> rune_count c \<le> lim"
  using cut_fold_inv [OF assms(1) packing_inv_init assms(2)] assms(3)
  by (auto simp: cut_paragraphs_def packing_inv_def Let_def Suc_le_eq split: if_splits)

text \<open>The visible runes of the state: what is in the chunks and what is being collected.\<close>

lemma cut_step_ink:
  assumes "0 < lim" "packing_inv lim st"
  shows "concat (map ink (chunks (cut_step lim st p))) @ ink (currentChunk (cut_step lim st p))
    = concat (map ink (chunks st)) @ ink (currentChunk st) @ ink p"
  using assms
  by (auto simp: cut_step_def packing_inv_def Let_def splitByRunes_ink trim_simps)

lemma cut_fold_ink:
  assumes "0 < lim" "packing_inv lim st" "\<forall>p\<in>set ps. p \<noteq> []"
  shows "concat (map ink (chunks (foldl (cut_step lim) st ps))) @ ink (currentChunk (foldl (cut_step lim) st ps))
    = concat (map ink (chunks st)) @ ink (currentChunk st) @ concat (map ink ps)"
  using assms
proof (induction ps arbitrary: st)
  case (Cons p ps)
  then show ?case using cut_step_ink [of lim st p] by (simp add: inv_intros)
qed simp

lemma cut_paragraphs_ink:
  assumes "0 < lim" "\<forall>p\<in>set ps. p \<noteq> []"
  shows "concat (map ink (cut_paragraphs ps lim)) = concat (map ink ps)"
  using cut_fold_ink [OF assms(1) packing_inv_init assms(2)] cut_fold_inv [OF assms(1) packing_inv_init assms(2)]
  by (auto simp: cut_paragraphs_def Let_def packing_inv_def)

definition packing_valid :: "packing \<Rightarrow> bool" where
  "packing_valid st \<longleftrightarrow> (\<forall>c\<in>set (chunks st). valid_utf8 c) \<and> valid_utf8 (currentChunk st)"

lemma cut_step_valid:
  assumes "packing_inv lim st" "packing_valid st" "valid_utf8 p"
  shows "packing_valid (cut_step lim st p)"
  using assms split_runes_valid
  by (auto simp: cut_step_def Let_def splitByRunes_def packing_valid_def packing_inv_def
      valid_utf8_sep valid_utf8_ascii_Cons)

lemma cut_paragraphs_valid:
  assumes "0 < lim" "\<forall>p\<in>set ps. p \<noteq> [] \<and> valid_utf8 p"
  shows "\<forall>c\<in>set (cut_paragraphs ps lim). valid_utf8 c"
proof -
  have "packing_inv lim (foldl (cut_step lim) packing_init ps) \<and>
        packing_valid (foldl (cut_step lim) packing_init ps)"
    by (rule foldl_invariant [where P = "\<lambda>st. packing_inv lim st \<and> packing_valid st"])
      (use assms in \<open>simp_all add: inv_intros cut_step_valid, simp add: packing_valid_def\<close>)
  then show ?thesis by (auto simp: cut_paragraphs_def Let_def packing_valid_def)
qed

section \<open>The greedy grouping the loop computes\<close>

text \<open>
  The specification: the paragraphs are split into consecutive groups. A group is a single
  oversized paragraph, or paragraphs that fit together; two neighbouring groups that fit
  could not have shared their first paragraph.
\<close>

definition render :: "gostring list \<Rightarrow> gostring" where
  "render g = join [newline, newline] g"

definition oversized :: "nat \<Rightarrow> gostring list \<Rightarrow> bool" where
  "oversized lim g \<longleftrightarrow> length g = 1 \<and> rune_count (hd g) > lim"

fun greedy :: "nat \<Rightarrow> gostring list list \<Rightarrow> bool" where
  "greedy lim [] = True"
| "greedy lim [g] = (g \<noteq> [] \<and> (oversized lim g \<or> rune_count (render g) \<le> lim))"
| "greedy lim (g # h # gs) =
     (g \<noteq> [] \<and> (oversized lim g \<or> rune_count (render g) \<le> lim) \<and> h \<noteq> [] \<and>
      (oversized lim g \<or> oversized lim h \<or> rune_count (render (g @ [hd h])) > lim) \<and>
      greedy lim (h # gs))"

definition group_chunks :: "nat \<Rightarrow> gostring list \<Rightarrow> gostring list" where
  "group_chunks lim g = (if oversized lim g then splitByRunes (hd g) lim else [render g])"

lemma render_single [simp]: "render [p] = p"
  by (simp add: render_def)

lemma render_snoc: "g \<noteq> [] \<Longrightarrow> render (g @ [p]) = render g @ newline # newline # p"
  by (simp add: render_def join_snoc)

text \<open>A group list with its last group still open, as the loop holds it.\<close>

lemma greedy_snoc:
  "gs \<noteq> [] \<Longrightarrow> greedy lim (gs @ [h]) \<longleftrightarrow>
     greedy lim gs \<and> h \<noteq> [] \<and> (oversized lim h \<or> rune_count (render h) \<le> lim) \<and>
     (oversized lim (last gs) \<or> oversized lim h \<or> rune_count (render (last gs @ [hd h])) > lim)"
  by (induction lim gs rule: greedy.induct) auto

definition loop_groups :: "nat \<Rightarrow> packing \<Rightarrow> gostring list list \<Rightarrow> bool" where
  "loop_groups lim st gs \<longleftrightarrow>
     greedy lim gs \<and>
     (if currentRunes st = 0
      then chunks st = concat (map (group_chunks lim) gs) \<and> (gs = [] \<or> oversized lim (last gs))
      else gs \<noteq> [] \<and> \<not> oversized lim (last gs) \<and> currentChunk st = render (last gs) \<and>
           chunks st = concat (map (group_chunks lim) (butlast gs)))"

lemma oversized_single: "oversized lim [p] \<longleftrightarrow> rune_count p > lim"
  by (simp add: oversized_def)

lemma oversized_longer: "g \<noteq> [] \<Longrightarrow> \<not> oversized lim (g @ [p])"
  by (simp add: oversized_def)

lemma greedy_extend:
  assumes "greedy lim (gs @ [g])" "g \<noteq> []" "\<not> oversized lim g" "rune_count (render (g @ [p])) \<le> lim"
  shows "greedy lim (gs @ [g @ [p]])"
  using assms by (cases "gs = []") (auto simp: greedy_snoc oversized_longer)

lemma greedy_nonempty: "greedy lim gs \<Longrightarrow> g \<in> set gs \<Longrightarrow> g \<noteq> []"
  by (induction lim gs rule: greedy.induct) auto

lemma group_chunks_last:
  "gs \<noteq> [] \<Longrightarrow> \<not> oversized lim (last gs) \<Longrightarrow>
     concat (map (group_chunks lim) gs) = concat (map (group_chunks lim) (butlast gs)) @ [render (last gs)]"
  by (induction gs rule: rev_induct) (auto simp: group_chunks_def)

lemma cut_step_groups:
  assumes "packing_inv lim st" "loop_groups lim st gs" "p \<noteq> []"
  shows "\<exists>gs'. loop_groups lim (cut_step lim st p) gs' \<and> concat gs' = concat gs @ [p]"
proof -
  have cur: "currentRunes st = rune_count (currentChunk st)" using assms(1) by (simp add: packing_inv_def)
  consider (long) "rune_count p > lim"
    | (first) "rune_count p \<le> lim" "currentRunes st = 0"
    | (join) "rune_count p \<le> lim" "0 < currentRunes st" "currentRunes st + (rune_count p + 2) \<le> lim"
    | (flush) "rune_count p \<le> lim" "0 < currentRunes st" "lim < currentRunes st + (rune_count p + 2)"
    by linarith
  then show ?thesis
  proof cases
    case long
    have "loop_groups lim (cut_step lim st p) (gs @ [[p]])"
      using assms(2) long group_chunks_last [of gs lim]
      by (cases "gs = []") (auto simp: loop_groups_def cut_step_def Let_def greedy_snoc oversized_single
          group_chunks_def [of lim "[p]"] split: if_splits)
    then show ?thesis by (intro exI [of _ "gs @ [[p]]"]) simp
  next
    case first
    have "loop_groups lim (cut_step lim st p) (gs @ [[p]])"
      using assms first cur
      by (cases "gs = []")
        (auto simp: loop_groups_def cut_step_def Let_def greedy_snoc oversized_single utf8_simps)
    then show ?thesis by (intro exI [of _ "gs @ [[p]]"]) simp
  next
    case join
    have ne: "gs \<noteq> []" and g: "\<not> oversized lim (last gs)" "currentChunk st = render (last gs)"
      "chunks st = concat (map (group_chunks lim) (butlast gs))" "greedy lim gs"
      using assms(2) join by (auto simp: loop_groups_def)
    obtain gs0 h where gs: "gs = gs0 @ [h]" using ne by (cases gs rule: rev_cases) auto
    have h: "h \<noteq> []" using g(4) greedy_nonempty gs by fastforce
    have "rune_count (render (h @ [p])) \<le> lim"
      using join cur g(2) gs h by (simp add: render_snoc utf8_simps)
    then have "greedy lim (gs0 @ [h @ [p]])"
      using g(1,4) gs h by (intro greedy_extend) auto
    then have "loop_groups lim (cut_step lim st p) (gs0 @ [h @ [p]])"
      using g gs h join cur
      by (auto simp: loop_groups_def cut_step_def Let_def oversized_longer render_snoc)
    then show ?thesis using gs by (intro exI [of _ "gs0 @ [h @ [p]]"]) simp
  next
    case flush
    have ne: "gs \<noteq> []" and g: "\<not> oversized lim (last gs)" "currentChunk st = render (last gs)"
      "chunks st = concat (map (group_chunks lim) (butlast gs))" "greedy lim gs"
      using assms(2) flush by (auto simp: loop_groups_def)
    have "last gs \<noteq> []" using g(4) ne greedy_nonempty last_in_set by blast
    then have "lim < rune_count (render (last gs @ [p]))"
      using flush cur g(2) by (simp add: render_snoc utf8_simps)
    then have "greedy lim (gs @ [[p]])"
      using ne g(4) flush(1) by (simp add: greedy_snoc)
    then have "loop_groups lim (cut_step lim st p) (gs @ [[p]])"
      using ne g flush assms(3) group_chunks_last [OF ne g(1)]
      by (auto simp: loop_groups_def cut_step_def Let_def oversized_single)
    then show ?thesis by (intro exI [of _ "gs @ [[p]]"]) simp
  qed
qed

lemma cut_fold_groups:
  assumes "0 < lim" "packing_inv lim st" "loop_groups lim st gs" "\<forall>p\<in>set ps. p \<noteq> []"
  shows "\<exists>gs'. loop_groups lim (foldl (cut_step lim) st ps) gs' \<and> concat gs' = concat gs @ ps"
  using assms
proof (induction ps arbitrary: st gs)
  case (Cons p ps)
  then obtain gs1 where "loop_groups lim (cut_step lim st p) gs1" "concat gs1 = concat gs @ [p]"
    using cut_step_groups [of lim st gs p] by auto
  with Cons show ?case using Cons.IH [of "cut_step lim st p" gs1] by (simp add: inv_intros)
qed auto

lemma cut_paragraphs_greedy:
  assumes "0 < lim" "\<forall>p\<in>set ps. p \<noteq> []"
  shows "\<exists>gs. concat gs = ps \<and> greedy lim gs \<and> cut_paragraphs ps lim = concat (map (group_chunks lim) gs)"
proof -
  have "loop_groups lim packing_init []" by (simp add: loop_groups_def)
  from cut_fold_groups [OF assms(1) packing_inv_init this assms(2)] obtain gs
    where gs: "loop_groups lim (foldl (cut_step lim) packing_init ps) gs" "concat gs = ps" by auto
  then have "greedy lim gs" "cut_paragraphs ps lim = concat (map (group_chunks lim) gs)"
    using group_chunks_last [of gs lim]
    by (auto simp: loop_groups_def cut_paragraphs_def Let_def split: if_splits)
  with gs(2) show ?thesis by blast
qed

section \<open>Properties of \<open>Cut\<close>\<close>

text \<open>How \<open>Cut\<close> succeeds: the cases its callers see.\<close>

lemma Cut_cases:
  assumes "Cut text chunkSize = Inr cs"
  obtains ps where "0 < chunkSize" "extractParagraphs (trim_space text) = Inr ps"
    "cs = cut_paragraphs ps (nat chunkSize)" "\<forall>p\<in>set ps. p \<noteq> [] \<and> ink p \<noteq> []"
    "concat (map ink ps) = ink text"
proof -
  have pos: "0 < chunkSize" using assms by (auto simp: Cut_def split: if_splits)
  have empty: "extractParagraphs [] = Inr []" by (simp add: extractParagraphs_def)
  obtain ps where ps: "extractParagraphs (trim_space text) = Inr ps" "cs = cut_paragraphs ps (nat chunkSize)"
    using assms pos empty
    by (auto simp: Cut_def Let_def cut_paragraphs_def split: if_splits sum.splits)
  have "\<forall>p\<in>set ps. ink p \<noteq> []" using extractParagraphs_visible [OF ps(1)] by blast
  moreover from this have "\<forall>p\<in>set ps. p \<noteq> []" by auto
  ultimately show ?thesis
    using that [OF pos ps] extractParagraphs_ink [OF ps(1)] by (simp add: trim_simps)
qed

text \<open>
  C23. A successful \<open>Cut\<close> loses, adds and moves no visible rune: the non-blank runes of the
  chunks, one after the other, are the non-blank runes of the text, for arbitrary bytes.
\<close>

theorem Cut_preserves_ink:
  assumes "Cut text chunkSize = Inr cs"
  shows "concat (map ink cs) = ink text"
  using assms
proof (rule Cut_cases)
  fix ps
  assume "0 < chunkSize" "cs = cut_paragraphs ps (nat chunkSize)" "\<forall>p\<in>set ps. p \<noteq> [] \<and> ink p \<noteq> []"
    "concat (map ink ps) = ink text"
  then show ?thesis using cut_paragraphs_ink [of "nat chunkSize" ps] by simp
qed

lemma Cut_preserves_ink_witness:
  "Cut ''ab  c\<newline>\<newline>d'' 3 = Inr [''ab '', '' c'', ''d''] \<and>
   concat (map ink [''ab '', '' c'', ''d'']) = ink ''ab  c\<newline>\<newline>d''"
proof -
  have "Cut ''ab  c\<newline>\<newline>d'' 3 = Inr [''ab '', '' c'', ''d'']" by code_simp
  then show ?thesis using Cut_preserves_ink by blast
qed

text \<open>
  C24. Every chunk of a successful \<open>Cut\<close> has at least one and at most \<open>chunkSize\<close> runes,
  and is valid UTF-8 when the text is.
\<close>

theorem Cut_chunk_bounds:
  assumes "Cut text chunkSize = Inr cs" "c \<in> set cs"
  shows "1 \<le> rune_count c \<and> int (rune_count c) \<le> chunkSize \<and> (valid_utf8 text \<longrightarrow> valid_utf8 c)"
  using assms(1)
proof (rule Cut_cases)
  fix ps
  assume ps: "0 < chunkSize" "extractParagraphs (trim_space text) = Inr ps"
    "cs = cut_paragraphs ps (nat chunkSize)" "\<forall>p\<in>set ps. p \<noteq> [] \<and> ink p \<noteq> []"
  have "1 \<le> rune_count c \<and> rune_count c \<le> nat chunkSize"
    using cut_paragraphs_bound [of "nat chunkSize" ps c] ps assms(2) by simp
  moreover have "valid_utf8 c" if v: "valid_utf8 text"
  proof -
    have "\<forall>p\<in>set ps. p \<noteq> [] \<and> valid_utf8 p"
      using ps(4) extractParagraphs_valid [OF ps(2) valid_utf8_trim_space [OF v]] by blast
    then show ?thesis using cut_paragraphs_valid [of "nat chunkSize" ps] ps(1,3) assms(2) by simp
  qed
  ultimately show ?thesis using ps(1) by (simp add: nat_le_iff le_nat_iff)
qed

lemma Cut_chunk_bounds_witness:
  "Cut ''ab\<newline>\<newline>c'' 5 = Inr [''ab\<newline>\<newline>c''] \<and> 1 \<le> rune_count ''ab\<newline>\<newline>c'' \<and> int (rune_count ''ab\<newline>\<newline>c'') \<le> 5"
proof -
  have cut: "Cut ''ab\<newline>\<newline>c'' 5 = Inr [''ab\<newline>\<newline>c'']" by code_simp
  show ?thesis using cut Cut_chunk_bounds [OF cut, of "''ab\<newline>\<newline>c''"] by simp
qed

text \<open>
  C25. The chunks are the greedy grouping of the paragraphs: consecutive groups, each a
  single oversized paragraph cut by runes or whole paragraphs joined by a blank line within
  the limit, and no group could have taken the first paragraph of the next one.
\<close>

theorem Cut_greedy:
  assumes "Cut text chunkSize = Inr cs"
  shows "\<exists>ps gs. extractParagraphs (trim_space text) = Inr ps \<and> concat gs = ps \<and>
    greedy (nat chunkSize) gs \<and> cs = concat (map (group_chunks (nat chunkSize)) gs)"
  using assms
proof (rule Cut_cases)
  fix ps
  assume "0 < chunkSize" "extractParagraphs (trim_space text) = Inr ps"
    "cs = cut_paragraphs ps (nat chunkSize)" "\<forall>p\<in>set ps. p \<noteq> [] \<and> ink p \<noteq> []"
  then show ?thesis using cut_paragraphs_greedy [of "nat chunkSize" ps] by auto
qed

lemma Cut_greedy_witness:
  "\<exists>ps gs. extractParagraphs (trim_space ''a\<newline>\<newline>b\<newline>\<newline>long'') = Inr ps \<and> concat gs = ps \<and>
    greedy 4 gs \<and> [''a\<newline>\<newline>b'', ''long''] = concat (map (group_chunks 4) gs)"
proof -
  have "Cut ''a\<newline>\<newline>b\<newline>\<newline>long'' 4 = Inr [''a\<newline>\<newline>b'', ''long'']" by code_simp
  from Cut_greedy [OF this] show ?thesis by simp
qed

text \<open>
  \<open>Cut\<close> fails in exactly two ways: with \<open>ErrInvalidChunkSize\<close> for a size below one,
  whatever the text, and otherwise when a line of the trimmed text fills the scanner's
  buffer. In every other case it returns chunks, and none for a blank text.
\<close>

theorem Cut_outcomes:
  "(chunkSize \<le> 0 \<longrightarrow> Cut text chunkSize = Inl (Sentinel ErrInvalidChunkSize)) \<and>
   (0 < chunkSize \<and> snd (scan_lines maxBuffSize (trim_space text)) \<longrightarrow>
      Cut text chunkSize = Inl (wrap ''extract paragraphs'' (wrap ''scanner read line'' (Sentinel ErrTooLong)))) \<and>
   (0 < chunkSize \<and> \<not> snd (scan_lines maxBuffSize (trim_space text)) \<longrightarrow>
      (\<exists>cs. Cut text chunkSize = Inr cs \<and> (cs = [] \<longleftrightarrow> trim_space text = [])))"
proof (intro conjI impI)
  assume h: "0 < chunkSize \<and> \<not> snd (scan_lines maxBuffSize (trim_space text))"
  then have "\<exists>cs. Cut text chunkSize = Inr cs"
    using extractParagraphs_error [of "trim_space text"]
    by (cases "extractParagraphs (trim_space text)") (auto simp: Cut_def Let_def)
  then obtain cs where cs: "Cut text chunkSize = Inr cs" by blast
  from cs have ink: "concat (map ink cs) = ink text"
  proof (rule Cut_cases)
    fix ps
    assume "0 < chunkSize" "cs = cut_paragraphs ps (nat chunkSize)" "\<forall>p\<in>set ps. p \<noteq> [] \<and> ink p \<noteq> []"
      "concat (map ink ps) = ink text"
    then show ?thesis using cut_paragraphs_ink [of "nat chunkSize" ps] by simp
  qed
  have "cs = []" if "trim_space text = []" using cs that by (simp add: Cut_def split: if_splits)
  moreover have "trim_space text = []" if "cs = []" using ink that by (simp add: trim_space_eq_Nil)
  ultimately show "\<exists>cs. Cut text chunkSize = Inr cs \<and> (cs = [] \<longleftrightarrow> trim_space text = [])"
    using cs by blast
qed (auto simp: Cut_def Let_def extractParagraphs_too_long)

lemma Cut_outcomes_witness:
  "Cut ''text'' 0 = Inl (Sentinel ErrInvalidChunkSize) \<and> (\<exists>cs. Cut ''text'' 3 = Inr cs \<and> cs \<noteq> [])"
proof -
  have "\<not> snd (scan_lines maxBuffSize (trim_space ''text''))" "trim_space ''text'' \<noteq> []" by code_simp+
  then show ?thesis using Cut_outcomes [of 0 "''text''"] Cut_outcomes [of 3 "''text''"] by auto
qed

end
