(* ===== verification/Vault.thy ===== *)
theory Vault
  imports Chunk
begin

text \<open>
  \<open>internal/vault\<close> and \<open>internal/model\<close>: the frontmatter parser (a scanner loop with
  early returns) and the directory walk that collects notes and skipped files. The lemmas
  give the parser's specification, its round trip on well-formed notes, and the exact
  result of a scan in terms of the files of the tree.
\<close>

section \<open>Frontmatter\<close>

record yamlInfo =
  Title :: gostring
  Body :: gostring

text \<open>The local variables of the scanner loop of \<open>yamlParser\<close>.\<close>

record yaml_state =
  foundStart :: bool
  inFrontmatter :: bool
  bodyStarted :: bool
  title :: gostring
  body :: gostring

definition bom :: gostring where
  "bom = [CHR 0xEF, CHR 0xBB, CHR 0xBF]"

abbreviation dashes :: gostring where
  "dashes \<equiv> ''---''"

text \<open>One line inside the frontmatter: only the key \<open>title\<close> is read.\<close>

definition frontmatter_line :: "(rune \<Rightarrow> rune) \<Rightarrow> gostring \<Rightarrow> gostring \<Rightarrow> gostring" where
  "frontmatter_line ul trimmedLine old =
     (let (key, val, ok) = cut_at (CHR '':'') trimmedLine in
      if \<not> ok then old
      else (let key = to_lower ul (trim_space key);
                val = trim_cutset [CHR 0x22, CHR 0x27] (trim_space val)
            in if key = ''title'' then val else old))"

text \<open>The loop: \<open>Inl\<close> is the early return of a text without frontmatter.\<close>

fun yaml_loop :: "(rune \<Rightarrow> rune) \<Rightarrow> gostring \<Rightarrow> gostring list \<Rightarrow> yaml_state \<Rightarrow> yamlInfo + yaml_state" where
  "yaml_loop ul text [] st = Inr st"
| "yaml_loop ul text (rawLine # ls) st =
     (let trimmedLine = trim_space rawLine in
      if bodyStarted st then
        yaml_loop ul text ls (st\<lparr>body := body st @ rawLine @ [newline]\<rparr>)
      else if \<not> foundStart st then
        (if trimmedLine = dashes then
           yaml_loop ul text ls (st\<lparr>foundStart := True, inFrontmatter := True\<rparr>)
         else Inl \<lparr>Title = title st, Body = trim_space text\<rparr>)
      else if inFrontmatter st \<and> trimmedLine = dashes then
        yaml_loop ul text ls (st\<lparr>inFrontmatter := False, bodyStarted := True\<rparr>)
      else if inFrontmatter st then
        yaml_loop ul text ls (st\<lparr>title := frontmatter_line ul trimmedLine (title st)\<rparr>)
      else yaml_loop ul text ls st)"

definition yaml_init :: yaml_state where
  "yaml_init = \<lparr>foundStart = False, inFrontmatter = False, bodyStarted = False, title = [], body = []\<rparr>"

definition yamlParser :: "(rune \<Rightarrow> rune) \<Rightarrow> gostring \<Rightarrow> yamlInfo result" where
  "yamlParser ul text =
     (let text = trim_prefix bom text;
          (ls, too_long) = scan_lines maxBuffSize text
      in case yaml_loop ul text ls yaml_init of
           Inl yaml \<Rightarrow> Inr yaml
         | Inr st \<Rightarrow>
             if too_long then Inl (wrap ''scanner error'' (Sentinel ErrTooLong))
             else if inFrontmatter st then Inl (Sentinel ErrUnclosedFrontmatter)
             else Inr \<lparr>Title = title st, Body = trim_space (body st)\<rparr>)"

section \<open>Specification of the parser\<close>

text \<open>The last \<open>title\<close> entry of a block wins; a line without a colon says nothing.\<close>

definition block_title :: "(rune \<Rightarrow> rune) \<Rightarrow> gostring list \<Rightarrow> gostring" where
  "block_title ul block = foldl (\<lambda>t l. frontmatter_line ul (trim_space l) t) [] block"

definition yaml_spec :: "(rune \<Rightarrow> rune) \<Rightarrow> gostring \<Rightarrow> gostring list \<Rightarrow> bool \<Rightarrow> yamlInfo result" where
  "yaml_spec ul text ls too_long =
     (case ls of
        [] \<Rightarrow> if too_long then Inl (wrap ''scanner error'' (Sentinel ErrTooLong)) else Inr \<lparr>Title = [], Body = []\<rparr>
      | l # rest \<Rightarrow>
          if trim_space l \<noteq> dashes then Inr \<lparr>Title = [], Body = trim_space text\<rparr>
          else (let block = takeWhile (\<lambda>l. trim_space l \<noteq> dashes) rest;
                    after = dropWhile (\<lambda>l. trim_space l \<noteq> dashes) rest
                in if too_long then Inl (wrap ''scanner error'' (Sentinel ErrTooLong))
                   else if after = [] then Inl (Sentinel ErrUnclosedFrontmatter)
                   else Inr \<lparr>Title = block_title ul block, Body = trim_space (unlines (tl after))\<rparr>))"

lemma yaml_loop_body:
  "bodyStarted st \<Longrightarrow> yaml_loop ul text ls st = Inr (st\<lparr>body := body st @ unlines ls\<rparr>)"
  by (induction ls arbitrary: st) simp_all

lemma yaml_loop_block:
  assumes "foundStart st" "inFrontmatter st" "\<not> bodyStarted st"
  shows "yaml_loop ul text ls st =
    Inr (let block = takeWhile (\<lambda>l. trim_space l \<noteq> dashes) ls;
             after = dropWhile (\<lambda>l. trim_space l \<noteq> dashes) ls;
             t = foldl (\<lambda>t l. frontmatter_line ul (trim_space l) t) (title st) block
         in if after = [] then st\<lparr>title := t\<rparr>
            else st\<lparr>inFrontmatter := False, bodyStarted := True, title := t, body := body st @ unlines (tl after)\<rparr>)"
  using assms
proof (induction ls arbitrary: st)
  case (Cons l ls)
  show ?case
  proof (cases "trim_space l = dashes")
    case True
    then show ?thesis using Cons.prems by (simp add: yaml_loop_body)
  next
    case False
    then show ?thesis using Cons.prems Cons.IH by (simp add: Let_def)
  qed
qed simp

lemma yamlParser_spec_lines:
  "yamlParser ul text =
     yaml_spec ul (trim_prefix bom text) (fst (scan_lines maxBuffSize (trim_prefix bom text)))
       (snd (scan_lines maxBuffSize (trim_prefix bom text)))"
proof (cases "scan_lines maxBuffSize (trim_prefix bom text)")
  case (Pair ls tl)
  show ?thesis
  proof (cases ls)
    case Nil
    then show ?thesis using Pair by (simp add: yamlParser_def yaml_spec_def yaml_init_def)
  next
    case (Cons l rest)
    then show ?thesis
      using Pair
      by (cases "trim_space l = dashes")
        (simp_all add: yamlParser_def yaml_spec_def yaml_init_def yaml_loop_block block_title_def Let_def)
  qed
qed

text \<open>
  C26. The parser's loop with its three flags computes the format's meaning: without an
  opening line of dashes the whole text is the body; otherwise the lines up to the next
  line of dashes are the block, its last title entry is the title, and the lines after it
  are the body; a block that is never closed is an error, and so is an overlong line unless
  the first line already showed that there is no frontmatter.
\<close>

theorem yamlParser_meets_spec:
  "yamlParser ul text =
     (case scan_lines maxBuffSize (trim_prefix bom text) of
        (ls, too_long) \<Rightarrow> yaml_spec ul (trim_prefix bom text) ls too_long)"
  by (simp add: yamlParser_spec_lines case_prod_beta)

section \<open>Round trip on a well-formed note\<close>

definition quotes :: gostring where
  "quotes = [CHR 0x22, CHR 0x27]"

definition note_text :: "gostring \<Rightarrow> gostring \<Rightarrow> gostring" where
  "note_text t b = dashes @ newline # ''title: '' @ t @ newline # dashes @ newline # b"

lemma runes_title_line: "runes (''title: '' @ t) = map of_char ''title: '' @ runes t"
  by (simp add: utf8_simps)

lemma frontmatter_title:
  assumes "t \<noteq> []" "trim_space t = t" "trim_cutset quotes t = t"
  shows "frontmatter_line ul (trim_space (''title: '' @ t)) old = t"
proof -
  have "trim_space (''title: '' @ t) = ''title: '' @ t"
  proof (rule trim_space_id)
    show "\<not> is_space (hd (runes (''title: '' @ t)))"
      unfolding runes_title_line by (simp add: is_space_def)
    show "\<not> is_space (last (runes (''title: '' @ t)))"
      unfolding runes_title_line using trim_space_fixed_last [OF assms(2,1)] assms(1)
      by (simp add: runes_def)
  qed simp
  moreover have "cut_at (CHR '':'') (''title'' @ CHR '':'' # CHR '' '' # t) = (''title'', CHR '' '' # t, True)"
    by (rule cut_at_found) simp
  moreover have "trim_space ''title'' = ''title''" "to_lower ul ''title'' = ''title''"
    by (code_simp, simp add: to_lower_ascii)
  ultimately show ?thesis
    using assms by (simp add: frontmatter_line_def trim_simps quotes_def)
qed

lemma trim_space_dashes [simp]: "trim_space ''---'' = ''---''"
  by code_simp

lemma scan_note_text:
  assumes "newline \<notin> set t" "carriage_return \<notin> set t" "length t + 7 < maxBuffSize"
  shows "scan_lines maxBuffSize (note_text t b) =
    (dashes # (''title: '' @ t) # dashes # fst (scan_lines maxBuffSize b), snd (scan_lines maxBuffSize b))"
proof -
  have short: "length ''---'' < maxBuffSize" by (simp add: maxBuffSize_def)
  have d: "scan_lines maxBuffSize (dashes @ newline # s) =
      (dashes # fst (scan_lines maxBuffSize s), snd (scan_lines maxBuffSize s))" for s
    using scan_lines_line [OF _ short, of s] by (simp add: drop_cr_def)
  have "scan_lines maxBuffSize ((''title: '' @ t) @ newline # s) =
      ((''title: '' @ t) # fst (scan_lines maxBuffSize s), snd (scan_lines maxBuffSize s))" for s
    using assms by (subst scan_lines_line) (simp_all add: drop_cr_id)
  then show ?thesis unfolding note_text_def using d by simp
qed

text \<open>
  C27. Round trip: a note written as the documentation asks (with or without a byte order
  mark) is read back with exactly its title, and with its body up to surrounding white
  space.
\<close>

theorem yamlParser_roundtrip:
  assumes "t \<noteq> []" "trim_space t = t" "trim_cutset quotes t = t"
    and "newline \<notin> set t" "carriage_return \<notin> set t" "length t + 7 < maxBuffSize"
    and "carriage_return \<notin> set b" "\<not> snd (scan_lines maxBuffSize b)"
    and "pre \<in> {[], bom}"
  shows "yamlParser ul (pre @ note_text t b) = Inr \<lparr>Title = t, Body = trim_space b\<rparr>"
proof -
  have "trim_prefix bom (pre @ note_text t b) = note_text t b"
    using assms(9) by (auto simp: trim_prefix_def bom_def note_text_def)
  moreover have "trim_space (''title: '' @ t) \<noteq> dashes"
    using frontmatter_title [OF assms(1-3), of ul "''x''"]
      frontmatter_title [OF assms(1-3), of ul "''y''"] by (auto simp: frontmatter_line_def cut_at_def)
  moreover have "trim_space (unlines (fst (scan_lines maxBuffSize b))) = trim_space b"
    using unlines_scan_lines [OF assms(8,7)] by (simp add: trim_simps)
  ultimately show ?thesis
    using assms(8) frontmatter_title [OF assms(1-3)]
    by (simp add: yamlParser_spec_lines scan_note_text [OF assms(4-6)] yaml_spec_def block_title_def)
qed

lemma yamlParser_roundtrip_witness:
  "yamlParser id (bom @ note_text ''RAG: 1'' ''text\<newline>'') = Inr \<lparr>Title = ''RAG: 1'', Body = trim_space ''text\<newline>''\<rparr>"
  by (rule yamlParser_roundtrip) (simp_all add: trim_cutset_def, code_simp+)

section \<open>Walking the vault\<close>

text \<open>\<open>model.Note\<close>.\<close>

record Note =
  notePath :: gostring
  noteHash :: gostring
  noteText :: gostring
  noteName :: gostring

text \<open>
  The file system below the root: what \<open>os.ReadFile\<close> gives for a file, and for a directory
  the error of \<open>os.ReadDir\<close>, if any, and the listing it returns (sorted by name).
\<close>

datatype fsnode =
    File "gostring result"
  | Dir "goerr option" "(gostring \<times> fsnode) list"

text \<open>\<open>vault.Result\<close> together with \<open>warnErrs\<close>, the state the walk function closes over.\<close>

record scan_result =
  Notes :: "Note list"
  Skipped :: "gostring list"
  warnErrs :: "goerr list"

text \<open>
  \<open>filepath.Ext\<close>: from the last dot of the last path element. Paths are kept as the list
  of names below the root; \<open>path_string\<close> is what \<open>filepath.Join\<close> builds from them under a
  clean root, and \<open>rel_string\<close> what \<open>filepath.Rel\<close> makes of it again.
\<close>

definition path_base :: "gostring \<Rightarrow> gostring" where
  "path_base p = rev (takeWhile (\<lambda>c. c \<noteq> CHR ''/'') (rev p))"

definition path_ext :: "gostring \<Rightarrow> gostring" where
  "path_ext p =
     (let b = path_base p
      in if CHR ''.'' \<in> set b then CHR ''.'' # rev (takeWhile (\<lambda>c. c \<noteq> CHR ''.'') (rev b)) else [])"

definition path_string :: "gostring \<Rightarrow> gostring list \<Rightarrow> gostring" where
  "path_string root rel = join ''/'' (root # rel)"

definition rel_string :: "gostring list \<Rightarrow> gostring" where
  "rel_string rel = (if rel = [] then ''.'' else join ''/'' rel)"

definition is_markdown :: "(rune \<Rightarrow> rune) \<Rightarrow> gostring \<Rightarrow> bool" where
  "is_markdown ul path \<longleftrightarrow> to_lower ul (path_ext path) = ''.md''"

text \<open>The walk function on a file.\<close>

definition visit_file ::
  "(rune \<Rightarrow> rune) \<Rightarrow> (gostring \<Rightarrow> gostring) \<Rightarrow> gostring \<Rightarrow> gostring list \<Rightarrow> gostring result \<Rightarrow>
   scan_result \<Rightarrow> scan_result result" where
  "visit_file ul sha root rel read res =
     (let path = path_string root rel in
      if is_markdown ul path then
        (let relPath = rel_string rel in
         case read of
           Inl err \<Rightarrow> Inl (wrap (''error at readfile '' @ path) err)
         | Inr content \<Rightarrow>
             (case yamlParser ul content of
                Inl err \<Rightarrow>
                  if is_err ErrUnclosedFrontmatter err then
                    Inr (res\<lparr>warnErrs := warnErrs res @ [wrap (''skip '' @ path) err],
                             Skipped := Skipped res @ [relPath]\<rparr>)
                  else Inl (wrap (''parse yaml in '' @ path) err)
              | Inr yaml \<Rightarrow>
                  Inr (res\<lparr>Notes := Notes res @
                    [\<lparr>notePath = relPath, noteHash = sha content, noteText = Body yaml, noteName = Title yaml\<rparr>]\<rparr>)))
      else Inr res)"

text \<open>
  \<open>filepath.WalkDir\<close>: the walk function sees a directory first (and does nothing), then a
  listing error if there is one (and returns it, which ends the walk), then the entries.
\<close>

fun walk_dir ::
  "(rune \<Rightarrow> rune) \<Rightarrow> (gostring \<Rightarrow> gostring) \<Rightarrow> gostring \<Rightarrow> gostring list \<Rightarrow> fsnode \<Rightarrow>
   scan_result \<Rightarrow> scan_result result"
and walk_entries ::
  "(rune \<Rightarrow> rune) \<Rightarrow> (gostring \<Rightarrow> gostring) \<Rightarrow> gostring \<Rightarrow> gostring list \<Rightarrow> (gostring \<times> fsnode) list \<Rightarrow>
   scan_result \<Rightarrow> scan_result result" where
  "walk_dir ul sha root rel (File read) res = visit_file ul sha root rel read res"
| "walk_dir ul sha root rel (Dir (Some err) entries) res =
     Inl (wrap (''error at WalkDir at '' @ path_string root rel) err)"
| "walk_dir ul sha root rel (Dir None entries) res = walk_entries ul sha root rel entries res"
| "walk_entries ul sha root rel [] res = Inr res"
| "walk_entries ul sha root rel ((name, node) # entries) res =
     (case walk_dir ul sha root (rel @ [name]) node res of
        Inl err \<Rightarrow> Inl err
      | Inr res \<Rightarrow> walk_entries ul sha root rel entries res)"

text \<open>
  \<open>Scan\<close>: the root is what \<open>os.Lstat\<close> finds; its failure reaches the walk function too. The
  result is the pair Go returns: notes and skipped paths, and the error, which is nil or
  the joined warnings; a failed walk is the error alone, with an empty result.
\<close>

definition scan_empty :: scan_result where
  "scan_empty = \<lparr>Notes = [], Skipped = [], warnErrs = []\<rparr>"

definition Scan ::
  "(rune \<Rightarrow> bool) \<Rightarrow> (rune \<Rightarrow> rune) \<Rightarrow> (gostring \<Rightarrow> gostring) \<Rightarrow> gostring \<Rightarrow> fsnode result \<Rightarrow> scan_result \<times> goerr option" where
  "Scan pr ul sha root lstat =
     (let walked = (case lstat of
                      Inl err \<Rightarrow> Inl (wrap (''error at WalkDir at '' @ root) err)
                    | Inr node \<Rightarrow> walk_dir ul sha root [] node scan_empty)
      in case walked of
           Inl err \<Rightarrow> (scan_empty, Some (wrap (''error walking the path '' @ go_quote pr root) err))
         | Inr res \<Rightarrow> (res, join_errs (warnErrs res)))"

section \<open>What a scan finds\<close>

text \<open>The markdown files of a tree in walk order, with what reading them gives.\<close>

fun md_files :: "(rune \<Rightarrow> rune) \<Rightarrow> gostring \<Rightarrow> gostring list \<Rightarrow> fsnode \<Rightarrow> (gostring list \<times> gostring result) list"
and md_entries :: "(rune \<Rightarrow> rune) \<Rightarrow> gostring \<Rightarrow> gostring list \<Rightarrow> (gostring \<times> fsnode) list \<Rightarrow>
    (gostring list \<times> gostring result) list" where
  "md_files ul root rel (File read) = (if is_markdown ul (path_string root rel) then [(rel, read)] else [])"
| "md_files ul root rel (Dir err entries) = md_entries ul root rel entries"
| "md_entries ul root rel [] = []"
| "md_entries ul root rel ((name, node) # entries) =
     md_files ul root (rel @ [name]) node @ md_entries ul root rel entries"

fun dirs_ok :: "fsnode \<Rightarrow> bool" where
  "dirs_ok (File _) = True"
| "dirs_ok (Dir err entries) = (err = None \<and> list_all (\<lambda>(_, node). dirs_ok node) entries)"

text \<open>A file the scan can account for: readable, and parsed or unclosed.\<close>

definition accounted :: "(rune \<Rightarrow> rune) \<Rightarrow> gostring list \<times> gostring result \<Rightarrow> bool" where
  "accounted ul f = (case snd f of Inl _ \<Rightarrow> False | Inr c \<Rightarrow>
     (case yamlParser ul c of Inl e \<Rightarrow> is_err ErrUnclosedFrontmatter e | Inr _ \<Rightarrow> True))"

definition file_notes :: "(rune \<Rightarrow> rune) \<Rightarrow> (gostring \<Rightarrow> gostring) \<Rightarrow> gostring list \<times> gostring result \<Rightarrow> Note list" where
  "file_notes ul sha f = (case snd f of Inl _ \<Rightarrow> [] | Inr c \<Rightarrow>
     (case yamlParser ul c of Inl _ \<Rightarrow> []
      | Inr y \<Rightarrow> [\<lparr>notePath = rel_string (fst f), noteHash = sha c, noteText = Body y, noteName = Title y\<rparr>]))"

definition file_skips :: "(rune \<Rightarrow> rune) \<Rightarrow> gostring list \<times> gostring result \<Rightarrow> gostring list" where
  "file_skips ul f = (case snd f of Inl _ \<Rightarrow> [] | Inr c \<Rightarrow>
     (case yamlParser ul c of Inl _ \<Rightarrow> [rel_string (fst f)] | Inr _ \<Rightarrow> []))"

text \<open>How the state after a walk over a list of files relates to the one before.\<close>

definition scanned ::
  "(rune \<Rightarrow> rune) \<Rightarrow> (gostring \<Rightarrow> gostring) \<Rightarrow> (gostring list \<times> gostring result) list \<Rightarrow>
   scan_result \<Rightarrow> scan_result \<Rightarrow> bool" where
  "scanned ul sha fs res res' \<longleftrightarrow>
     list_all (accounted ul) fs \<and>
     Notes res' = Notes res @ concat (map (file_notes ul sha) fs) \<and>
     Skipped res' = Skipped res @ concat (map (file_skips ul) fs) \<and>
     length (warnErrs res') = length (warnErrs res) + length (concat (map (file_skips ul) fs)) \<and>
     (\<forall>e\<in>set (warnErrs res'). e \<in> set (warnErrs res) \<or> is_err ErrUnclosedFrontmatter e)"

lemma scanned_Nil [simp]: "scanned ul sha [] res res"
  by (simp add: scanned_def)

lemma scanned_append:
  "scanned ul sha fs res res1 \<Longrightarrow> scanned ul sha gs res1 res2 \<Longrightarrow> scanned ul sha (fs @ gs) res res2"
  by (auto simp: scanned_def)

lemma visit_file_scanned:
  "visit_file ul sha root rel read res = Inr res' \<Longrightarrow>
     scanned ul sha (if is_markdown ul (path_string root rel) then [(rel, read)] else []) res res'"
  by (auto simp: visit_file_def scanned_def accounted_def file_notes_def file_skips_def Let_def
      split: sum.splits if_splits)

lemma visit_file_ok:
  "is_markdown ul (path_string root rel) \<longrightarrow> accounted ul (rel, read) \<Longrightarrow>
     \<exists>res'. visit_file ul sha root rel read res = Inr res'"
  by (auto simp: visit_file_def accounted_def Let_def split: sum.splits)

lemma walk_scanned:
  "walk_dir ul sha root rel node res = Inr res' \<Longrightarrow>
     dirs_ok node \<and> scanned ul sha (md_files ul root rel node) res res'"
  "walk_entries ul sha root rel entries res = Inr res' \<Longrightarrow>
     list_all (\<lambda>(_, node). dirs_ok node) entries \<and> scanned ul sha (md_entries ul root rel entries) res res'"
  by (induction ul sha root rel node res and ul sha root rel entries res
      arbitrary: res' and res' rule: walk_dir_walk_entries.induct)
    (auto dest: visit_file_scanned intro: scanned_append split: sum.splits if_splits)

lemma walk_ok:
  "dirs_ok node \<Longrightarrow> list_all (accounted ul) (md_files ul root rel node) \<Longrightarrow>
     \<exists>res'. walk_dir ul sha root rel node res = Inr res'"
  "list_all (\<lambda>(_, node). dirs_ok node) entries \<Longrightarrow>
     list_all (accounted ul) (md_entries ul root rel entries) \<Longrightarrow>
     \<exists>res'. walk_entries ul sha root rel entries res = Inr res'"
proof (induction ul sha root rel node res and ul sha root rel entries res
    rule: walk_dir_walk_entries.induct)
  case (1 ul sha root rel read res)
  then show ?case by (simp add: visit_file_ok split: if_splits)
next
  case (5 ul sha root rel name node entries res)
  then obtain res1 where "walk_dir ul sha root (rel @ [name]) node res = Inr res1" by auto
  with 5 show ?case by auto
qed auto

text \<open>The errors of the operating system are not the parser's sentinel.\<close>

fun os_errors :: "fsnode \<Rightarrow> bool" where
  "os_errors (File (Inl e)) = (\<not> is_err ErrUnclosedFrontmatter e)"
| "os_errors (File (Inr _)) = True"
| "os_errors (Dir err entries) =
     ((case err of None \<Rightarrow> True | Some e \<Rightarrow> \<not> is_err ErrUnclosedFrontmatter e) \<and>
      list_all (\<lambda>(_, node). os_errors node) entries)"

lemma visit_file_error:
  "visit_file ul sha root rel read res = Inl e \<Longrightarrow> os_errors (File read) \<Longrightarrow>
     \<not> is_err ErrUnclosedFrontmatter e"
  by (auto simp: visit_file_def Let_def split: sum.splits if_splits)

lemma walk_error:
  "walk_dir ul sha root rel node res = Inl e \<Longrightarrow> os_errors node \<Longrightarrow> \<not> is_err ErrUnclosedFrontmatter e"
  "walk_entries ul sha root rel entries res = Inl e \<Longrightarrow> list_all (\<lambda>(_, node). os_errors node) entries \<Longrightarrow>
     \<not> is_err ErrUnclosedFrontmatter e"
  by (induction ul sha root rel node res and ul sha root rel entries res
      arbitrary: e and e rule: walk_dir_walk_entries.induct)
    (auto dest: visit_file_error split: sum.splits)

text \<open>
  C22. A scan is all or nothing, and it says which. If every directory can be listed and
  every markdown file can be read and is either parsed or left open by its frontmatter,
  the notes are exactly those of the parsed files in walk order, \<open>Skipped\<close> is exactly
  the relative paths of the others, and the error is nil when nothing was skipped and
  otherwise matches \<open>ErrUnclosedFrontmatter\<close>. In every other case the walk ends with
  an error, no note and no skipped path, and that error does not match the sentinel, so a
  caller never mistakes a failed walk for a complete one with skipped files.
\<close>

theorem Scan_exact:
  fixes ul :: "rune \<Rightarrow> rune" and root :: gostring and node :: fsnode
  defines "files \<equiv> md_files ul root [] node"
  shows
  "(dirs_ok node \<and> list_all (accounted ul) (files) \<longrightarrow>
      Notes (fst (Scan pr ul sha root (Inr node))) = concat (map (file_notes ul sha) (files)) \<and>
      Skipped (fst (Scan pr ul sha root (Inr node))) = concat (map (file_skips ul) (files)) \<and>
      (case snd (Scan pr ul sha root (Inr node)) of
         None \<Rightarrow> Skipped (fst (Scan pr ul sha root (Inr node))) = []
       | Some e \<Rightarrow> Skipped (fst (Scan pr ul sha root (Inr node))) \<noteq> [] \<and> is_err ErrUnclosedFrontmatter e)) \<and>
   (\<not> (dirs_ok node \<and> list_all (accounted ul) (files)) \<longrightarrow>
      fst (Scan pr ul sha root (Inr node)) = scan_empty \<and>
      (\<exists>e. snd (Scan pr ul sha root (Inr node)) = Some e \<and>
           (os_errors node \<longrightarrow> \<not> is_err ErrUnclosedFrontmatter e)))"
proof (cases "walk_dir ul sha root [] node scan_empty")
  case (Inl e)
  then have "\<not> (dirs_ok node \<and> list_all (accounted ul) (files))"
    using walk_ok(1) [of node ul root "[]" sha scan_empty] by (auto simp: files_def)
  moreover have "os_errors node \<longrightarrow> \<not> is_err ErrUnclosedFrontmatter e"
    using Inl walk_error(1) by blast
  ultimately show ?thesis using Inl by (auto simp: Scan_def)
next
  case (Inr res')
  then have ok: "dirs_ok node" and sc: "scanned ul sha (files) scan_empty res'"
    using walk_scanned(1) [OF Inr] by (auto simp: files_def)
  have len: "length (warnErrs res') = length (Skipped res')"
    and warn: "\<forall>e\<in>set (warnErrs res'). is_err ErrUnclosedFrontmatter e"
    using sc by (auto simp: scanned_def scan_empty_def)
  have "case join_errs (warnErrs res') of None \<Rightarrow> Skipped res' = []
    | Some e \<Rightarrow> Skipped res' \<noteq> [] \<and> is_err ErrUnclosedFrontmatter e"
    using len warn by (cases "warnErrs res'") (auto simp: join_errs_def list_ex_iff)
  moreover have "Scan pr ul sha root (Inr node) = (res', join_errs (warnErrs res'))"
    using Inr by (simp add: Scan_def)
  ultimately show ?thesis using ok sc by (simp add: scanned_def scan_empty_def split: option.splits)
qed

lemma Scan_exact_witness:
  "let tree = Dir None [(''a.md'', File (Inr ''x'')),
                        (''b.md'', File (Inr (''---'' @ [newline] @ ''y''))),
                        (''c.txt'', File (Inr ''z''))];
       r = Scan (\<lambda>r. True) (\<lambda>r. r) (\<lambda>s. s) ''/v'' (Inr tree)
   in map notePath (Notes (fst r)) = [''a.md''] \<and> Skipped (fst r) = [''b.md''] \<and>
      (\<exists>e. snd r = Some e \<and> is_err ErrUnclosedFrontmatter e)"
proof -
  let ?tree = "Dir None [(''a.md'', File (Inr ''x'')),
    (''b.md'', File (Inr (''---'' @ [newline] @ ''y''))), (''c.txt'', File (Inr ''z''))]"
  have ok: "dirs_ok ?tree \<and> list_all (accounted (\<lambda>r. r)) (md_files (\<lambda>r. r) ''/v'' [] ?tree)"
    by code_simp
  have n: "map notePath (concat (map (file_notes (\<lambda>r. r) (\<lambda>s. s)) (md_files (\<lambda>r. r) ''/v'' [] ?tree))) = [''a.md'']"
    by code_simp
  have s: "concat (map (file_skips (\<lambda>r. r)) (md_files (\<lambda>r. r) ''/v'' [] ?tree)) = [''b.md'']"
    by code_simp
  from Scan_exact [where pr = "\<lambda>r. True" and ul = "\<lambda>r. r" and sha = "\<lambda>s. s" and root = "''/v''" and node = ?tree, THEN conjunct1,
      THEN mp, OF ok] n s
  show ?thesis by (auto simp: Let_def simp del: md_files.simps append.simps split: option.splits)
qed

section \<open>No two notes share a path\<close>

lemma join_no_sep_inject:
  assumes "\<forall>x\<in>set xs. c \<notin> set x" "\<forall>y\<in>set ys. c \<notin> set y" "xs \<noteq> []" "ys \<noteq> []"
    "join [c] xs = join [c] ys"
  shows "xs = ys"
  using assms
proof (induction "[c]" xs arbitrary: ys rule: join.induct)
  case (2 x)
  then obtain y zs where ys: "ys = y # zs" by (cases ys) auto
  show ?case
  proof (cases zs)
    case Nil with ys 2 show ?thesis by simp
  next
    case (Cons z zs')
    then have "c \<in> set x" using ys 2(5) by simp
    with 2 show ?thesis by simp
  qed
next
  case (3 x x' xs)
  then obtain y zs where ys: "ys = y # zs" by (cases ys) auto
  show ?case
  proof (cases zs)
    case Nil
    then have "y = x @ [c] @ join [c] (x' # xs)" using ys 3 by simp
    then have "c \<in> set y" by simp
    with 3 ys show ?thesis by simp
  next
    case (Cons z zs')
    with ys 3(6) have "x @ c # join [c] (x' # xs) = y @ c # join [c] zs" by simp
    moreover have "c \<notin> set x" "c \<notin> set y" using 3(2,3) ys by simp_all
    ultimately have "x = y" "join [c] (x' # xs) = join [c] zs"
      using split_first by metis+
    moreover from this(2) have "x' # xs = zs"
      using 3(2,3) ys Cons by (intro 3(1)) auto
    ultimately show ?thesis using ys by simp
  qed
qed simp

text \<open>What a file system guarantees of names: no slash in one, no two equal in a directory.\<close>

fun names_ok :: "fsnode \<Rightarrow> bool" where
  "names_ok (File _) = True"
| "names_ok (Dir err entries) =
     (distinct (map fst entries) \<and> list_all (\<lambda>(name, node). CHR ''/'' \<notin> set name \<and> names_ok node) entries)"

abbreviation entries_ok :: "(gostring \<times> fsnode) list \<Rightarrow> bool" where
  "entries_ok entries \<equiv>
     distinct (map fst entries) \<and> list_all (\<lambda>(name, node). CHR ''/'' \<notin> set name \<and> names_ok node) entries"

lemma md_paths:
  "names_ok node \<Longrightarrow> p \<in> set (map fst (md_files ul root rel node)) \<Longrightarrow>
     \<exists>sub. p = rel @ sub \<and> (\<forall>n\<in>set sub. CHR ''/'' \<notin> set n) \<and> (sub = [] \<longrightarrow> (\<exists>r. node = File r))"
  "entries_ok entries \<Longrightarrow> p \<in> set (map fst (md_entries ul root rel entries)) \<Longrightarrow>
     \<exists>name sub. name \<in> set (map fst entries) \<and> p = rel @ name # sub \<and> (\<forall>n\<in>set (name # sub). CHR ''/'' \<notin> set n)"
proof (induction ul root rel node and ul root rel entries rule: md_files_md_entries.induct)
  case (2 ul root rel err entries)
  then obtain name sub where "p = rel @ name # sub" "\<forall>n\<in>set (name # sub). CHR ''/'' \<notin> set n" by auto
  then show ?case by (intro exI [of _ "name # sub"]) simp
next
  case (4 ul root rel name node entries)
  then consider "p \<in> set (map fst (md_files ul root (rel @ [name]) node))"
    | "p \<in> set (map fst (md_entries ul root rel entries))" by auto
  then show ?case
  proof cases
    case 1
    with 4(1,3) obtain sub where "p = (rel @ [name]) @ sub" "\<forall>n\<in>set sub. CHR ''/'' \<notin> set n" by auto
    with 4(3) show ?thesis by auto
  next
    case 2
    with 4(2,3) obtain name' sub where "name' \<in> set (map fst entries)" "p = rel @ name' # sub"
      "\<forall>n\<in>set (name' # sub). CHR ''/'' \<notin> set n" by (auto simp del: set_map)
    then show ?thesis by auto
  qed
qed (auto split: if_splits)

lemma md_distinct:
  "names_ok node \<Longrightarrow> distinct (map fst (md_files ul root rel node))"
  "entries_ok entries \<Longrightarrow> distinct (map fst (md_entries ul root rel entries))"
proof (induction ul root rel node and ul root rel entries rule: md_files_md_entries.induct)
  case (4 ul root rel name node entries)
  have False if "p \<in> set (map fst (md_files ul root (rel @ [name]) node))"
    "p \<in> set (map fst (md_entries ul root rel entries))" for p
  proof -
    from md_paths(1) [OF _ that(1)] 4(3) obtain sub where "p = rel @ name # sub" by auto
    moreover from md_paths(2) [OF _ that(2)] 4(3) obtain name' sub'
      where "name' \<in> set (map fst entries)" "p = rel @ name' # sub'" by auto
    ultimately show False using 4(3) by auto
  qed
  with 4 show ?case by (simp add: disjoint_iff) blast
qed auto

lemma scanned_paths:
  assumes "distinct (map (rel_string \<circ> fst) fs)" "scanned ul sha fs scan_empty res'"
  shows "distinct (map notePath (Notes res') @ Skipped res')"
proof -
  let ?note = "\<lambda>f. file_skips ul f = []"
  have ok: "list_all (accounted ul) fs" using assms(2) by (simp add: scanned_def)
  then have n: "map notePath (concat (map (file_notes ul sha) fs)) = map (rel_string \<circ> fst) (filter ?note fs)"
    by (induction fs) (auto simp: file_notes_def file_skips_def accounted_def split: sum.splits)
  from ok have s: "concat (map (file_skips ul) fs) = map (rel_string \<circ> fst) (filter (Not \<circ> ?note) fs)"
    by (induction fs) (auto simp: file_skips_def accounted_def split: sum.splits)
  have "distinct (map (rel_string \<circ> fst) (filter ?note fs @ filter (Not \<circ> ?note) fs))"
    using assms(1) by (simp add: distinct_map distinct_filter inj_on_def) blast
  then show ?thesis using n s assms(2) by (simp add: scanned_def scan_empty_def)
qed

lemma Scan_paths:
  assumes "names_ok node"
  shows "distinct (map notePath (Notes (fst (Scan pr ul sha root (Inr node)))) @
                   Skipped (fst (Scan pr ul sha root (Inr node))))"
proof (cases "walk_dir ul sha root [] node scan_empty")
  case (Inl e)
  then show ?thesis by (simp add: Scan_def scan_empty_def)
next
  case (Inr res')
  let ?fs = "md_files ul root [] node"
  have only: "\<exists>r. node = File r" if "[] \<in> fst ` set ?fs"
    using md_paths(1) [OF assms, of "[]" ul root "[]"] that by auto
  have slash: "\<forall>n\<in>set p. CHR ''/'' \<notin> set n" if "p \<in> fst ` set ?fs" for p
    using md_paths(1) [OF assms, of p ul root "[]"] that by auto
  have "inj_on rel_string (fst ` set ?fs)"
  proof (cases "\<exists>r. node = File r")
    case True
    then show ?thesis by (auto simp: inj_on_def)
  next
    case False
    with only slash show ?thesis
      by (intro inj_onI) (metis join_no_sep_inject rel_string_def)
  qed
  moreover have "distinct (map fst ?fs)" by (rule md_distinct(1) [OF assms])
  ultimately have "distinct (map (rel_string \<circ> fst) ?fs)"
    by (simp add: distinct_map comp_inj_on)
  then have "distinct (map notePath (Notes res') @ Skipped res')"
    using walk_scanned(1) [OF Inr] scanned_paths by blast
  with Inr show ?thesis by (simp add: Scan_def)
qed

text \<open>
  No two notes of a scan share a path, and no note has the path of a skipped file. A
  note is stored under its path, and the set of paths decides what is deleted, so two
  files never overwrite each other and a skipped file never stands for a stored one.
\<close>

theorem Scan_paths_distinct:
  assumes "names_ok node"
  shows "distinct (map notePath (Notes (fst (Scan pr ul sha root (Inr node)))) @
                   Skipped (fst (Scan pr ul sha root (Inr node))))"
  using assms by (rule Scan_paths)

lemma Scan_paths_distinct_witness:
  "let tree = Dir None [(''a'', Dir None [(''b.md'', File (Inr ''x''))]), (''b.md'', File (Inr ''y''))];
       r = fst (Scan (\<lambda>r. True) (\<lambda>r. r) (\<lambda>s. s) ''/v'' (Inr tree))
   in map notePath (Notes r) = [''a/b.md'', ''b.md''] \<and> distinct (map notePath (Notes r) @ Skipped r)"
proof -
  let ?tree = "Dir None [(''a'', Dir None [(''b.md'', File (Inr ''x''))]), (''b.md'', File (Inr ''y''))]"
  have "names_ok ?tree" by code_simp
  note Scan_paths_distinct [OF this, of "\<lambda>r. True" "\<lambda>r. r" "\<lambda>s. s" "''/v''"]
  moreover have "map notePath (Notes (fst (Scan (\<lambda>r. True) (\<lambda>r. r) (\<lambda>s. s) ''/v'' (Inr ?tree)))) = [''a/b.md'', ''b.md'']"
    by code_simp
  ultimately show ?thesis unfolding Let_def by blast
qed

end
