(* ===== verification/Database.thy ===== *)
theory Database
  imports Providers Vault
begin

text \<open>
  The database the program keeps: the tables of \<open>internal/migrate/migrations\<close> as lists of rows
  with their sequences, the statements \<open>internal/storage\<close> sends as functions on them, and how
  a call to the server can end. A statement is refused, or applied, or applied with its
  reply lost; a transaction that does not commit leaves everything but the sequences as it
  was. What the server says when a constraint is violated is a parameter, and so are the
  faults, which the environment \<open>'e\<close> decides.
\<close>

section \<open>Tables\<close>

record note_row =
  nid :: int
  npath :: gostring
  nname :: gostring
  ntext :: gostring
  nhash :: gostring

record chunk_row =
  cid :: int
  cnote :: int
  cindex :: int
  ctext :: gostring

record space_row =
  sid :: int
  sspace :: Space
  stable :: gostring
  screated :: int

text \<open>A vector table: \<open>vector(dim)\<close> and the rows, chunk number and vector.\<close>

record vec_table =
  tname :: gostring
  tdim :: int
  trows :: "(int \<times> Vector) list"

record pg =
  noteRows :: "note_row list"
  chunkRows :: "chunk_row list"
  spaceRows :: "space_row list"
  vecTables :: "vec_table list"
  noteSeq :: int
  chunkSeq :: int
  spaceSeq :: int

definition empty_pg :: pg where
  "empty_pg = \<lparr>noteRows = [], chunkRows = [], spaceRows = [], vecTables = [], noteSeq = 1, chunkSeq = 1, spaceSeq = 1\<rparr>"

section \<open>Calls to the server\<close>

datatype fault = Fine | Refused goerr | Lost goerr

record 'e dbenv =
  fault :: "'e \<Rightarrow> fault \<times> 'e"
  violation :: "gostring \<Rightarrow> goerr"
  now :: "'e \<Rightarrow> int"
  hnsw_max :: int

text \<open>One statement: \<open>stmt\<close> gives its result and the new state.\<close>

definition exec ::
  "'e dbenv \<Rightarrow> (pg \<Rightarrow> 'a result \<times> pg) \<Rightarrow> 'e \<times> pg \<Rightarrow> 'a result \<times> 'e \<times> pg" where
  "exec env stmt s =
     (case fault env (fst s) of
        (Fine, e) \<Rightarrow> (case stmt (snd s) of (r, db) \<Rightarrow> (r, e, db))
      | (Refused x, e) \<Rightarrow> (Inl x, e, snd s)
      | (Lost x, e) \<Rightarrow> (Inl x, e, snd (stmt (snd s))))"

text \<open>A rollback restores the rows and keeps the sequences, which never go back.\<close>

definition rollback :: "pg \<Rightarrow> pg \<Rightarrow> pg" where
  "rollback old db = old\<lparr>noteSeq := noteSeq db, chunkSeq := chunkSeq db, spaceSeq := spaceSeq db\<rparr>"

text \<open>
  A transaction: begin, the body, then commit, or the deferred rollback when the body or the
  commit failed. \<open>commit_text\<close> is how the code labels a failed commit.
\<close>

definition in_tx ::
  "'e dbenv \<Rightarrow> gostring \<Rightarrow> ('a \<Rightarrow> gostring) \<Rightarrow> ('e \<times> pg \<Rightarrow> 'a result \<times> 'e \<times> pg) \<Rightarrow>
   'e \<times> pg \<Rightarrow> 'a result \<times> 'e \<times> pg" where
  "in_tx env begin_text commit_text tx_body s =
     (case fault env (fst s) of
        (Refused x, e) \<Rightarrow> (Inl (wrap begin_text x), e, snd s)
      | (Lost x, e) \<Rightarrow> (Inl (wrap begin_text x), e, snd s)
      | (Fine, e) \<Rightarrow>
          (case tx_body (e, snd s) of
             (Inl x, e, db) \<Rightarrow> (Inl x, e, rollback (snd s) db)
           | (Inr a, e, db) \<Rightarrow>
               (case fault env e of
                  (Fine, e) \<Rightarrow> (Inr a, e, db)
                | (Refused x, e) \<Rightarrow> (Inl (wrap (commit_text a) x), e, rollback (snd s) db)
                | (Lost x, e) \<Rightarrow> (Inl (wrap (commit_text a) x), e, db))))"

section \<open>What the column types admit\<close>

text \<open>Text is valid UTF-8 without a zero byte.\<close>

definition text_ok :: "gostring \<Rightarrow> bool" where
  "text_ok s \<longleftrightarrow> valid_utf8 s \<and> CHR 0x00 \<notin> set s"

definition max_int4 :: int where "max_int4 = 2147483647"
definition max_int2 :: int where "max_int2 = 32767"

text \<open>pgvector takes finite elements only.\<close>

definition f32_finite :: "float32 \<Rightarrow> bool" where
  "f32_finite b \<longleftrightarrow> uint b mod 2 ^ 31 < 0x7F800000"

section \<open>Statements\<close>

text \<open>
  The upsert of \<open>SaveNoteWithChunks\<close>: the sequence is drawn from before the conflict is
  looked for; an existing row is rewritten only when its hash differs. The result is the id
  and \<open>written\<close>.
\<close>

definition upsert_note :: "(gostring \<Rightarrow> goerr) \<Rightarrow> Note \<Rightarrow> pg \<Rightarrow> (int \<times> bool) result \<times> pg" where
  "upsert_note viol info db =
     (if \<not> (text_ok (notePath info) \<and> text_ok (noteName info) \<and> text_ok (noteText info))
      then (Inl (viol ''text''), db)
      else if noteSeq db > max_int4 then (Inl (viol ''notes_id_seq''), db)
      else
        (let noteId = noteSeq db; db = db\<lparr>noteSeq := noteId + 1\<rparr> in
         if rune_count (notePath info) > 4096 then (Inl (viol ''notes.paths''), db)
         else
           (case find (\<lambda>r. npath r = notePath info) (noteRows db) of
              None \<Rightarrow>
                (Inr (noteId, True),
                 db\<lparr>noteRows := noteRows db @ [\<lparr>nid = noteId, npath = notePath info, nname = noteName info,
                                          ntext = noteText info, nhash = noteHash info\<rparr>]\<rparr>)
            | Some row \<Rightarrow>
                if nhash row = noteHash info then (Inr (nid row, False), db)
                else
                  (Inr (nid row, True),
                   db\<lparr>noteRows := map (\<lambda>r. if npath r = notePath info
                                     then r\<lparr>nname := noteName info, ntext := noteText info, nhash := noteHash info\<rparr>
                                     else r) (noteRows db)\<rparr>))))"

text \<open>Deleting chunks takes their vectors along (\<open>ON DELETE CASCADE\<close>).\<close>

definition drop_chunks :: "(chunk_row \<Rightarrow> bool) \<Rightarrow> pg \<Rightarrow> pg" where
  "drop_chunks p db =
     (let gone = cid ` set (filter p (chunkRows db))
      in db\<lparr>chunkRows := filter (\<lambda>c. \<not> p c) (chunkRows db),
            vecTables := map (\<lambda>t. t\<lparr>trows := filter (\<lambda>(c, v). c \<notin> gone) (trows t)\<rparr>) (vecTables db)\<rparr>)"

definition delete_chunks_of :: "int \<Rightarrow> pg \<Rightarrow> unit result \<times> pg" where
  "delete_chunks_of noteId db = (Inr (), drop_chunks (\<lambda>c. cnote c = noteId) db)"

definition insert_chunk :: "(gostring \<Rightarrow> goerr) \<Rightarrow> int \<Rightarrow> nat \<Rightarrow> gostring \<Rightarrow> pg \<Rightarrow> unit result \<times> pg" where
  "insert_chunk viol noteId i chunkText db =
     (if int i > max_int2 \<or> \<not> text_ok chunkText then (Inl (viol ''chunks''), db)
      else if chunkSeq db > max_int4 then (Inl (viol ''chunks_id_seq''), db)
      else
        (let c = chunkSeq db; db = db\<lparr>chunkSeq := c + 1\<rparr> in
         if noteId \<notin> nid ` set (noteRows db) then (Inl (viol ''chunks_note_id_fkey''), db)
         else if \<exists>r\<in>set (chunkRows db). cnote r = noteId \<and> cindex r = int i
         then (Inl (viol ''chunks_note_id_chunk_index_key''), db)
         else (Inr (), db\<lparr>chunkRows := chunkRows db @ [\<lparr>cid = c, cnote = noteId, cindex = int i, ctext = chunkText\<rparr>]\<rparr>)))"

definition delete_notes :: "(gostring \<Rightarrow> goerr) \<Rightarrow> gostring list \<Rightarrow> pg \<Rightarrow> int result \<times> pg" where
  "delete_notes viol keepPaths db =
     (if \<not> list_all text_ok keepPaths then (Inl (viol ''text''), db)
      else
        (let gone = filter (\<lambda>r. npath r \<notin> set keepPaths) (noteRows db)
         in (Inr (int (length gone)),
             drop_chunks (\<lambda>c. cnote c \<in> nid ` set gone)
               (db\<lparr>noteRows := filter (\<lambda>r. npath r \<in> set keepPaths) (noteRows db)\<rparr>))))"

definition table_of :: "pg \<Rightarrow> gostring \<Rightarrow> vec_table option" where
  "table_of db name = find (\<lambda>t. tname t = name) (vecTables db)"

definition pending_rows :: "pg \<Rightarrow> vec_table \<Rightarrow> chunk_row list" where
  "pending_rows db t = sort_key cid (filter (\<lambda>c. cid c \<notin> fst ` set (trows t)) (chunkRows db))"

text \<open>The multi-row insert with \<open>ON CONFLICT (chunk_id) DO UPDATE\<close>.\<close>

definition put_vector :: "int \<times> Vector \<Rightarrow> (int \<times> Vector) list \<Rightarrow> (int \<times> Vector) list" where
  "put_vector cv rows =
     (if fst cv \<in> fst ` set rows then map (\<lambda>r. if fst r = fst cv then cv else r) rows else rows @ [cv])"

definition insert_vectors ::
  "(gostring \<Rightarrow> goerr) \<Rightarrow> gostring \<Rightarrow> (int \<times> Vector) list \<Rightarrow> pg \<Rightarrow> unit result \<times> pg" where
  "insert_vectors viol name batch db =
     (case table_of db name of
        None \<Rightarrow> (Inl (viol name), db)
      | Some t \<Rightarrow>
          if \<not> list_all (\<lambda>(c, v). int (length v) = tdim t \<and> list_all f32_finite v) batch
          then (Inl (viol ''vector''), db)
          else if \<not> distinct (map fst batch) then (Inl (viol ''cannot affect row a second time''), db)
          else if \<not> list_all (\<lambda>(c, v). c \<in> cid ` set (chunkRows db)) batch
          then (Inl (viol ''chunk_id_fkey''), db)
          else (Inr (), db\<lparr>vecTables := map (\<lambda>t. if tname t = name then t\<lparr>trows := fold put_vector batch (trows t)\<rparr> else t)
                                      (vecTables db)\<rparr>))"

definition register_space ::
  "(gostring \<Rightarrow> goerr) \<Rightarrow> int \<Rightarrow> Space \<Rightarrow> gostring \<Rightarrow> pg \<Rightarrow> (int \<times> gostring) result \<times> pg" where
  "register_space viol created space slug db =
     (if \<not> (text_ok (spaceProvider space) \<and> text_ok (spaceModel space) \<and> text_ok slug)
      then (Inl (viol ''text''), db)
      else if spaceSeq db > max_int2 then (Inl (viol ''embedding_spaces_id_seq''), db)
      else
        (let spaceId = spaceSeq db; db = db\<lparr>spaceSeq := spaceId + 1\<rparr> in
         if \<not> (1 \<le> Dim space \<and> Dim space \<le> 16000) then (Inl (viol ''embedding_spaces_dim_check''), db)
         else
           (case find (\<lambda>r. sspace r = space) (spaceRows db) of
              Some row \<Rightarrow> (Inr (sid row, stable row), db)
            | None \<Rightarrow>
                if \<exists>r\<in>set (spaceRows db). stable r = slug then (Inl (viol ''embedding_spaces_table_name_key''), db)
                else
                  (Inr (spaceId, slug),
                   db\<lparr>spaceRows := spaceRows db @ [\<lparr>sid = spaceId, sspace = space, stable = slug, screated = created\<rparr>]\<rparr>))))"

definition create_table :: "gostring \<Rightarrow> int \<Rightarrow> pg \<Rightarrow> unit result \<times> pg" where
  "create_table name dim db =
     (if table_of db name \<noteq> None then (Inr (), db)
      else (Inr (), db\<lparr>vecTables := vecTables db @ [\<lparr>tname = name, tdim = dim, trows = []\<rparr>]\<rparr>))"

text \<open>An index is no state of the model; building one fails above a number of dimensions.\<close>

definition create_index :: "(gostring \<Rightarrow> goerr) \<Rightarrow> int \<Rightarrow> gostring \<Rightarrow> pg \<Rightarrow> unit result \<times> pg" where
  "create_index viol max_dim name db =
     (case table_of db name of
        None \<Rightarrow> (Inl (viol name), db)
      | Some t \<Rightarrow> if tdim t > max_dim then (Inl (viol ''hnsw''), db) else (Inr (), db))"

section \<open>Consistency\<close>

definition notes_ok :: "pg \<Rightarrow> bool" where
  "notes_ok db \<longleftrightarrow> distinct (map nid (noteRows db)) \<and> distinct (map npath (noteRows db)) \<and>
     (\<forall>r\<in>set (noteRows db). nid r < noteSeq db)"

definition chunks_ok :: "pg \<Rightarrow> bool" where
  "chunks_ok db \<longleftrightarrow> distinct (map cid (chunkRows db)) \<and> distinct (map (\<lambda>c. (cnote c, cindex c)) (chunkRows db)) \<and>
     (\<forall>c\<in>set (chunkRows db). cid c < chunkSeq db \<and> cnote c \<in> nid ` set (noteRows db))"

definition rows_ok :: "pg \<Rightarrow> vec_table \<Rightarrow> bool" where
  "rows_ok db t \<longleftrightarrow> distinct (map fst (trows t)) \<and>
     (\<forall>(c, v)\<in>set (trows t). c \<in> cid ` set (chunkRows db) \<and> int (length v) = tdim t)"

definition tables_ok :: "pg \<Rightarrow> bool" where
  "tables_ok db \<longleftrightarrow> distinct (map tname (vecTables db)) \<and> (\<forall>t\<in>set (vecTables db). rows_ok db t)"

definition spaces_ok :: "pg \<Rightarrow> bool" where
  "spaces_ok db \<longleftrightarrow> distinct (map sspace (spaceRows db)) \<and> distinct (map stable (spaceRows db)) \<and>
     (\<forall>r\<in>set (spaceRows db). \<exists>t\<in>set (vecTables db). tname t = stable r \<and> tdim t = Dim (sspace r)) \<and>
     (\<forall>t\<in>set (vecTables db). tname t \<in> stable ` set (spaceRows db))"

definition db_ok :: "pg \<Rightarrow> bool" where
  "db_ok db \<longleftrightarrow> notes_ok db \<and> chunks_ok db \<and> tables_ok db \<and> spaces_ok db"

lemma db_okI [intro]: "notes_ok db \<Longrightarrow> chunks_ok db \<Longrightarrow> tables_ok db \<Longrightarrow> spaces_ok db \<Longrightarrow> db_ok db"
  by (simp add: db_ok_def)

lemma db_ok_empty [inv_intros]: "db_ok empty_pg"
  by (simp add: db_ok_def notes_ok_def chunks_ok_def tables_ok_def rows_ok_def spaces_ok_def empty_pg_def)

section \<open>Every statement keeps the consistency\<close>

text \<open>Sequences only grow.\<close>

definition seq_le :: "pg \<Rightarrow> pg \<Rightarrow> bool" where
  "seq_le db db' \<longleftrightarrow> noteSeq db \<le> noteSeq db' \<and> chunkSeq db \<le> chunkSeq db' \<and> spaceSeq db \<le> spaceSeq db'"

lemma seq_le_refl [simp]: "seq_le db db"
  by (simp add: seq_le_def)

lemma seq_le_trans: "seq_le a b \<Longrightarrow> seq_le b c \<Longrightarrow> seq_le a c"
  by (auto simp: seq_le_def)

lemma rollback_ok [inv_intros]: "db_ok old \<Longrightarrow> seq_le old db \<Longrightarrow> db_ok (rollback old db)"
  by (auto simp: rollback_def db_ok_def notes_ok_def chunks_ok_def tables_ok_def rows_ok_def spaces_ok_def seq_le_def)

lemma in_set_map: "x \<in> set xs \<Longrightarrow> f x \<in> set (map f xs)"
  by simp

lemma find_None: "find p xs = None \<longleftrightarrow> (\<forall>x\<in>set xs. \<not> p x)"
  by (induction xs) auto

lemma find_Some: "find p xs = Some x \<Longrightarrow> x \<in> set xs \<and> p x"
  by (induction xs) (auto split: if_splits)

lemma filter_distinct_single: "distinct (map f xs) \<Longrightarrow> x \<in> set xs \<Longrightarrow> filter (\<lambda>y. f y = f x) xs = [x]"
proof (induction xs)
  case (Cons a xs)
  show ?case
  proof (cases "x = a")
    case True
    then have "\<forall>y\<in>set xs. f y \<noteq> f x" using Cons.prems by (auto simp: image_iff) (metis imageI)?
    then show ?thesis using True by (simp add: filter_empty_conv)
  next
    case False
    then show ?thesis using Cons by (auto simp: image_iff)
  qed
qed simp

lemma find_filter: "(\<And>x. p x \<Longrightarrow> q x) \<Longrightarrow> find p (filter q xs) = find p xs"
  by (induction xs) auto

lemma find_distinct: "distinct (map f xs) \<Longrightarrow> x \<in> set xs \<Longrightarrow> find (\<lambda>y. f y = f x) xs = Some x"
  by (induction xs) auto

lemma map_fields [db_simps]:
  "map nid (map (\<lambda>r. if npath r = p then r\<lparr>nname := a, ntext := b, nhash := c\<rparr> else r) rs) = map nid rs"
  "map npath (map (\<lambda>r. if npath r = p then r\<lparr>nname := a, ntext := b, nhash := c\<rparr> else r) rs) = map npath rs"
  by (induction rs) auto

lemma distinct_map_filter': "distinct (map f xs) \<Longrightarrow> distinct (map f (filter p xs))"
  by (induction xs) auto

text \<open>Only the notes change, and their ids at most grow by the next one.\<close>

lemma upsert_note_ok [inv_intros]: "db_ok db \<Longrightarrow> db_ok (snd (upsert_note viol info db))"
proof -
  assume ok: "db_ok db"
  let ?new = "\<lparr>nid = noteSeq db, npath = notePath info, nname = noteName info,
    ntext = noteText info, nhash = noteHash info\<rparr>"
  let ?upd = "\<lambda>r. if npath r = notePath info
    then r\<lparr>nname := noteName info, ntext := noteText info, nhash := noteHash info\<rparr> else r"
  have seq: "db_ok (db\<lparr>noteSeq := noteSeq db + 1\<rparr>)"
    using ok by (fastforce simp: db_ok_def notes_ok_def chunks_ok_def tables_ok_def rows_ok_def spaces_ok_def)
  have new: "db_ok (db\<lparr>noteSeq := noteSeq db + 1, noteRows := noteRows db @ [?new]\<rparr>)"
    if "find (\<lambda>r. npath r = notePath info) (noteRows db) = None"
    using ok that
    by (fastforce simp: db_ok_def notes_ok_def chunks_ok_def tables_ok_def rows_ok_def spaces_ok_def find_None)
  have upd: "db_ok (db\<lparr>noteSeq := noteSeq db + 1, noteRows := map ?upd (noteRows db)\<rparr>)"
  proof -
    have "nid ` set (map ?upd (noteRows db)) = nid ` set (noteRows db)"
      by (simp only: map_fields set_map [symmetric])
    moreover have "\<forall>r\<in>set (map ?upd (noteRows db)). nid r < noteSeq db + 1"
      using ok by (fastforce simp: db_ok_def notes_ok_def)
    ultimately show ?thesis
      using ok unfolding db_ok_def notes_ok_def chunks_ok_def tables_ok_def rows_ok_def spaces_ok_def
      by (simp add: map_fields del: set_map map_map)
  qed
  show ?thesis
    using ok seq new upd by (simp add: upsert_note_def Let_def split: option.splits)
qed

lemma upsert_note_seq: "seq_le db (snd (upsert_note viol info db))"
  by (auto simp: upsert_note_def seq_le_def Let_def split: option.splits)

lemma drop_chunks_ok [inv_intros]: "db_ok db \<Longrightarrow> db_ok (drop_chunks p db)"
proof -
  assume ok: "db_ok db"
  have "notes_ok (drop_chunks p db)" "spaces_ok (drop_chunks p db)"
    using ok by (auto simp: drop_chunks_def db_ok_def notes_ok_def spaces_ok_def Let_def)
  moreover have "chunks_ok (drop_chunks p db)"
    using ok by (auto simp: drop_chunks_def db_ok_def chunks_ok_def Let_def distinct_map_filter')
  moreover have "tables_ok (drop_chunks p db)"
    using ok
    by (fastforce simp: drop_chunks_def db_ok_def tables_ok_def rows_ok_def Let_def distinct_map_filter' comp_def)
  ultimately show ?thesis by blast
qed

lemma drop_chunks_seq [simp]: "seq_le db (drop_chunks p db)"
  by (simp add: drop_chunks_def seq_le_def Let_def)

lemma insert_chunk_ok [inv_intros]: "db_ok db \<Longrightarrow> db_ok (snd (insert_chunk viol n i t db))"
proof -
  assume ok: "db_ok db"
  let ?db = "db\<lparr>chunkSeq := chunkSeq db + 1,
    chunkRows := chunkRows db @ [\<lparr>cid = chunkSeq db, cnote = n, cindex = int i, ctext = t\<rparr>]\<rparr>"
  have "db_ok (db\<lparr>chunkSeq := chunkSeq db + 1\<rparr>)"
    using ok by (fastforce simp: db_ok_def notes_ok_def chunks_ok_def tables_ok_def rows_ok_def spaces_ok_def)
  moreover have "db_ok ?db" if "n \<in> nid ` set (noteRows db)"
    "\<not> (\<exists>r\<in>set (chunkRows db). cnote r = n \<and> cindex r = int i)"
  proof -
    have "chunks_ok ?db"
      using ok that unfolding db_ok_def chunks_ok_def by (auto simp: image_iff) (fastforce+)?
    moreover have "notes_ok ?db" "spaces_ok ?db" "tables_ok ?db"
      using ok by (auto simp: db_ok_def notes_ok_def spaces_ok_def tables_ok_def rows_ok_def) 
    ultimately show ?thesis by blast
  qed
  ultimately show ?thesis using ok by (auto simp: insert_chunk_def Let_def)
qed

lemma insert_chunk_seq: "seq_le db (snd (insert_chunk viol n i t db))"
  by (auto simp: insert_chunk_def seq_le_def Let_def)

lemma delete_notes_ok [inv_intros]: "db_ok db \<Longrightarrow> db_ok (snd (delete_notes viol keep db))"
proof -
  assume ok: "db_ok db"
  let ?gone = "filter (\<lambda>r. npath r \<notin> set keep) (noteRows db)"
  let ?kept = "filter (\<lambda>r. npath r \<in> set keep) (noteRows db)"
  let ?p = "\<lambda>c. cnote c \<in> nid ` set ?gone"
  let ?db = "drop_chunks ?p db\<lparr>noteRows := ?kept\<rparr>"
  have d: "db_ok (drop_chunks ?p db)" using ok by (rule drop_chunks_ok)
  have eq: "drop_chunks ?p (db\<lparr>noteRows := ?kept\<rparr>) = ?db" by (simp add: drop_chunks_def Let_def)
  have kept: "cnote c \<in> nid ` set ?kept" if "c \<in> set (chunkRows db)" "\<not> ?p c" for c
  proof -
    from ok that(1) obtain r where "r \<in> set (noteRows db)" "cnote c = nid r"
      by (auto simp: db_ok_def chunks_ok_def)
    with that(2) show ?thesis by (cases "npath r \<in> set keep") auto
  qed
  have "notes_ok ?db" using ok by (auto simp: db_ok_def notes_ok_def distinct_map_filter' drop_chunks_def Let_def)
  moreover have "chunks_ok ?db" using d kept
    by (auto simp: db_ok_def chunks_ok_def drop_chunks_def Let_def)
  moreover have "tables_ok ?db" "spaces_ok ?db" using d
    by (simp_all add: db_ok_def tables_ok_def rows_ok_def spaces_ok_def)
  ultimately show ?thesis using ok eq by (simp add: delete_notes_def Let_def db_okI)
qed

lemma delete_notes_seq: "seq_le db (snd (delete_notes viol keep db))"
  by (simp add: delete_notes_def seq_le_def drop_chunks_def Let_def)

text \<open>Putting vectors: the last one given for a chunk wins, the others stay.\<close>

lemma map_fst_replace: "map fst (map (\<lambda>r. if fst r = fst cv then cv else r) rows) = map fst rows"
  by (induction rows) auto

lemma fst_put_vector: "fst ` set (put_vector cv rows) = insert (fst cv) (fst ` set rows)"
  using arg_cong [OF map_fst_replace [of cv rows], of set]
  by (auto simp: put_vector_def simp del: map_map)

lemma distinct_put_vector: "distinct (map fst rows) \<Longrightarrow> distinct (map fst (put_vector cv rows))"
  by (auto simp: put_vector_def map_fst_replace simp del: map_map)

lemma set_put_vector: "set (put_vector cv rows) \<subseteq> insert cv (set rows)"
  by (auto simp: put_vector_def)

lemma fst_fold_put: "fst ` set (fold put_vector batch rows) = fst ` set batch \<union> fst ` set rows"
  by (induction batch arbitrary: rows) (auto simp: fst_put_vector)

lemma distinct_fold_put: "distinct (map fst rows) \<Longrightarrow> distinct (map fst (fold put_vector batch rows))"
  by (induction batch arbitrary: rows) (auto simp: distinct_put_vector)

lemma set_fold_put: "set (fold put_vector batch rows) \<subseteq> set batch \<union> set rows"
  by (induction batch arbitrary: rows) (auto dest!: set_put_vector [THEN subsetD] subsetD)

lemma insert_vectors_ok [inv_intros]: "db_ok db \<Longrightarrow> db_ok (snd (insert_vectors viol name batch db))"
proof -
  assume ok: "db_ok db"
  let ?upd = "\<lambda>t. if tname t = name then t\<lparr>trows := fold put_vector batch (trows t)\<rparr> else t"
  have "tables_ok (db\<lparr>vecTables := map ?upd (vecTables db)\<rparr>)"
    if t: "table_of db name = Some t0"
      and good: "list_all (\<lambda>(c, v). int (length v) = tdim t0 \<and> list_all f32_finite v) batch"
        "list_all (\<lambda>(c, v). c \<in> cid ` set (chunkRows db)) batch" for t0
  proof -
    have names: "map tname (map ?upd ts) = map tname ts" for ts by (induction ts) auto
    have t0: "t0 \<in> set (vecTables db)" "tname t0 = name" using t by (auto simp: table_of_def dest: find_Some)
    have same: "t = t0" if "t \<in> set (vecTables db)" "tname t = name" for t
      using ok t0 that unfolding db_ok_def tables_ok_def distinct_map inj_on_def by metis
    have "rows_ok db (?upd t)" if "t \<in> set (vecTables db)" for t
    proof (cases "tname t = name")
      case True
      then have "t = t0" using same that by simp
      have old: "rows_ok db t0" using ok t0 by (simp add: db_ok_def tables_ok_def)
      have "\<forall>(c, v)\<in>set batch. c \<in> cid ` set (chunkRows db) \<and> int (length v) = tdim t0"
        using good by (auto simp: list_all_iff)
      then have "\<forall>(c, v)\<in>set (fold put_vector batch (trows t0)).
          c \<in> cid ` set (chunkRows db) \<and> int (length v) = tdim t0"
        using old set_fold_put [of batch "trows t0"] unfolding rows_ok_def by blast
      with old \<open>t = t0\<close> t0 show ?thesis by (simp add: rows_ok_def distinct_fold_put)
    next
      case False
      then show ?thesis using ok that by (simp add: db_ok_def tables_ok_def)
    qed
    then have "Ball (set (map ?upd (vecTables db))) (rows_ok db)"
      unfolding set_map by blast
    moreover have "rows_ok (db\<lparr>vecTables := ts\<rparr>) = rows_ok db" for ts by (simp add: rows_ok_def fun_eq_iff)
    moreover have "distinct (map tname (map ?upd (vecTables db)))"
      unfolding names using ok by (simp add: db_ok_def tables_ok_def)
    ultimately show ?thesis unfolding tables_ok_def by (simp del: map_map set_map)
  qed
  moreover have "spaces_ok (db\<lparr>vecTables := map ?upd (vecTables db)\<rparr>)"
  proof -
    have keep: "\<exists>t'\<in>set (map ?upd ts). tname t' = tname t \<and> tdim t' = tdim t" if "t \<in> set ts" for t ts
    proof (intro bexI [of _ "?upd t"])
      show "?upd t \<in> set (map ?upd ts)" using that by (rule in_set_map)
    qed simp
    have "\<exists>t'\<in>set (map ?upd (vecTables db)). tname t' = stable r \<and> tdim t' = Dim (sspace r)"
      if "r \<in> set (spaceRows db)" for r
    proof -
      from ok that obtain t where "t \<in> set (vecTables db)" "tname t = stable r" "tdim t = Dim (sspace r)"
        unfolding db_ok_def spaces_ok_def by blast
      with keep [OF this(1)] show ?thesis by auto
    qed
    then show ?thesis using ok unfolding db_ok_def spaces_ok_def by (simp del: set_map) auto
  qed
  moreover have "notes_ok (db\<lparr>vecTables := map ?upd (vecTables db)\<rparr>)" "chunks_ok (db\<lparr>vecTables := map ?upd (vecTables db)\<rparr>)"
    using ok by (simp_all add: db_ok_def notes_ok_def chunks_ok_def)
  ultimately show ?thesis using ok by (auto simp: insert_vectors_def split: option.splits)
qed

lemma insert_vectors_seq: "seq_le db (snd (insert_vectors viol name batch db))"
  by (simp add: insert_vectors_def seq_le_def split: option.splits)

text \<open>
  Registering a space and creating its table: in between, the new space has no table yet, so
  the two statements are taken together.
\<close>

lemma register_space_seq: "seq_le db (snd (register_space viol created space slug db))"
  by (auto simp: register_space_def seq_le_def Let_def split: option.splits)

lemma create_table_seq [simp]: "seq_le db (snd (create_table name dim db))"
  by (simp add: create_table_def seq_le_def)

lemma create_index_same [simp]: "snd (create_index viol m name db) = db"
  by (simp add: create_index_def split: option.splits)

lemma table_of_in: "tables_ok db \<Longrightarrow> table_of db name = Some t \<longleftrightarrow> t \<in> set (vecTables db) \<and> tname t = name"
  unfolding tables_ok_def table_of_def using find_Some find_distinct [of tname "vecTables db" t] by force

lemma table_of_None: "table_of db name = None \<longleftrightarrow> name \<notin> tname ` set (vecTables db)"
  by (auto simp: table_of_def find_None)

lemma register_create_ok:
  assumes ok: "db_ok db" and reg: "register_space viol created space slug db = (Inr (i, name), db1)"
  shows "db_ok (snd (create_table name (Dim space) db1)) \<and>
    (\<exists>t. table_of (snd (create_table name (Dim space) db1)) name = Some t \<and> tdim t = Dim space) \<and>
    (\<exists>r\<in>set (spaceRows (snd (create_table name (Dim space) db1))). sspace r = space \<and> stable r = name) \<and>
    (\<forall>t\<in>set (vecTables db). table_of (snd (create_table name (Dim space) db1)) (tname t) = Some t)"
proof (cases "find (\<lambda>r. sspace r = space) (spaceRows db)")
  case (Some row)
  then have row: "row \<in> set (spaceRows db)" "sspace row = space" by (auto dest: find_Some)
  have db1: "db1 = db\<lparr>spaceSeq := spaceSeq db + 1\<rparr>" "name = stable row"
    using reg Some by (auto simp: register_space_def Let_def split: if_splits)
  have ok1: "db_ok db1" using ok unfolding db1
    by (auto simp: db_ok_def notes_ok_def chunks_ok_def tables_ok_def rows_ok_def spaces_ok_def)
  obtain t where t: "t \<in> set (vecTables db)" "tname t = name" "tdim t = Dim space"
    using ok row db1 unfolding db_ok_def spaces_ok_def by metis
  then have tab: "table_of db1 name = Some t" using ok1 db1(1) by (simp add: db_ok_def table_of_in)
  then have "create_table name (Dim space) db1 = (Inr (), db1)" by (simp add: create_table_def)
  with ok1 tab t row db1 show ?thesis by (auto simp: db_ok_def table_of_in)
next
  case None
  have fresh: "slug \<notin> stable ` set (spaceRows db)"
    and db1: "db1 = db\<lparr>spaceSeq := spaceSeq db + 1, spaceRows := spaceRows db @
      [\<lparr>sid = spaceSeq db, sspace = space, stable = slug, screated = created\<rparr>]\<rparr>" "name = slug"
    using reg None by (auto simp: register_space_def Let_def split: if_splits)
  have "table_of db1 name = None"
    using ok fresh unfolding db1 by (force simp: table_of_None db_ok_def spaces_ok_def)
  then have eq: "snd (create_table name (Dim space) db1) =
      db1\<lparr>vecTables := vecTables db @ [\<lparr>tname = name, tdim = Dim space, trows = []\<rparr>]\<rparr>" (is "_ = ?db")
    by (simp add: create_table_def db1)
  have names: "slug \<notin> tname ` set (vecTables db)" using ok fresh by (auto simp: db_ok_def spaces_ok_def)
  have "sspace r \<noteq> space" if "r \<in> set (spaceRows db)" for r using None that by (simp add: find_None)
  then have "notes_ok ?db" "chunks_ok ?db" "tables_ok ?db" "spaces_ok ?db"
    using ok fresh names unfolding db1
    by (auto simp: db_ok_def notes_ok_def chunks_ok_def tables_ok_def rows_ok_def spaces_ok_def)
  then have okdb: "db_ok ?db" by blast
  then have tab: "table_of ?db n = Some t \<longleftrightarrow> t \<in> set (vecTables ?db) \<and> tname t = n" for n t
    by (auto simp: db_ok_def table_of_in)
  show ?thesis unfolding eq
  proof (intro conjI)
    have "table_of ?db name = Some \<lparr>tname = name, tdim = Dim space, trows = []\<rparr>" by (simp add: tab)
    then show "\<exists>t. table_of ?db name = Some t \<and> tdim t = Dim space" by auto
    show "\<forall>t\<in>set (vecTables db). table_of ?db (tname t) = Some t" by (simp add: tab)
    show "\<exists>r\<in>set (spaceRows ?db). sspace r = space \<and> stable r = name" unfolding db1 by simp
  qed (rule okdb)
qed

section \<open>The index as a map from paths\<close>

text \<open>
  What the tables say about a path: the note's fields and its chunks in order. The
  specification of the operations is in terms of this map.
\<close>

record doc =
  docName :: gostring
  docText :: gostring
  docHash :: gostring
  docChunks :: "gostring list"

definition note_chunks :: "pg \<Rightarrow> int \<Rightarrow> chunk_row list" where
  "note_chunks db i = sort_key cindex (filter (\<lambda>c. cnote c = i) (chunkRows db))"

definition row_doc :: "pg \<Rightarrow> note_row \<Rightarrow> doc" where
  "row_doc db r = \<lparr>docName = nname r, docText = ntext r, docHash = nhash r,
     docChunks = map ctext (note_chunks db (nid r))\<rparr>"

definition index_of :: "pg \<Rightarrow> gostring \<Rightarrow> doc option" where
  "index_of db p = map_option (row_doc db) (find (\<lambda>r. npath r = p) (noteRows db))"

lemma find_path: "notes_ok db \<Longrightarrow> r \<in> set (noteRows db) \<Longrightarrow> find (\<lambda>x. npath x = npath r) (noteRows db) = Some r"
  by (simp add: notes_ok_def find_distinct)

text \<open>The index is unchanged by what touches neither notes nor chunks.\<close>

lemma index_of_cong: "noteRows db = noteRows db' \<Longrightarrow> chunkRows db = chunkRows db' \<Longrightarrow> index_of db = index_of db'"
proof -
  assume eq: "noteRows db = noteRows db'" "chunkRows db = chunkRows db'"
  then have "row_doc db = row_doc db'" by (simp add: row_doc_def note_chunks_def fun_eq_iff)
  with eq(1) show ?thesis unfolding index_of_def by simp
qed

lemma index_of_rollback [simp]: "index_of (rollback old db) = index_of old"
  by (rule index_of_cong) (simp_all add: rollback_def)

lemma index_of_insert_vectors [simp]: "index_of (snd (insert_vectors viol name batch db)) = index_of db"
  by (rule index_of_cong) (simp_all add: insert_vectors_def split: option.splits)

text \<open>Deleting the missing notes restricts the map.\<close>

lemma index_of_delete_notes:
  assumes ok: "db_ok db" and keep: "list_all text_ok keep"
  shows "index_of (snd (delete_notes viol keep db)) = (index_of db) |` set keep"
proof
  fix p
  let ?gone = "filter (\<lambda>r. npath r \<notin> set keep) (noteRows db)"
  let ?db = "snd (delete_notes viol keep db)"
  have rows: "noteRows ?db = filter (\<lambda>r. npath r \<in> set keep) (noteRows db)"
    "chunkRows ?db = filter (\<lambda>c. cnote c \<notin> nid ` set ?gone) (chunkRows db)"
    using keep by (simp_all add: delete_notes_def drop_chunks_def Let_def)
  have nok: "notes_ok db" using ok by (simp add: db_ok_def)
  have find: "find (\<lambda>r. npath r = p) (noteRows ?db) =
      (if p \<in> set keep then find (\<lambda>r. npath r = p) (noteRows db) else None)"
    unfolding rows using find_filter [of "\<lambda>r. npath r = p" "\<lambda>r. npath r \<in> set keep"] by (auto simp: find_None)
  show "index_of ?db p = ((index_of db) |` set keep) p"
  proof (cases "p \<in> set keep \<and> find (\<lambda>r. npath r = p) (noteRows db) \<noteq> None")
    case False
    then show ?thesis using find by (auto simp: index_of_def restrict_map_def)
  next
    case True
    then obtain r where r: "find (\<lambda>r. npath r = p) (noteRows db) = Some r" "p \<in> set keep" by auto
    then have r': "r \<in> set (noteRows db)" "npath r = p" by (auto dest: find_Some)
    have "nid x \<noteq> nid r" if "x \<in> set (noteRows db)" "npath x \<notin> set keep" for x
      using nok r r' that unfolding notes_ok_def distinct_map inj_on_def by metis
    then have "note_chunks ?db (nid r) = note_chunks db (nid r)"
      unfolding note_chunks_def rows filter_filter
      by (intro arg_cong [where f = "sort_key cindex"] filter_cong) auto
    then show ?thesis using find r by (simp add: index_of_def row_doc_def restrict_map_def)
  qed
qed

end
