(* ===== verification/Storage.thy ===== *)
theory Storage
  imports Database "HOL-Library.Product_Lexorder"
begin

text \<open>
  \<open>internal/storage\<close>: the operations of \<open>Store\<close>, each a function of the environment and the
  database, composed of the statements of \<open>Database\<close> the way the code sends them, with the
  code's error texts. pgvector's cosine distance, the subtraction of the score and the
  choice of rows by an approximate index are parameters (record \<open>pgvector\<close>).
\<close>

section \<open>References to a space\<close>

record SpaceRef =
  refId :: int
  refSpace :: Space
  refTable :: gostring

text \<open>\<open>pgx.Identifier.Sanitize\<close> of one part.\<close>

definition sanitize_ident :: "gostring \<Rightarrow> gostring" where
  "sanitize_ident name =
     CHR 0x22 # concat (map (\<lambda>c. if c = CHR 0x22 then [c, c] else [c]) (filter (\<lambda>c. c \<noteq> CHR 0x00) name)) @ [CHR 0x22]"

definition Table :: "SpaceRef \<Rightarrow> gostring" where
  "Table r = sanitize_ident (refTable r)"

definition SpaceRef_String :: "SpaceRef \<Rightarrow> gostring" where
  "SpaceRef_String r = Space_String (refSpace r) @ '' ('' @ refTable r @ '')''"

definition map_err :: "(goerr \<Rightarrow> goerr) \<Rightarrow> 'a result \<times> 's \<Rightarrow> 'a result \<times> 's" where
  "map_err f r = (case r of (Inl e, s) \<Rightarrow> (Inl (f e), s) | (Inr v, s) \<Rightarrow> (Inr v, s))"

section \<open>Saving a note\<close>

fun insert_chunks :: "'e dbenv \<Rightarrow> int \<Rightarrow> nat \<Rightarrow> gostring list \<Rightarrow> 'e \<times> pg \<Rightarrow> unit result \<times> 'e \<times> pg" where
  "insert_chunks env noteId i [] s = (Inr (), s)"
| "insert_chunks env noteId i (chunkText # rest) s =
     (case exec env (insert_chunk (violation env) noteId i chunkText) s of
        (Inl x, s) \<Rightarrow> (Inl (wrap (''failed to insert chunk '' @ show_nat i) x), s)
      | (Inr _, s) \<Rightarrow> insert_chunks env noteId (i + 1) rest s)"

definition save_body ::
  "'e dbenv \<Rightarrow> Note \<Rightarrow> gostring list result \<Rightarrow> 'e \<times> pg \<Rightarrow> (int \<times> bool) result \<times> 'e \<times> pg" where
  "save_body env info chunker s =
     (case exec env (upsert_note (violation env) info) s of
        (Inl x, s) \<Rightarrow> (Inl (wrap ''upsert note failed'' x), s)
      | (Inr (noteId, written), s) \<Rightarrow>
          if \<not> written then (Inr (noteId, False), s)
          else
            (case chunker of
               Inl x \<Rightarrow> (Inl (wrap (''chunking failed for '' @ notePath info) x), s)
             | Inr cs \<Rightarrow>
                 (case exec env (delete_chunks_of noteId) s of
                    (Inl x, s) \<Rightarrow> (Inl (wrap ''failed to delete old chunks'' x), s)
                  | (Inr _, s) \<Rightarrow>
                      (case insert_chunks env noteId 0 cs s of
                         (Inl x, s) \<Rightarrow> (Inl x, s)
                       | (Inr _, s) \<Rightarrow> (Inr (noteId, True), s)))))"

text \<open>\<open>chunker\<close> is what the callback returns; it is called only when the note was written.\<close>

definition SaveNoteWithChunks ::
  "'e dbenv \<Rightarrow> Note \<Rightarrow> gostring list result \<Rightarrow> 'e \<times> pg \<Rightarrow> (int \<times> bool) result \<times> 'e \<times> pg" where
  "SaveNoteWithChunks env info chunker =
     in_tx env ''cannot start transaction'' (\<lambda>(_, written). if written then ''commit full tx'' else ''commit tx'')
       (save_body env info chunker)"

section \<open>Pending chunks and their vectors\<close>

definition PendingChunks ::
  "'e dbenv \<Rightarrow> SpaceRef \<Rightarrow> int \<Rightarrow> 'e \<times> pg \<Rightarrow> (int \<times> gostring) list result \<times> 'e \<times> pg" where
  "PendingChunks env ref limit s =
     (let limit = (if limit < 1 then 1 else limit) in
      map_err (wrap (''pending chunks for '' @ SpaceRef_String ref))
        (exec env (\<lambda>db. (case table_of db (refTable ref) of
             None \<Rightarrow> Inl (violation env (refTable ref))
           | Some t \<Rightarrow> Inr (map (\<lambda>c. (cid c, ctext c)) (take (nat limit) (pending_rows db t))), db)) s))"

record ChunkVector =
  cvChunk :: int
  cvVector :: Vector

text \<open>The arguments of a statement.\<close>

datatype sql_arg = IntArg int | VecArg Vector

fun insert_loop ::
  "SpaceRef \<Rightarrow> nat \<Rightarrow> ChunkVector list \<Rightarrow> gostring \<Rightarrow> sql_arg list \<Rightarrow> (gostring \<times> sql_arg list) result" where
  "insert_loop ref i [] sb args = Inr (sb, args)"
| "insert_loop ref i (cv # batch) sb args =
     (if int (length (cvVector cv)) \<noteq> Dim (refSpace ref) then
        Inl (Plain (''save embeddings for '' @ SpaceRef_String ref @ '': chunk '' @ show_int (cvChunk cv) @
          '' has dimension '' @ show_nat (length (cvVector cv)) @ '', want '' @ show_int (Dim (refSpace ref))))
      else
        insert_loop ref (i + 1) batch
          (sb @ (if i > 0 then '', '' else []) @
             ''($'' @ show_nat (length args + 1) @ '', $'' @ show_nat (length args + 2) @ '')'')
          (args @ [IntArg (cvChunk cv), VecArg (cvVector cv)]))"

definition on_conflict :: gostring where
  "on_conflict = '' ON CONFLICT (chunk_id) DO UPDATE SET embedding = EXCLUDED.embedding, created_at = now()''"

definition buildEmbeddingInsert :: "SpaceRef \<Rightarrow> ChunkVector list \<Rightarrow> (gostring \<times> sql_arg list) result" where
  "buildEmbeddingInsert ref batch =
     (case insert_loop ref 0 batch (''INSERT INTO '' @ Table ref @ '' (chunk_id, embedding) VALUES '') [] of
        Inl e \<Rightarrow> Inl e
      | Inr (sb, args) \<Rightarrow> Inr (sb @ on_conflict, args))"

text \<open>
  What the server makes of the statement: the numbers of the placeholders in its text, outside
  of quoted names, and the rows of two that the arguments with these numbers are.
\<close>

fun placeholders :: "bool \<Rightarrow> gostring \<Rightarrow> nat list" where
  "placeholders quoted [] = []"
| "placeholders quoted (c # s) =
     (if c = CHR 0x22 then placeholders (\<not> quoted) s
      else if \<not> quoted \<and> c = CHR ''$'' then digits_value (takeWhile is_digit s) # placeholders quoted s
      else placeholders quoted s)"

fun arg_rows :: "sql_arg list \<Rightarrow> (int \<times> Vector) list" where
  "arg_rows (IntArg c # VecArg v # args) = (c, v) # arg_rows args"
| "arg_rows _ = []"

definition bound_rows :: "gostring \<Rightarrow> sql_arg list \<Rightarrow> (int \<times> Vector) list" where
  "bound_rows q args = arg_rows (map (\<lambda>n. args ! (n - 1)) (placeholders False q))"

definition SaveEmbeddings :: "'e dbenv \<Rightarrow> SpaceRef \<Rightarrow> ChunkVector list \<Rightarrow> 'e \<times> pg \<Rightarrow> unit result \<times> 'e \<times> pg" where
  "SaveEmbeddings env ref batch s =
     (if batch = [] then (Inr (), s)
      else (case buildEmbeddingInsert ref batch of
              Inl e \<Rightarrow> (Inl e, s)
            | Inr (q, args) \<Rightarrow>
                map_err (wrap (''save '' @ show_nat (length batch) @ '' embeddings for '' @ SpaceRef_String ref))
                  (exec env (insert_vectors (violation env) (refTable ref) (bound_rows q args)) s)))"

record EmbeddingStats =
  statNotes :: nat
  statChunks :: nat
  statEmbedded :: nat

definition storage_Stats :: "'e dbenv \<Rightarrow> SpaceRef \<Rightarrow> 'e \<times> pg \<Rightarrow> EmbeddingStats result \<times> 'e \<times> pg" where
  "storage_Stats env ref s =
     map_err (wrap (''stats for '' @ SpaceRef_String ref))
       (exec env (\<lambda>db. (case table_of db (refTable ref) of
            None \<Rightarrow> Inl (violation env (refTable ref))
          | Some t \<Rightarrow> Inr \<lparr>statNotes = length (noteRows db), statChunks = length (chunkRows db),
                           statEmbedded = length (trows t)\<rparr>, db)) s)"

definition DeleteMissingNotes :: "'e dbenv \<Rightarrow> gostring list \<Rightarrow> 'e \<times> pg \<Rightarrow> int result \<times> 'e \<times> pg" where
  "DeleteMissingNotes env keepPaths s =
     (if keepPaths = [] then (Inr 0, s)
      else map_err (wrap ''delete notes missing from the vault'')
             (exec env (delete_notes (violation env) keepPaths) s))"

section \<open>Spaces\<close>

definition ensure_body ::
  "'e dbenv \<Rightarrow> gostring \<Rightarrow> Space \<Rightarrow> gostring \<Rightarrow> 'e \<times> pg \<Rightarrow> SpaceRef result \<times> 'e \<times> pg" where
  "ensure_body env pre space slug s =
     (case exec env (\<lambda>db. (Inr (), db)) s of
        (Inl x, s) \<Rightarrow> (Inl (wrap (pre @ ''lock'') x), s)
      | (Inr _, s) \<Rightarrow>
          (case exec env (register_space (violation env) (now env (fst s)) space slug) s of
             (Inl x, s) \<Rightarrow> (Inl (wrap (pre @ ''register'') x), s)
           | (Inr (refid, tbl), s) \<Rightarrow>
               (case exec env (create_table tbl (Dim space)) s of
                  (Inl x, s) \<Rightarrow> (Inl (wrap (pre @ ''create table'') x), s)
                | (Inr _, s) \<Rightarrow>
                    (case exec env (create_index (violation env) (hnsw_max env) tbl) s of
                       (Inl x, s) \<Rightarrow> (Inl (wrap (pre @ ''create index'') x), s)
                     | (Inr _, s) \<Rightarrow> (Inr \<lparr>refId = refid, refSpace = space, refTable = tbl\<rparr>, s)))))"

definition EnsureSpace ::
  "'e dbenv \<Rightarrow> (gostring \<Rightarrow> gostring) \<Rightarrow> (rune \<Rightarrow> rune) \<Rightarrow> Space \<Rightarrow> 'e \<times> pg \<Rightarrow> SpaceRef result \<times> 'e \<times> pg" where
  "EnsureSpace env sha ul space s =
     (case Validate space of
        Some e \<Rightarrow> (Inl e, s)
      | None \<Rightarrow>
          (let pre = ''ensure space '' @ Space_String space @ '': ''
           in in_tx env (pre @ ''begin'') (\<lambda>_. pre @ ''commit'') (ensure_body env pre space (Slug sha ul space)) s))"

definition Spaces :: "'e dbenv \<Rightarrow> 'e \<times> pg \<Rightarrow> SpaceRef list result \<times> 'e \<times> pg" where
  "Spaces env s =
     map_err (wrap ''list embedding spaces'')
       (exec env (\<lambda>db. (Inr (map (\<lambda>r. \<lparr>refId = sid r, refSpace = sspace r, refTable = stable r\<rparr>)
                              (sort_key (\<lambda>r. (- screated r, - sid r)) (spaceRows db))), db)) s)"

section \<open>Search\<close>

record 'e pgvector =
  cosine :: "Vector \<Rightarrow> Vector \<Rightarrow> float64"
  one_minus :: "float64 \<Rightarrow> float64"
  index_scan :: "'e \<Rightarrow> Vector \<Rightarrow> (int \<times> Vector) list \<Rightarrow> (int \<times> Vector) list"

text \<open>PostgreSQL's order of \<open>float8\<close>: numerical, zeros equal, NaN above everything.\<close>

definition f64_key :: "float64 \<Rightarrow> int" where
  "f64_key b =
     (let n = uint b; m = n mod 2 ^ 63
      in if m > 0x7FF0000000000000 then 2 ^ 63 else if n < 2 ^ 63 then m else - m)"

record Hit =
  hitChunk :: int
  hitIndex :: int
  hitText :: gostring
  hitPath :: gostring
  hitName :: gostring
  hitScore :: float64

text \<open>The row of the join for a chunk with a vector, and the sort key beside it.\<close>

definition join_row :: "'e pgvector \<Rightarrow> Vector \<Rightarrow> pg \<Rightarrow> int \<times> Vector \<Rightarrow> ((int \<times> int) \<times> Hit) list" where
  "join_row pv v db cv =
     (case find (\<lambda>c. cid c = fst cv) (chunkRows db) of
        None \<Rightarrow> []
      | Some c \<Rightarrow>
          (case find (\<lambda>n. nid n = cnote c) (noteRows db) of
             None \<Rightarrow> []
           | Some n \<Rightarrow>
               (let d = cosine pv (snd cv) v
                in [((f64_key d, cid c),
                     \<lparr>hitChunk = cid c, hitIndex = cindex c, hitText = ctext c, hitPath = npath n,
                      hitName = nname n, hitScore = one_minus pv d\<rparr>)])))"

definition search_rows :: "'e pgvector \<Rightarrow> 'e \<Rightarrow> Vector \<Rightarrow> nat \<Rightarrow> vec_table \<Rightarrow> pg \<Rightarrow> Hit list" where
  "search_rows pv e v topK t db =
     map snd (take topK (sort_key fst (concat (map (join_row pv v db) (index_scan pv e v (trows t))))))"

definition storage_Search ::
  "'e dbenv \<Rightarrow> 'e pgvector \<Rightarrow> SpaceRef \<Rightarrow> Vector \<Rightarrow> int \<Rightarrow> 'e \<times> pg \<Rightarrow> Hit list result \<times> 'e \<times> pg" where
  "storage_Search env pv ref v topK s =
     (if int (length v) \<noteq> Dim (refSpace ref) then
        (Inl (Plain (''search '' @ SpaceRef_String ref @ '': query vector has dimension '' @ show_nat (length v) @
           '', want '' @ show_int (Dim (refSpace ref)))), s)
      else
        (let topK = (if topK < 1 then 1 else topK) in
         map_err (wrap (''search '' @ SpaceRef_String ref))
           (exec env (\<lambda>db. (case table_of db (refTable ref) of
                None \<Rightarrow> Inl (violation env (refTable ref))
              | Some t \<Rightarrow> Inr (search_rows pv (fst s) v (nat topK) t db), db)) s)))"

section \<open>How a call can end\<close>

lemma exec_Inr: "exec env stmt s = (Inr a, s') \<Longrightarrow> stmt (snd s) = (Inr a, snd s')"
  by (auto simp: exec_def split: prod.splits fault.splits)

lemma exec_state: "snd (snd (exec env stmt s)) = snd s \<or> snd (snd (exec env stmt s)) = snd (stmt (snd s))"
  by (auto simp: exec_def split: prod.splits fault.splits)

lemma snd_map_err [simp]: "snd (map_err f r) = snd r"
  by (simp add: map_err_def split: prod.splits sum.splits)

lemma map_err_Inr [simp]: "map_err f r = (Inr a, s) \<longleftrightarrow> r = (Inr a, s)"
  by (auto simp: map_err_def split: prod.splits sum.splits)

text \<open>A step keeps the consistency and never turns a sequence back.\<close>

definition ok_step :: "('e \<times> pg \<Rightarrow> 'a result \<times> 'e \<times> pg) \<Rightarrow> bool" where
  "ok_step f \<longleftrightarrow> (\<forall>s. db_ok (snd s) \<longrightarrow> db_ok (snd (snd (f s))) \<and> seq_le (snd s) (snd (snd (f s))))"

lemma ok_stepD: "ok_step f \<Longrightarrow> f s = (r, s') \<Longrightarrow> db_ok (snd s) \<Longrightarrow> db_ok (snd s') \<and> seq_le (snd s) (snd s')"
  unfolding ok_step_def by (metis snd_conv)

lemma exec_ok_step:
  assumes "\<And>db. db_ok db \<Longrightarrow> db_ok (snd (stmt db))" "\<And>db. seq_le db (snd (stmt db))"
  shows "ok_step (exec env stmt)"
  unfolding ok_step_def
proof (intro allI impI)
  fix s :: "'b \<times> pg" assume "db_ok (snd s)"
  with assms exec_state [of env stmt s]
  show "db_ok (snd (snd (exec env stmt s))) \<and> seq_le (snd s) (snd (snd (exec env stmt s)))"
    by (auto simp: seq_le_def)
qed

lemma map_err_ok_step: "ok_step f \<Longrightarrow> ok_step (\<lambda>s. map_err g (f s))"
  by (simp add: ok_step_def)

text \<open>A transaction whose body reads on, and is consistent again when it succeeds.\<close>

lemma in_tx_cases:
  assumes "in_tx env b c work s = (r, s')"
  obtains (refused) "snd s' = snd s" "\<exists>x. r = Inl x"
  | (rolled_back) s1 e s1' where "snd s1 = snd s" "work s1 = (e, s1')" "snd s' = rollback (snd s) (snd s1')" "\<exists>x. r = Inl x"
  | (committed) s1 a s1' where "snd s1 = snd s" "work s1 = (Inr a, s1')" "snd s' = snd s1'" "r = Inr a \<or> (\<exists>x. r = Inl x)"
proof -
  obtain f e where f: "fault env (fst s) = (f, e)" by fastforce
  obtain q s1' where q: "work (e, snd s) = (q, s1')" by (rule prod.exhaust)
  obtain g e' where g: "fault env (fst s1') = (g, e')" by fastforce
  show thesis
  proof (cases f)
    case Fine
    show thesis
    proof (cases q)
      case (Inl x)
      then show thesis using Fine assms f q
        by (intro rolled_back [of "(e, snd s)" q s1']) (auto simp: in_tx_def split: prod.splits)
    next
      case (Inr a)
      show thesis
      proof (cases g)
        case (Refused x)
        then show thesis using Fine Inr assms f q g
          by (intro rolled_back [of "(e, snd s)" q s1']) (auto simp: in_tx_def split: prod.splits)
      qed (use Fine Inr assms f q g in \<open>(intro committed [of "(e, snd s)" a s1']; auto simp: in_tx_def split: prod.splits)+\<close>)
    qed
  qed (use assms f in \<open>(intro refused; auto simp: in_tx_def split: prod.splits)+\<close>)
qed

lemma in_tx_ok_step:
  assumes "\<And>s r s'. work s = (r, s') \<Longrightarrow> db_ok (snd s) \<Longrightarrow>
      seq_le (snd s) (snd s') \<and> ((\<exists>a. r = Inr a) \<longrightarrow> db_ok (snd s'))"
  shows "ok_step (in_tx env b c work)"
  unfolding ok_step_def
proof (intro allI impI)
  fix s :: "'a \<times> pg" assume ok: "db_ok (snd s)"
  obtain r s' where run: "in_tx env b c work s = (r, s')" by (rule prod.exhaust)
  from run have "db_ok (snd s') \<and> seq_le (snd s) (snd s')"
  proof (cases rule: in_tx_cases)
    case refused
    then show ?thesis using ok by simp
  next
    case (rolled_back s1 e s1')
    then have "seq_le (snd s) (snd s1')" using assms ok by metis
    with rolled_back ok show ?thesis by (simp add: rollback_ok) (simp add: rollback_def seq_le_def)
  next
    case (committed s1 a s1')
    then show ?thesis using assms ok by metis
  qed
  with run show "db_ok (snd (snd (in_tx env b c work s))) \<and> seq_le (snd s) (snd (snd (in_tx env b c work s)))"
    by simp
qed

section \<open>Saving a note updates one path\<close>

text \<open>The rows a run of inserts adds.\<close>

fun chunk_list :: "int \<Rightarrow> int \<Rightarrow> nat \<Rightarrow> gostring list \<Rightarrow> chunk_row list" where
  "chunk_list c n i [] = []"
| "chunk_list c n i (t # ts) = \<lparr>cid = c, cnote = n, cindex = int i, ctext = t\<rparr> # chunk_list (c + 1) n (i + 1) ts"

lemma insert_chunk_Inr:
  "insert_chunk viol n i t db = (Inr (), db') \<Longrightarrow>
     db' = db\<lparr>chunkRows := chunkRows db @ [\<lparr>cid = chunkSeq db, cnote = n, cindex = int i, ctext = t\<rparr>],
              chunkSeq := chunkSeq db + 1\<rparr>"
  by (auto simp: insert_chunk_def Let_def split: if_splits)

lemma insert_chunks_Inr:
  "insert_chunks env n i ts s = (Inr (), s') \<Longrightarrow>
     snd s' = (snd s)\<lparr>chunkRows := chunkRows (snd s) @ chunk_list (chunkSeq (snd s)) n i ts,
                      chunkSeq := chunkSeq (snd s) + int (length ts)\<rparr>"
proof (induction env n i ts s rule: insert_chunks.induct)
  case (2 env n i t ts s)
  obtain r s1 where one: "exec env (insert_chunk (violation env) n i t) s = (r, s1)" by (rule prod.exhaust)
  with 2(2) obtain u where r: "r = Inr u" by (cases r) auto
  then have "snd s1 = (snd s)\<lparr>chunkRows := chunkRows (snd s) @
      [\<lparr>cid = chunkSeq (snd s), cnote = n, cindex = int i, ctext = t\<rparr>], chunkSeq := chunkSeq (snd s) + 1\<rparr>"
    using exec_Inr one insert_chunk_Inr by (metis (full_types) unit.exhaust)
  moreover have "snd s' = (snd s1)\<lparr>chunkRows := chunkRows (snd s1) @ chunk_list (chunkSeq (snd s1)) n (i + 1) ts,
      chunkSeq := chunkSeq (snd s1) + int (length ts)\<rparr>"
    using 2 one r by simp
  ultimately show ?case by simp
qed simp

lemma insert_chunks_ok_step: "ok_step (insert_chunks env n i ts)"
  unfolding ok_step_def
proof (intro allI impI)
  fix s :: "'a \<times> pg" assume "db_ok (snd s)"
  then show "db_ok (snd (snd (insert_chunks env n i ts s))) \<and> seq_le (snd s) (snd (snd (insert_chunks env n i ts s)))"
  proof (induction env n i ts s rule: insert_chunks.induct)
    case (2 env n i t ts s)
    obtain r s1 where one: "exec env (insert_chunk (violation env) n i t) s = (r, s1)" by (rule prod.exhaust)
    have ok: "db_ok (snd s1)" "seq_le (snd s) (snd s1)"
      using ok_stepD [OF exec_ok_step one 2(2)] insert_chunk_ok insert_chunk_seq by blast+
    show ?case
    proof (cases r)
      case (Inl x)
      then show ?thesis using ok one by simp
    next
      case (Inr u)
      then show ?thesis using 2(1) one ok by (auto intro: seq_le_trans)
    qed
  qed simp
qed

lemma chunk_list_ge: "r \<in> set (chunk_list c n i ts) \<Longrightarrow> int i \<le> cindex r"
  by (induction c n i ts rule: chunk_list.induct) fastforce+

lemma chunk_list_props:
  "map ctext (chunk_list c n i ts) = ts" "\<forall>r\<in>set (chunk_list c n i ts). cnote r = n \<and> c \<le> cid r"
  "sorted (map cindex (chunk_list c n i ts))"
proof -
  show "map ctext (chunk_list c n i ts) = ts" by (induction c n i ts rule: chunk_list.induct) auto
  show "\<forall>r\<in>set (chunk_list c n i ts). cnote r = n \<and> c \<le> cid r"
    by (induction c n i ts rule: chunk_list.induct) fastforce+
  show "sorted (map cindex (chunk_list c n i ts))"
    by (induction c n i ts rule: chunk_list.induct) (fastforce dest: chunk_list_ge)+
qed

text \<open>What the index says after a successful body that wrote the note.\<close>

definition new_doc :: "Note \<Rightarrow> gostring list \<Rightarrow> doc" where
  "new_doc info cs = \<lparr>docName = noteName info, docText = noteText info, docHash = noteHash info, docChunks = cs\<rparr>"

definition all_pending :: "pg \<Rightarrow> int \<Rightarrow> bool" where
  "all_pending db n \<longleftrightarrow>
     list_all (\<lambda>t. list_all (\<lambda>c. cnote c = n \<longrightarrow> cid c \<notin> fst ` set (trows t)) (chunkRows db)) (vecTables db)"

lemma upsert_note_Inr:
  assumes "upsert_note viol info db = (Inr (n, written), db1)" "db_ok db"
  shows "(\<not> written \<and> index_of db1 = index_of db \<and>
            (\<exists>d. index_of db (notePath info) = Some d \<and> docHash d = noteHash info)) \<or>
    (written \<and> (\<forall>d. index_of db (notePath info) = Some d \<longrightarrow> docHash d \<noteq> noteHash info) \<and>
     chunkRows db1 = chunkRows db \<and> vecTables db1 = vecTables db \<and> chunkSeq db1 = chunkSeq db \<and>
     (\<exists>r\<in>set (noteRows db1). nid r = n \<and> npath r = notePath info \<and> nname r = noteName info \<and>
        ntext r = noteText info \<and> nhash r = noteHash info) \<and>
     (\<forall>p. p \<noteq> notePath info \<longrightarrow> find (\<lambda>r. npath r = p) (noteRows db1) = find (\<lambda>r. npath r = p) (noteRows db)))"
proof (cases "find (\<lambda>r. npath r = notePath info) (noteRows db)")
  case None
  then have d: "db1 = db\<lparr>noteSeq := noteSeq db + 1, noteRows := noteRows db @ [\<lparr>nid = noteSeq db,
      npath = notePath info, nname = noteName info, ntext = noteText info, nhash = noteHash info\<rparr>]\<rparr>"
    "n = noteSeq db" "written"
    using assms(1) by (auto simp: upsert_note_def Let_def split: if_splits)
  have "find (\<lambda>r. npath r = p) (rs @ [r]) = find (\<lambda>r. npath r = p) rs" if "p \<noteq> npath r"
    for p rs and r :: note_row
    using that by (induction rs) auto
  then show ?thesis using None d by (auto simp: index_of_def)
next
  case (Some row)
  have row: "row \<in> set (noteRows db)" "npath row = notePath info" using find_Some [OF Some] by auto
  show ?thesis
  proof (cases "nhash row = noteHash info")
    case True
    then have "\<not> written" "db1 = db\<lparr>noteSeq := noteSeq db + 1\<rparr>"
      using assms(1) Some by (auto simp: upsert_note_def Let_def split: if_splits)
    moreover have "index_of (db\<lparr>noteSeq := noteSeq db + 1\<rparr>) = index_of db" by (rule index_of_cong) simp_all
    ultimately show ?thesis using Some True by (auto simp: index_of_def row_doc_def)
  next
    case False
    let ?upd = "\<lambda>r. if npath r = notePath info
      then r\<lparr>nname := noteName info, ntext := noteText info, nhash := noteHash info\<rparr> else r"
    have d: "db1 = db\<lparr>noteSeq := noteSeq db + 1, noteRows := map ?upd (noteRows db)\<rparr>" "n = nid row" "written"
      using assms(1) Some False by (auto simp: upsert_note_def Let_def split: if_splits)
    have "find (\<lambda>r. npath r = p) (map ?upd rs) = find (\<lambda>r. npath r = p) rs" if "p \<noteq> notePath info" for p rs
      using that by (induction rs) auto
    moreover have "?upd row \<in> set (noteRows db1)"
    proof -
      have "noteRows db1 = map ?upd (noteRows db)" by (simp add: d)
      then show ?thesis using in_set_map [OF row(1), of ?upd] by (simp only:)
    qed
    ultimately show ?thesis using Some False d row
      by (intro disjI2 conjI bexI [of _ "?upd row"]) (auto simp: index_of_def row_doc_def)
  qed
qed

lemma upsert_step: "ok_step (exec env (upsert_note viol info))"
  by (intro exec_ok_step upsert_note_ok upsert_note_seq)

lemma delete_chunks_step: "ok_step (exec env (delete_chunks_of n))"
  by (intro exec_ok_step) (simp_all add: delete_chunks_of_def drop_chunks_ok)

lemma save_body_step:
  assumes "save_body env info chunker s = (r, s')" "db_ok (snd s)"
  shows "db_ok (snd s') \<and> seq_le (snd s) (snd s')"
proof -
  obtain r1 s1 where 1: "exec env (upsert_note (violation env) info) s = (r1, s1)" by (rule prod.exhaust)
  have ok1: "db_ok (snd s1)" "seq_le (snd s) (snd s1)" using ok_stepD [OF upsert_step 1 assms(2)] by auto
  show ?thesis
  proof (cases "\<exists>n cs. r1 = Inr (n, True) \<and> chunker = Inr cs")
    case False
    then have "snd s' = snd s1"
      using assms(1) 1 by (auto simp: save_body_def split: sum.splits prod.splits if_splits)
    then show ?thesis using ok1 by simp
  next
    case True
    then obtain n cs where r1: "r1 = Inr (n, True)" "chunker = Inr cs" by auto
    obtain r2 s2 where 2: "exec env (delete_chunks_of n) s1 = (r2, s2)" by (rule prod.exhaust)
    have ok2: "db_ok (snd s2)" "seq_le (snd s1) (snd s2)" using ok_stepD [OF delete_chunks_step 2 ok1(1)] by auto
    obtain r3 s3 where 3: "insert_chunks env n 0 cs s2 = (r3, s3)" by (rule prod.exhaust)
    have ok3: "db_ok (snd s3)" "seq_le (snd s2) (snd s3)" using ok_stepD [OF insert_chunks_ok_step 3 ok2(1)] by auto
    have "snd s' = snd s2 \<or> snd s' = snd s3"
      using assms(1) 1 r1 2 3 by (auto simp: save_body_def split: sum.splits)
    then show ?thesis using ok1 ok2 ok3 seq_le_trans by metis
  qed
qed

lemma sort_key_sorted: "sorted (map f xs) \<Longrightarrow> sort_key f xs = xs"
  by (simp add: sort_key_id_if_sorted)

lemma save_body_Inr:
  assumes run: "save_body env info chunker s = (Inr (n, written), s')" and ok: "db_ok (snd s)"
  shows "(\<not> written \<and> index_of (snd s') = index_of (snd s) \<and>
            (\<exists>d. index_of (snd s) (notePath info) = Some d \<and> docHash d = noteHash info)) \<or>
    (written \<and> (\<forall>d. index_of (snd s) (notePath info) = Some d \<longrightarrow> docHash d \<noteq> noteHash info) \<and>
     (\<exists>cs. chunker = Inr cs \<and>
        index_of (snd s') = (index_of (snd s))(notePath info \<mapsto> new_doc info cs) \<and> all_pending (snd s') n))"
proof -
  obtain r1 s1 where 1: "exec env (upsert_note (violation env) info) s = (r1, s1)" by (rule prod.exhaust)
  with run have r1: "r1 = Inr (n, written)"
    by (auto simp: save_body_def split: sum.splits prod.splits if_splits)
  note up = upsert_note_Inr [OF exec_Inr [OF 1 [unfolded r1]] ok]
  show ?thesis
  proof (cases written)
    case False
    then have "s' = s1" using run 1 r1 by (simp add: save_body_def)
    with up False show ?thesis by simp
  next
    case True
    from run 1 r1 True obtain cs s2 where cs: "chunker = Inr cs"
      and 2: "exec env (delete_chunks_of n) s1 = (Inr (), s2)"
      and 3: "insert_chunks env n 0 cs s2 = (Inr (), s')"
      by (auto simp: save_body_def split: sum.splits prod.splits)
    let ?db = "snd s" and ?db1 = "snd s1" and ?db3 = "snd s'"
    have up': "chunkRows ?db1 = chunkRows ?db" "vecTables ?db1 = vecTables ?db" "chunkSeq ?db1 = chunkSeq ?db"
      "\<forall>d. index_of ?db (notePath info) = Some d \<longrightarrow> docHash d \<noteq> noteHash info"
      "\<forall>p. p \<noteq> notePath info \<longrightarrow> find (\<lambda>r. npath r = p) (noteRows ?db1) = find (\<lambda>r. npath r = p) (noteRows ?db)"
      using up True by auto
    obtain row where row: "row \<in> set (noteRows ?db1)" "nid row = n" "npath row = notePath info"
      "nname row = noteName info" "ntext row = noteText info" "nhash row = noteHash info"
      using up True by auto
    have ok1: "db_ok ?db1" using ok_stepD [OF upsert_step 1 ok] by auto
    have db2: "snd s2 = drop_chunks (\<lambda>c. cnote c = n) ?db1"
      using exec_Inr [OF 2] by (simp add: delete_chunks_of_def)
    let ?new = "chunk_list (chunkSeq ?db) n 0 cs"
    have db3: "chunkRows ?db3 = filter (\<lambda>c. cnote c \<noteq> n) (chunkRows ?db) @ ?new" "noteRows ?db3 = noteRows ?db1"
      "vecTables ?db3 = vecTables (snd s2)"
      using insert_chunks_Inr [OF 3] db2 up' by (simp_all add: drop_chunks_def Let_def)
    have mine: "note_chunks ?db3 n = ?new"
      using chunk_list_props [of "chunkSeq ?db" n 0 cs]
      by (simp add: note_chunks_def db3 sort_key_sorted filter_id_conv)
    have others: "note_chunks ?db3 m = note_chunks ?db m" if "m \<noteq> n" for m
    proof -
      have "filter (\<lambda>c. cnote c = m) ?new = []"
        using chunk_list_props(2) [of "chunkSeq ?db" n 0 cs] that by (auto simp: filter_empty_conv)
      moreover have "filter (\<lambda>c. cnote c = m \<and> cnote c \<noteq> n) (chunkRows ?db) = filter (\<lambda>c. cnote c = m) (chunkRows ?db)"
        using that by (intro filter_cong) auto
      ultimately show ?thesis by (simp add: note_chunks_def db3 conj_commute)
    qed
    have "index_of ?db3 p = ((index_of ?db)(notePath info \<mapsto> new_doc info cs)) p" for p
    proof (cases "p = notePath info")
      case True
      have "find (\<lambda>r. npath r = notePath info) (noteRows ?db1) = Some row"
        using find_path [of ?db1 row] ok1 row by (simp add: db_ok_def)
      then show ?thesis using True row mine chunk_list_props(1) [of "chunkSeq ?db" n 0 cs]
        by (simp add: index_of_def row_doc_def new_doc_def db3)
    next
      case False
      have "note_chunks ?db3 (nid r) = note_chunks ?db (nid r)"
        if "find (\<lambda>r. npath r = p) (noteRows ?db) = Some r" for r
      proof (rule others)
        from that False up'(5) have "find (\<lambda>r. npath r = p) (noteRows ?db1) = Some r" by simp
        then have "r \<in> set (noteRows ?db1)" "npath r = p" by (auto dest: find_Some)
        with ok1 row False show "nid r \<noteq> n"
          unfolding db_ok_def notes_ok_def distinct_map inj_on_def by metis
      qed
      then show ?thesis using False up'(5)
        by (cases "find (\<lambda>r. npath r = p) (noteRows ?db)") (simp_all add: index_of_def row_doc_def db3)
    qed
    moreover have "all_pending ?db3 n"
    proof -
      have "cid c \<notin> fst ` set (trows t)" if tc: "t \<in> set (vecTables ?db3)" "c \<in> set (chunkRows ?db3)" "cnote c = n" for t c
      proof
        assume "cid c \<in> fst ` set (trows t)"
        moreover obtain t0 where "t0 \<in> set (vecTables ?db)" "set (trows t) \<subseteq> set (trows t0)"
          using tc(1) db3(3) db2 up' by (auto simp: drop_chunks_def Let_def)
        ultimately obtain v where "(cid c, v) \<in> set (trows t0)" "t0 \<in> set (vecTables ?db)" by auto
        then have "cid c \<in> cid ` set (chunkRows ?db)"
          using ok unfolding db_ok_def tables_ok_def rows_ok_def by fastforce
        then have "cid c < chunkSeq ?db" using ok by (auto simp: db_ok_def chunks_ok_def)
        moreover have "c \<in> set ?new" using tc db3(1) by auto
        ultimately show False using chunk_list_props(2) [of "chunkSeq ?db" n 0 cs] by auto
      qed
      then show ?thesis by (auto simp: all_pending_def list_all_iff)
    qed
    ultimately show ?thesis using True up'(4) cs by auto
  qed
qed

lemma Save_step [inv_intros]: "ok_step (SaveNoteWithChunks env info chunker)"
  unfolding SaveNoteWithChunks_def by (rule in_tx_ok_step) (use save_body_step in blast)

text \<open>A server that never fails, for concrete runs.\<close>

definition calm_db :: "unit dbenv" where
  "calm_db = \<lparr>fault = \<lambda>e. (Fine, e), violation = \<lambda>t. Plain t, now = \<lambda>e. 0, hnsw_max = 2000\<rparr>"

lemma Save_cases:
  assumes "db_ok (snd s)" "SaveNoteWithChunks env info chunker s = (r, s')"
  shows "db_ok (snd s') \<and>
    (case r of
       Inr (n, True) \<Rightarrow>
         map_option docHash (index_of (snd s) (notePath info)) \<noteq> Some (noteHash info) \<and>
         (\<exists>cs. chunker = Inr cs \<and>
            index_of (snd s') = (index_of (snd s))(notePath info \<mapsto> new_doc info cs)) \<and>
         all_pending (snd s') n
     | Inr (n, False) \<Rightarrow>
         map_option docHash (index_of (snd s) (notePath info)) = Some (noteHash info) \<and>
         index_of (snd s') = index_of (snd s)
     | Inl e \<Rightarrow>
         index_of (snd s') = index_of (snd s) \<or>
         (\<exists>cs. chunker = Inr cs \<and>
            index_of (snd s') = (index_of (snd s))(notePath info \<mapsto> new_doc info cs)))"
proof -
  have ok: "db_ok (snd s')" using ok_stepD [OF Save_step assms(2,1)] by simp
  from assms(2) [unfolded SaveNoteWithChunks_def] show ?thesis
  proof (cases rule: in_tx_cases)
    case refused
    then show ?thesis using ok by auto
  next
    case (rolled_back s1 e s1')
    then show ?thesis using ok by auto
  next
    case (committed s1 a s1')
    obtain n written where a: "a = (n, written)" by fastforce
    have "db_ok (snd s1)" using committed(1) assms(1) by simp
    note body = save_body_Inr [OF committed(2) [unfolded a] this]
    show ?thesis
    proof (cases written)
      case True
      with body committed a ok show ?thesis by auto
    next
      case False
      with body committed a ok show ?thesis by auto
    qed
  qed
qed

text \<open>
  C31. Saving a note is atomic and touches one path. Started on a consistent database, it ends
  on a consistent one however the server behaves. If it reports that the note was written,
  the hash had changed (or the path was new), the index maps the path to the new title, text,
  hash and exactly the chunks the chunker returned, in order, every other path as before,
  and all chunks of the note are pending in every vector space, so no vector of an old text
  survives. If it reports that nothing was written, the stored hash was the file's and the
  index is unchanged. If it fails, the index is as before or, when only the reply to the
  commit was lost, completely updated: never half of a note.
\<close>

theorem Save_updates_one_path:
  assumes "db_ok (snd s)" "SaveNoteWithChunks env info chunker s = (r, s')"
  shows "db_ok (snd s') \<and>
    (case r of
       Inr (n, True) \<Rightarrow>
         map_option docHash (index_of (snd s) (notePath info)) \<noteq> Some (noteHash info) \<and>
         (\<exists>cs. chunker = Inr cs \<and>
            index_of (snd s') = (index_of (snd s))(notePath info \<mapsto> new_doc info cs)) \<and>
         all_pending (snd s') n
     | Inr (n, False) \<Rightarrow>
         map_option docHash (index_of (snd s) (notePath info)) = Some (noteHash info) \<and>
         index_of (snd s') = index_of (snd s)
     | Inl e \<Rightarrow>
         index_of (snd s') = index_of (snd s) \<or>
         (\<exists>cs. chunker = Inr cs \<and>
            index_of (snd s') = (index_of (snd s))(notePath info \<mapsto> new_doc info cs)))"
  using assms by (rule Save_cases)

lemma Save_updates_one_path_witness:
  "let info = \<lparr>notePath = ''a.md'', noteHash = ''h'', noteText = ''x'', noteName = ''t''\<rparr>;
       r = SaveNoteWithChunks calm_db info (Inr [''x'', ''y'']) ((), empty_pg)
   in fst r = Inr (1, True) \<and> db_ok (snd (snd r)) \<and>
      index_of (snd (snd r)) = [''a.md'' \<mapsto> new_doc info [''x'', ''y'']]"
proof -
  let ?info = "\<lparr>notePath = ''a.md'', noteHash = ''h'', noteText = ''x'', noteName = ''t''\<rparr>"
  let ?run = "SaveNoteWithChunks calm_db ?info (Inr [''x'', ''y'']) ((), empty_pg)"
  have r: "fst ?run = Inr (1, True)" by code_simp
  then have run: "?run = (Inr (1, True), snd ?run)" by (simp add: prod_eq_iff)
  have ok: "db_ok (snd ((), empty_pg))" by (simp add: db_ok_empty)
  have "index_of (snd ((), empty_pg)) = Map.empty" by (simp add: index_of_def empty_pg_def fun_eq_iff)
  with Save_updates_one_path [OF ok run] r show ?thesis unfolding Let_def by auto
qed

section \<open>Removing notes whose file is gone\<close>

lemma Delete_step [inv_intros]: "ok_step (DeleteMissingNotes env keep)"
proof -
  have "ok_step (exec env (delete_notes (violation env) keep))"
    by (intro exec_ok_step delete_notes_ok delete_notes_seq)
  from map_err_ok_step [OF this] show ?thesis by (simp add: ok_step_def DeleteMissingNotes_def)
qed

lemma Delete_cases:
  assumes "db_ok (snd s)" "DeleteMissingNotes env keep s = (r, s')"
  shows "db_ok (snd s') \<and>
    (if keep = [] then r = Inr 0 \<and> s' = s
     else (case r of
             Inr n \<Rightarrow> index_of (snd s') = (index_of (snd s)) |` set keep \<and>
               n = int (length (noteRows (snd s))) - int (length (noteRows (snd s')))
           | Inl e \<Rightarrow> index_of (snd s') = index_of (snd s) \<or> index_of (snd s') = (index_of (snd s)) |` set keep))"
proof -
  have ok: "db_ok (snd s')" using ok_stepD [OF Delete_step assms(2,1)] by simp
  let ?del = "delete_notes (violation env) keep"
  have del: "index_of (snd (?del db)) = (if list_all text_ok keep then (index_of db) |` set keep else index_of db)"
    if "db_ok db" for db
    using index_of_delete_notes [OF that] by (simp add: delete_notes_def)
  show ?thesis
  proof (cases "keep = []")
    case True
    then show ?thesis using assms by (simp add: DeleteMissingNotes_def)
  next
    case False
    then have run: "map_err (wrap ''delete notes missing from the vault'') (exec env ?del s) = (r, s')"
      using assms(2) by (simp add: DeleteMissingNotes_def)
    show ?thesis
    proof (cases r)
      case (Inl e)
      have "snd s' = snd s \<or> snd s' = snd (?del (snd s))"
        using exec_state [of env ?del s] run by (metis snd_conv snd_map_err)
      with del [OF assms(1)] Inl False ok show ?thesis by (auto split: if_splits)
    next
      case (Inr n)
      then have "exec env ?del s = (Inr n, s')" using run by simp
      from exec_Inr [OF this] have d: "?del (snd s) = (Inr n, snd s')" .
      then have t: "list_all text_ok keep" by (simp add: delete_notes_def split: if_splits)
      have "length (filter (\<lambda>r. npath r \<in> set keep) (noteRows (snd s))) +
          length (filter (\<lambda>r. npath r \<notin> set keep) (noteRows (snd s))) = length (noteRows (snd s))"
        by (rule sum_length_filter_compl)
      moreover have "snd s' = snd (?del (snd s))" "Inr n = fst (?del (snd s))" using d by simp_all
      then have "noteRows (snd s') = filter (\<lambda>r. npath r \<in> set keep) (noteRows (snd s))"
        "n = int (length (filter (\<lambda>r. npath r \<notin> set keep) (noteRows (snd s))))"
        using t by (simp_all add: delete_notes_def drop_chunks_def Let_def)
      ultimately have "n = int (length (noteRows (snd s))) - int (length (noteRows (snd s')))"
        by (metis add_diff_cancel_left' of_nat_add)
      with del [OF assms(1)] d t Inr False ok show ?thesis by simp
    qed
  qed
qed

text \<open>
  Pruning restricts the index to the paths to keep, and does nothing for an empty list
  of them: a scan that found nothing never erases the index. On success the count is that of
  the removed notes; on failure the index is as before or, when the reply was lost, pruned;
  the chunks and vectors of removed notes go with them (the database stays consistent).
\<close>

theorem DeleteMissing_restricts:
  assumes "db_ok (snd s)" "DeleteMissingNotes env keep s = (r, s')"
  shows "db_ok (snd s') \<and>
    (if keep = [] then r = Inr 0 \<and> s' = s
     else (case r of
             Inr n \<Rightarrow> index_of (snd s') = (index_of (snd s)) |` set keep \<and>
               n = int (length (noteRows (snd s))) - int (length (noteRows (snd s')))
           | Inl e \<Rightarrow> index_of (snd s') = index_of (snd s) \<or> index_of (snd s') = (index_of (snd s)) |` set keep))"
  using assms by (rule Delete_cases)

lemma DeleteMissing_restricts_witness:
  "let info = \<lparr>notePath = ''a.md'', noteHash = ''h'', noteText = ''x'', noteName = ''t''\<rparr>;
       s = snd (SaveNoteWithChunks calm_db info (Inr [''x'']) ((), empty_pg))
   in fst (DeleteMissingNotes calm_db [''b.md''] s) = Inr 1 \<and>
      index_of (snd (snd (DeleteMissingNotes calm_db [''b.md''] s))) ''a.md'' = None"
proof -
  let ?info = "\<lparr>notePath = ''a.md'', noteHash = ''h'', noteText = ''x'', noteName = ''t''\<rparr>"
  let ?save = "SaveNoteWithChunks calm_db ?info (Inr [''x'']) ((), empty_pg)"
  let ?del = "DeleteMissingNotes calm_db [''b.md''] (snd ?save)"
  have r: "fst ?del = Inr 1" by code_simp
  have ok: "db_ok (snd (snd ?save))"
    using ok_stepD [OF Save_step surjective_pairing [of ?save]] by (simp add: db_ok_empty)
  from DeleteMissing_restricts [OF ok surjective_pairing [of ?del]] r
  have "index_of (snd (snd ?del)) = index_of (snd (snd ?save)) |` {''b.md''}" by simp
  with r show ?thesis unfolding Let_def by simp
qed

section \<open>Vectors for the chunks that lack one\<close>

definition placeholder_pair :: "nat \<Rightarrow> gostring" where
  "placeholder_pair i = ''($'' @ show_nat (2 * i + 1) @ '', $'' @ show_nat (2 * i + 2) @ '')''"

definition dims_ok :: "SpaceRef \<Rightarrow> ChunkVector list \<Rightarrow> bool" where
  "dims_ok ref batch \<longleftrightarrow> list_all (\<lambda>cv. int (length (cvVector cv)) = Dim (refSpace ref)) batch"

definition batch_rows :: "ChunkVector list \<Rightarrow> (int \<times> Vector) list" where
  "batch_rows batch = map (\<lambda>cv. (cvChunk cv, cvVector cv)) batch"

definition batch_args :: "ChunkVector list \<Rightarrow> sql_arg list" where
  "batch_args batch = concat (map (\<lambda>cv. [IntArg (cvChunk cv), VecArg (cvVector cv)]) batch)"

lemma arg_rows_batch [simp]: "arg_rows (batch_args batch) = batch_rows batch"
  by (induction batch) (simp_all add: batch_args_def batch_rows_def)

lemma upt_Suc_conv: "[i ..< i + Suc n] = i # [Suc i ..< Suc i + n]"
  using upt_conv_Cons [of i "i + Suc n"] by simp

lemma join_Cons: "join sep (x # xs) = x @ (if xs = [] then [] else sep @ join sep xs)"
  by (cases xs) simp_all

lemma insert_loop_ok:
  "length args = 2 * i \<Longrightarrow> dims_ok ref batch \<Longrightarrow>
   insert_loop ref i batch sb args =
     Inr (sb @ (if i > 0 \<and> batch \<noteq> [] then '', '' else []) @
            join '', '' (map placeholder_pair [i ..< i + length batch]), args @ batch_args batch)"
proof (induction ref i batch sb args rule: insert_loop.induct)
  case (2 ref i cv batch sb args)
  have dim: "int (length (cvVector cv)) = Dim (refSpace ref)" and rest: "dims_ok ref batch"
    using 2(3) by (simp_all add: dims_ok_def)
  have pair: "''($'' @ show_nat (length args + 1) @ '', $'' @ show_nat (length args + 2) @ '')'' = placeholder_pair i"
    using 2(2) by (simp add: placeholder_pair_def)
  have join: "join '', '' (map placeholder_pair [i ..< i + length (cv # batch)]) =
      placeholder_pair i @ (if batch \<noteq> [] then '', '' else []) @
      join '', '' (map placeholder_pair [i + 1 ..< i + 1 + length batch])"
  proof -
    have "[i ..< i + length (cv # batch)] = i # [i + 1 ..< i + 1 + length batch]"
      using upt_Suc_conv [of i "length batch"] by (simp del: upt_Suc)
    moreover have "map placeholder_pair [i + 1 ..< i + 1 + length batch] = [] \<longleftrightarrow> batch = []" by (cases batch) simp_all
    ultimately show ?thesis by (simp only: list.map join_Cons) (simp del: upt_Suc)
  qed
  have IH: "insert_loop ref (i + 1) batch (sb @ (if i > 0 then '', '' else []) @ placeholder_pair i)
        (args @ [IntArg (cvChunk cv), VecArg (cvVector cv)]) =
      Inr ((sb @ (if i > 0 then '', '' else []) @ placeholder_pair i) @ (if i + 1 > 0 \<and> batch \<noteq> [] then '', '' else []) @
             join '', '' (map placeholder_pair [i + 1 ..< i + 1 + length batch]),
           (args @ [IntArg (cvChunk cv), VecArg (cvVector cv)]) @ batch_args batch)"
    using 2(1) [OF _ _ rest] dim 2(2) unfolding pair by simp
  have step: "insert_loop ref i (cv # batch) sb args =
      insert_loop ref (i + 1) batch (sb @ (if i > 0 then '', '' else []) @ placeholder_pair i)
        (args @ [IntArg (cvChunk cv), VecArg (cvVector cv)])"
    using dim unfolding insert_loop.simps pair by (simp del: insert_loop.simps)
  show ?case unfolding step IH join by (simp add: batch_args_def)
qed (simp add: batch_args_def)

lemma insert_loop_bad: "\<not> dims_ok ref batch \<Longrightarrow> \<exists>e. insert_loop ref i batch sb args = Inl e"
  by (induction ref i batch sb args rule: insert_loop.induct) (auto simp: dims_ok_def)

text \<open>The placeholders of the statement, as they are read in its text.\<close>

lemma placeholders_plain:
  "CHR 0x22 \<notin> set s \<Longrightarrow> CHR ''$'' \<notin> set s \<Longrightarrow> placeholders quoted (s @ t) = placeholders quoted t"
  by (induction s) auto

lemma placeholders_table: "placeholders False (Table ref @ t) = placeholders False t"
proof -
  have "placeholders True (concat (map (\<lambda>c. if c = CHR 0x22 then [c, c] else [c]) s) @ CHR 0x22 # t) = placeholders False t" for s
    by (induction s) simp_all
  then show ?thesis by (simp add: Table_def sanitize_ident_def)
qed

lemma placeholders_number:
  assumes "c \<noteq> CHR 0x22" "c \<noteq> CHR ''$''" "\<not> is_digit c"
  shows "placeholders False (CHR ''$'' # show_nat n @ c # t) = n # placeholders False t"
proof -
  have "takeWhile is_digit (show_nat n @ c # t) = show_nat n"
    using assms(3) show_nat_digits by (simp add: takeWhile_append2)
  moreover have "CHR 0x22 \<notin> set (show_nat n)" "CHR ''$'' \<notin> set (show_nat n)"
    using show_nat_digits [of "CHR 0x22" n] show_nat_digits [of "CHR ''$''" n] by (auto simp: is_digit_def)
  ultimately show ?thesis using assms(1,2) placeholders_plain [of "show_nat n" False "c # t"] by simp
qed

lemma placeholders_pair: "placeholders False (placeholder_pair i @ t) = (2 * i + 1) # (2 * i + 2) # placeholders False t"
proof -
  have "placeholder_pair i @ t = ''('' @ CHR ''$'' # show_nat (2 * i + 1) @ CHR '','' #
      '' '' @ CHR ''$'' # show_nat (2 * i + 2) @ CHR '')'' # t"
    by (simp add: placeholder_pair_def)
  moreover have "placeholders False (''('' @ u) = placeholders False u" "placeholders False ('' '' @ u) = placeholders False u" for u
    by simp_all
  moreover have "placeholders False (CHR ''$'' # show_nat n @ CHR '','' # u) = n # placeholders False u"
    "placeholders False (CHR ''$'' # show_nat n @ CHR '')'' # u) = n # placeholders False u" for n u
    by (rule placeholders_number; simp add: is_digit_def)+
  ultimately show ?thesis by (simp only:)
qed

lemma placeholders_pairs:
  "placeholders False (join '', '' (map placeholder_pair [i ..< i + n]) @ t) = [2 * i + 1 ..< 2 * (i + n) + 1] @ placeholders False t"
proof (induction n arbitrary: i)
  case (Suc n)
  have comma: "placeholders False ('', '' @ u) = placeholders False u" for u by simp
  have rest: "placeholders False ((if map placeholder_pair [Suc i ..< Suc i + n] = [] then []
        else '', '' @ join '', '' (map placeholder_pair [Suc i ..< Suc i + n])) @ t) =
      placeholders False (join '', '' (map placeholder_pair [Suc i ..< Suc i + n]) @ t)"
    using comma by (cases n) (simp_all del: upt_Suc)
  have "[2 * i + 1 ..< 2 * (i + Suc n) + 1] = (2 * i + 1) # (2 * i + 2) # [2 * Suc i + 1 ..< 2 * (Suc i + n) + 1]"
    by (simp add: upt_conv_Cons del: upt_Suc)
  then show ?case
    unfolding upt_Suc_conv list.map join_Cons append_assoc placeholders_pair rest Suc.IH by simp
qed simp

lemma length_batch_args [simp]: "length (batch_args batch) = 2 * length batch"
  by (induction batch) (simp_all add: batch_args_def)

definition insert_text :: "SpaceRef \<Rightarrow> nat \<Rightarrow> gostring" where
  "insert_text ref n =
     ''INSERT INTO '' @ Table ref @ '' (chunk_id, embedding) VALUES '' @ join '', '' (map placeholder_pair [0 ..< n]) @ on_conflict"

lemma placeholders_insert_text: "placeholders False (insert_text ref n) = [1 ..< 2 * n + 1]"
proof -
  have plain: "placeholders False (''INSERT INTO '' @ t) = placeholders False t"
    "placeholders False ('' (chunk_id, embedding) VALUES '' @ t) = placeholders False t" "placeholders False on_conflict = []" for t
    by (simp_all add: on_conflict_def)
  show ?thesis using placeholders_pairs [of 0 n on_conflict]
    unfolding insert_text_def plain placeholders_table by (simp add: plain(3))
qed

lemma bound_rows_text: "bound_rows (insert_text ref (length batch)) (batch_args batch) = batch_rows batch"
proof -
  have "map (\<lambda>n. xs ! (n - 1)) [1 ..< length xs + 1] = xs" for xs :: "sql_arg list"
    by (rule nth_equalityI) (simp_all del: upt_Suc)
  from this [of "batch_args batch"] show ?thesis by (simp add: bound_rows_def placeholders_insert_text del: upt_Suc)
qed

lemma buildEmbeddingInsert_cases:
  "if dims_ok ref batch then buildEmbeddingInsert ref batch = Inr (insert_text ref (length batch), batch_args batch)
   else (\<exists>e. buildEmbeddingInsert ref batch = Inl e)"
proof (cases "dims_ok ref batch")
  case True
  then show ?thesis using insert_loop_ok [of "[]" 0 ref batch]
    by (simp add: buildEmbeddingInsert_def insert_text_def)
next
  case False
  then obtain e where "insert_loop ref 0 batch (''INSERT INTO '' @ Table ref @ '' (chunk_id, embedding) VALUES '') [] = Inl e"
    using insert_loop_bad by blast
  then show ?thesis using False by (simp add: buildEmbeddingInsert_def)
qed

lemma buildEmbeddingInsert_ok:
  assumes "dims_ok ref batch"
  obtains q where "buildEmbeddingInsert ref batch = Inr (q, batch_args batch)" "bound_rows q (batch_args batch) = batch_rows batch"
  using assms buildEmbeddingInsert_cases [of ref batch] bound_rows_text by auto

text \<open>
  C9. The assembled insert binds every vector to its own chunk. If all vectors of a batch have the
  dimension of the space, then the text of the statement, read the way the server reads it,
  has the placeholders \<open>$1\<close>, \<open>$2\<close> and so on up to the number of arguments, each once and
  in this order, whatever the table is called; and the arguments they stand for, taken by
  two, are the chunks of the batch with their own vectors. With any other vector in the
  batch there is no statement but an error.
\<close>

theorem buildEmbeddingInsert_binds:
  "(case buildEmbeddingInsert ref batch of
      Inr (q, args) \<Rightarrow>
        (\<forall>cv\<in>set batch. int (length (cvVector cv)) = Dim (refSpace ref)) \<and>
        placeholders False q = [1 ..< length args + 1] \<and>
        bound_rows q args = map (\<lambda>cv. (cvChunk cv, cvVector cv)) batch
    | Inl e \<Rightarrow> (\<exists>cv\<in>set batch. int (length (cvVector cv)) \<noteq> Dim (refSpace ref)))"
proof (cases "dims_ok ref batch")
  case True
  then show ?thesis using buildEmbeddingInsert_cases [of ref batch]
    by (simp add: placeholders_insert_text bound_rows_text batch_rows_def list_all_iff dims_ok_def [of ref batch] del: upt_Suc)
next
  case False
  then obtain e where "buildEmbeddingInsert ref batch = Inl e" using buildEmbeddingInsert_cases [of ref batch] by auto
  then show ?thesis using False by (simp add: dims_ok_def list_all_iff)
qed

lemma buildEmbeddingInsert_binds_witness:
  "let ref = \<lparr>refId = 1, refSpace = \<lparr>spaceProvider = ''fake'', spaceModel = ''m'', Dim = 1\<rparr>, refTable = ''emb$1''\<rparr>;
       good = [\<lparr>cvChunk = 7, cvVector = [0]\<rparr>, \<lparr>cvChunk = 9, cvVector = [1]\<rparr>]
   in (\<exists>q args. buildEmbeddingInsert ref good = Inr (q, args) \<and> length args = 4 \<and>
         placeholders False q = [1, 2, 3, 4] \<and> bound_rows q args = [(7, [0]), (9, [1])]) \<and>
      isl (buildEmbeddingInsert ref [\<lparr>cvChunk = 7, cvVector = [0, 0]\<rparr>])"
proof -
  let ?ref = "\<lparr>refId = 1, refSpace = \<lparr>spaceProvider = ''fake'', spaceModel = ''m'', Dim = 1\<rparr>, refTable = ''emb$1''\<rparr>"
  let ?good = "[\<lparr>cvChunk = 7, cvVector = [0]\<rparr>, \<lparr>cvChunk = 9, cvVector = [1]\<rparr>]"
  have "\<exists>q. buildEmbeddingInsert ?ref ?good = Inr (q, [IntArg 7, VecArg [0], IntArg 9, VecArg [1]])"
    by (simp add: buildEmbeddingInsert_def)
  moreover have "[1 ..< length [IntArg 7, VecArg [0], IntArg 9, VecArg [1]] + 1] = [1, 2, 3, 4 :: nat]" by code_simp
  moreover have "length [IntArg 7, VecArg [0], IntArg 9, VecArg [1]] = 4" by simp
  ultimately have "\<exists>q args. buildEmbeddingInsert ?ref ?good = Inr (q, args) \<and> length args = 4 \<and>
      placeholders False q = [1, 2, 3, 4] \<and> bound_rows q args = [(7, [0]), (9, [1])]"
    using buildEmbeddingInsert_binds [where ref = ?ref and batch = ?good] by (auto simp del: upt_Suc list.size)
  moreover have "isl (buildEmbeddingInsert ?ref [\<lparr>cvChunk = 7, cvVector = [0, 0]\<rparr>])"
    using buildEmbeddingInsert_binds [where ref = ?ref and batch = "[\<lparr>cvChunk = 7, cvVector = [0, 0]\<rparr>]"] by (auto split: sum.splits)
  ultimately show ?thesis by (simp only: Let_def)
qed

definition pending :: "pg \<Rightarrow> gostring \<Rightarrow> chunk_row list" where
  "pending db name = (case table_of db name of None \<Rightarrow> [] | Some t \<Rightarrow> pending_rows db t)"

definition vector_of :: "pg \<Rightarrow> gostring \<Rightarrow> int \<Rightarrow> Vector option" where
  "vector_of db name c = (case table_of db name of None \<Rightarrow> None | Some t \<Rightarrow> map_of (trows t) c)"

lemma map_of_replace:
  "map_of (map (\<lambda>r. if fst r = k then (k, v) else r) rows) =
     (if k \<in> fst ` set rows then (map_of rows)(k \<mapsto> v) else map_of rows)"
  by (induction rows) (auto simp: fun_eq_iff)

lemma map_of_put_vector: "map_of (put_vector cv rows) = (map_of rows)(fst cv \<mapsto> snd cv)"
proof (cases cv)
  case (Pair k v)
  have "map_of (rows @ [(k, v)]) = (map_of rows)(k \<mapsto> v)" if "k \<notin> fst ` set rows"
  proof
    fix c
    show "map_of (rows @ [(k, v)]) c = ((map_of rows)(k \<mapsto> v)) c"
      using that map_of_eq_None_iff [of rows k] by (cases "map_of rows c") (auto simp: map_add_def)
  qed
  then show ?thesis by (simp add: put_vector_def Pair map_of_replace)
qed

lemma map_of_fold_put: "distinct (map fst batch) \<Longrightarrow> map_of (fold put_vector batch rows) = map_of rows ++ map_of batch"
proof (induction batch arbitrary: rows)
  case (Cons cv batch)
  have "fst cv \<notin> dom (map_of batch)" using Cons.prems by (simp add: dom_map_of_conv_image_fst)
  then have "((map_of rows)(fst cv \<mapsto> snd cv)) ++ map_of batch = map_of rows ++ (map_of batch)(fst cv \<mapsto> snd cv)"
    by (auto simp: fun_eq_iff map_add_def dom_def split: option.splits)
  moreover have "map_of (cv # batch) = (map_of batch)(fst cv \<mapsto> snd cv)" by (cases cv) simp
  moreover have "map_of (fold put_vector (cv # batch) rows) = ((map_of rows)(fst cv \<mapsto> snd cv)) ++ map_of batch"
    using Cons by (simp add: map_of_put_vector del: map_add_upd)
  ultimately show ?case by (simp only:)
qed simp

lemma SaveEmbeddings_step [inv_intros]: "ok_step (SaveEmbeddings env ref batch)"
proof -
  have "ok_step (exec env (insert_vectors (violation env) n rows))" for n rows
    by (intro exec_ok_step insert_vectors_ok insert_vectors_seq)
  from map_err_ok_step [OF this] show ?thesis
    by (auto simp: ok_step_def SaveEmbeddings_def split: sum.splits prod.splits)
qed

lemma table_of_insert_vectors:
  assumes "insert_vectors viol name batch db = (Inr (), db')"
  shows "\<exists>t. table_of db name = Some t \<and> table_of db' name = Some (t\<lparr>trows := fold put_vector batch (trows t)\<rparr>) \<and>
    distinct (map fst batch) \<and> chunkRows db' = chunkRows db \<and> noteRows db' = noteRows db"
proof -
  let ?f = "\<lambda>t. t\<lparr>trows := fold put_vector batch (trows t)\<rparr>"
  have "find (\<lambda>t. tname t = name) (map (\<lambda>t. if tname t = name then ?f t else t) ts) =
      map_option ?f (find (\<lambda>t. tname t = name) ts)" for ts :: "vec_table list"
    by (induction ts) auto
  then show ?thesis using assms
    by (auto simp: insert_vectors_def table_of_def simp del: find.simps split: option.splits if_splits)
qed

lemma SaveEmbeddings_cases:
  assumes "db_ok (snd s)" "SaveEmbeddings env ref batch s = (r, s')"
  shows "db_ok (snd s') \<and> index_of (snd s') = index_of (snd s) \<and>
    (let before = pending (snd s) (refTable ref);
         after = filter (\<lambda>c. cid c \<notin> cvChunk ` set batch) before
     in case r of
          Inr _ \<Rightarrow> pending (snd s') (refTable ref) = after \<and>
            vector_of (snd s') (refTable ref) = vector_of (snd s) (refTable ref) ++ map_of (batch_rows batch)
        | Inl e \<Rightarrow>
            pending (snd s') (refTable ref) = before \<and>
              vector_of (snd s') (refTable ref) = vector_of (snd s) (refTable ref) \<or>
            pending (snd s') (refTable ref) = after \<and>
              vector_of (snd s') (refTable ref) = vector_of (snd s) (refTable ref) ++ map_of (batch_rows batch))"
proof -
  have ok: "db_ok (snd s')" using ok_stepD [OF SaveEmbeddings_step assms(2,1)] by simp
  let ?ins = "insert_vectors (violation env) (refTable ref) (batch_rows batch)"
  let ?before = "pending (snd s) (refTable ref)"
  let ?after = "filter (\<lambda>c. cid c \<notin> cvChunk ` set batch) ?before"
  have filled: "pending db' (refTable ref) = ?after \<and> index_of db' = index_of (snd s) \<and>
      vector_of db' (refTable ref) = vector_of (snd s) (refTable ref) ++ map_of (batch_rows batch)"
    if "?ins (snd s) = (Inr (), db')" for db'
  proof -
    from table_of_insert_vectors [OF that] obtain t where t: "table_of (snd s) (refTable ref) = Some t"
      "table_of db' (refTable ref) = Some (t\<lparr>trows := fold put_vector (batch_rows batch) (trows t)\<rparr>)"
      "distinct (map fst (batch_rows batch))" "chunkRows db' = chunkRows (snd s)" by auto
    have ids: "fst ` set (batch_rows batch) = cvChunk ` set batch" by (force simp: batch_rows_def)
    have "pending db' (refTable ref) = ?after"
      by (simp add: pending_def t pending_rows_def fst_fold_put ids filter_sort conj_commute)
    moreover have "index_of db' = index_of (snd s)"
      using index_of_insert_vectors [of "violation env" "refTable ref" "batch_rows batch" "snd s"] that by simp
    moreover have "vector_of db' (refTable ref) = vector_of (snd s) (refTable ref) ++ map_of (batch_rows batch)"
    proof -
      have "vector_of (snd s) (refTable ref) = map_of (trows t)"
        "vector_of db' (refTable ref) = map_of (fold put_vector (batch_rows batch) (trows t))"
        using t(1,2) by (simp_all add: vector_of_def fun_eq_iff)
      then show ?thesis using map_of_fold_put [OF t(3), of "trows t"] by simp
    qed
    ultimately show ?thesis by blast
  qed
  show ?thesis
  proof (cases "batch = []")
    case True
    then show ?thesis using assms ok by (auto simp: SaveEmbeddings_def batch_rows_def Let_def)
  next
    case ne: False
    show ?thesis
    proof (cases "dims_ok ref batch")
      case False
      then obtain e where "buildEmbeddingInsert ref batch = Inl e"
        using buildEmbeddingInsert_cases [of ref batch] by auto
      then show ?thesis using assms ne by (auto simp: SaveEmbeddings_def Let_def)
    next
      case True
      then obtain q where "buildEmbeddingInsert ref batch = Inr (q, batch_args batch)" "bound_rows q (batch_args batch) = batch_rows batch"
        by (rule buildEmbeddingInsert_ok)
      then obtain g where run: "map_err g (exec env ?ins s) = (r, s')"
        using assms(2) ne by (auto simp: SaveEmbeddings_def)
      show ?thesis
      proof (cases r)
        case (Inr u)
        then have "?ins (snd s) = (Inr (), snd s')" using run exec_Inr by fastforce
        from filled [OF this] ok Inr show ?thesis by (simp add: Let_def)
      next
        case (Inl e)
        have "snd s' = snd s \<or> snd s' = snd (?ins (snd s))"
          using exec_state [of env ?ins s] run by (metis snd_conv snd_map_err)
        moreover have "snd (?ins (snd s)) = snd s \<or> ?ins (snd s) = (Inr (), snd (?ins (snd s)))"
          by (auto simp: insert_vectors_def split: option.splits)
        ultimately have "snd s' = snd s \<or> ?ins (snd s) = (Inr (), snd s')" by metis
        with filled ok Inl show ?thesis by (auto simp: Let_def)
      qed
    qed
  qed
qed

text \<open>
  C32. Storing a batch fills exactly the chunks of the batch. On success each of them has the
  vector given for it, every other chunk the vector it had, the chunks still pending are
  those that were pending and are not in the batch, in the same order, and notes and
  chunks are untouched. On failure the pending chunks are as before or, when only the reply
  was lost, as after a success. The database stays consistent.
\<close>

theorem SaveEmbeddings_fills:
  assumes "db_ok (snd s)" "SaveEmbeddings env ref batch s = (r, s')"
  shows "db_ok (snd s') \<and> index_of (snd s') = index_of (snd s) \<and>
    (let before = pending (snd s) (refTable ref);
         after = filter (\<lambda>c. cid c \<notin> cvChunk ` set batch) before
     in case r of
          Inr _ \<Rightarrow> pending (snd s') (refTable ref) = after \<and>
            vector_of (snd s') (refTable ref) = vector_of (snd s) (refTable ref) ++ map_of (batch_rows batch)
        | Inl e \<Rightarrow>
            pending (snd s') (refTable ref) = before \<and>
              vector_of (snd s') (refTable ref) = vector_of (snd s) (refTable ref) \<or>
            pending (snd s') (refTable ref) = after \<and>
              vector_of (snd s') (refTable ref) = vector_of (snd s) (refTable ref) ++ map_of (batch_rows batch))"
  using assms by (rule SaveEmbeddings_cases)

section \<open>A space has a table of its own\<close>

lemma register_space_same: "noteRows (snd (register_space viol cr space slug db)) = noteRows db"
  "chunkRows (snd (register_space viol cr space slug db)) = chunkRows db"
  by (auto simp: register_space_def Let_def split: option.splits)

lemma create_table_same: "noteRows (snd (create_table name dim db)) = noteRows db"
  "chunkRows (snd (create_table name dim db)) = chunkRows db"
  by (auto simp: create_table_def)

lemma ensure_body_result:
  assumes run: "ensure_body env pre space slug s = (r, s')" and ok: "db_ok (snd s)"
  shows "seq_le (snd s) (snd s') \<and>
    ((\<exists>ref. r = Inr ref) \<longrightarrow> db_ok (snd s') \<and> index_of (snd s') = index_of (snd s)) \<and>
    (\<forall>ref. r = Inr ref \<longrightarrow> refSpace ref = space \<and>
       (\<exists>t. table_of (snd s') (refTable ref) = Some t \<and> tdim t = Dim space) \<and>
       (\<exists>row\<in>set (spaceRows (snd s')). sspace row = space \<and> stable row = refTable ref) \<and>
       (\<forall>t\<in>set (vecTables (snd s)). table_of (snd s') (tname t) = Some t))"
proof -
  obtain r1 s1 where 1: "exec env (\<lambda>db. (Inr () :: unit result, db)) s = (r1, s1)" by (rule prod.exhaust)
  have s1: "snd s1 = snd s" using exec_state [of env "\<lambda>db. (Inr () :: unit result, db)" s] 1 by auto
  let ?reg = "register_space (violation env) (now env (fst s1)) space slug"
  obtain r2 s2 where 2: "exec env ?reg s1 = (r2, s2)" by (rule prod.exhaust)
  have le2: "seq_le (snd s1) (snd s2)" using exec_state [of env ?reg s1] 2 register_space_seq by auto
  show ?thesis
  proof (cases "\<exists>u i name. r1 = Inr u \<and> r2 = Inr (i, name)")
    case False
    then have "(snd s' = snd s1 \<or> snd s' = snd s2) \<and> (\<exists>x. r = Inl x)"
      using run 1 2 by (auto simp: ensure_body_def split: sum.splits prod.splits)
    then show ?thesis using s1 le2 by auto
  next
    case True
    then obtain u i name where r: "r1 = Inr u" "r2 = Inr (i, name)" by auto
    have reg: "?reg (snd s) = (Inr (i, name), snd s2)" using exec_Inr [OF 2 [unfolded r]] s1 by simp
    let ?cre = "create_table name (Dim space)"
    obtain r3 s3 where 3: "exec env ?cre s2 = (r3, s3)" by (rule prod.exhaust)
    have le3: "seq_le (snd s2) (snd s3)" using exec_state [of env ?cre s2] 3 by auto
    obtain r4 s4 where 4: "exec env (create_index (violation env) (hnsw_max env) name) s3 = (r4, s4)" by (rule prod.exhaust)
    have s4: "snd s4 = snd s3" using exec_state [of env "create_index (violation env) (hnsw_max env) name" s3] 4 by auto
    have le: "seq_le (snd s) (snd s3)" using s1 le2 le3 seq_le_trans by metis
    show ?thesis
    proof (cases "\<exists>u v. r3 = Inr u \<and> r4 = Inr v")
      case False
      then have "(snd s' = snd s3) \<and> (\<exists>x. r = Inl x)"
        using run 1 2 r 3 4 s4 by (auto simp: ensure_body_def split: sum.splits)
      then show ?thesis using le by auto
    next
      case True
      then obtain u' v where r34: "r3 = Inr u'" "r4 = Inr v" by auto
      have "snd s' = snd s3" "r = Inr \<lparr>refId = i, refSpace = space, refTable = name\<rparr>"
        using run 1 2 r 3 4 s4 r34 by (auto simp: ensure_body_def)
      moreover have "snd s3 = snd (?cre (snd s2))" using exec_Inr [OF 3 [unfolded r34]] by simp
      moreover have "index_of (snd (?cre (snd s2))) = index_of (snd s)"
        by (rule index_of_cong)
          (use reg register_space_same [of "violation env" "now env (fst s1)" space slug "snd s"]
           in \<open>simp_all add: create_table_same\<close>)
      ultimately show ?thesis using register_create_ok [OF ok reg] le by auto
    qed
  qed
qed

lemma Ensure_step [inv_intros]: "ok_step (EnsureSpace env sha ul space)"
proof (cases "Validate space")
  case None
  let ?pre = "''ensure space '' @ Space_String space @ '': ''"
  have "ok_step (in_tx env (?pre @ ''begin'') (\<lambda>_. ?pre @ ''commit'') (ensure_body env ?pre space (Slug sha ul space)))"
    by (rule in_tx_ok_step) (use ensure_body_result in blast)
  then show ?thesis using None by (simp add: ok_step_def EnsureSpace_def Let_def)
qed (simp add: ok_step_def EnsureSpace_def)

lemma EnsureSpace_cases:
  assumes "db_ok (snd s)" "EnsureSpace env sha ul space s = (r, s')"
  shows "db_ok (snd s') \<and> index_of (snd s') = index_of (snd s) \<and>
    (case r of
       Inl e \<Rightarrow> True
     | Inr ref \<Rightarrow>
         refSpace ref = space \<and>
         (\<exists>t. table_of (snd s') (refTable ref) = Some t \<and> tdim t = Dim space) \<and>
         map sspace (filter (\<lambda>row. stable row = refTable ref) (spaceRows (snd s'))) = [space] \<and>
         list_all (\<lambda>t. table_of (snd s') (tname t) = Some t) (vecTables (snd s)))"
proof -
  have ok: "db_ok (snd s')" using ok_stepD [OF Ensure_step assms(2,1)] by simp
  show ?thesis
  proof (cases "Validate space")
    case (Some e)
    then show ?thesis using assms by (auto simp: EnsureSpace_def)
  next
    case None
    let ?pre = "''ensure space '' @ Space_String space @ '': ''"
    have "in_tx env (?pre @ ''begin'') (\<lambda>_. ?pre @ ''commit'') (ensure_body env ?pre space (Slug sha ul space)) s = (r, s')"
      using assms(2) None by (simp add: EnsureSpace_def Let_def)
    then show ?thesis
    proof (cases rule: in_tx_cases)
      case refused
      then show ?thesis using ok by auto
    next
      case (rolled_back s1 e s1')
      then show ?thesis using ok by auto
    next
      case (committed s1 ref s1')
      have ok1: "db_ok (snd s1)" using committed(1) assms(1) by simp
      note res = ensure_body_result [OF committed(2) ok1]
      then obtain row where row: "row \<in> set (spaceRows (snd s'))" "sspace row = space" "stable row = refTable ref"
        using committed by auto
      have "distinct (map stable (spaceRows (snd s')))" using ok by (simp add: db_ok_def spaces_ok_def)
      then have "filter (\<lambda>r. stable r = stable row) (spaceRows (snd s')) = [row]"
        using row(1) by (rule filter_distinct_single)
      with res committed row ok show ?thesis by (auto simp: list_all_iff)
    qed
  qed
qed

text \<open>
  C34. Two vector spaces never share a table. When \<open>EnsureSpace\<close> succeeds the returned
  reference is to the given space; its table exists, takes vectors of exactly the space's
  dimension, and is registered for this space and for no other; every vector table that
  existed is as it was; notes and chunks are untouched. Even if two slugs collide the second
  space is refused. However it ends, the database is consistent and the index unchanged.
\<close>

theorem EnsureSpace_own_table:
  assumes "db_ok (snd s)" "EnsureSpace env sha ul space s = (r, s')"
  shows "db_ok (snd s') \<and> index_of (snd s') = index_of (snd s) \<and>
    (case r of
       Inl e \<Rightarrow> True
     | Inr ref \<Rightarrow>
         refSpace ref = space \<and>
         (\<exists>t. table_of (snd s') (refTable ref) = Some t \<and> tdim t = Dim space) \<and>
         map sspace (filter (\<lambda>row. stable row = refTable ref) (spaceRows (snd s'))) = [space] \<and>
         list_all (\<lambda>t. table_of (snd s') (tname t) = Some t) (vecTables (snd s)))"
  using assms by (rule EnsureSpace_cases)

text \<open>The identity column of the registry: every registration draws a number.\<close>

definition reliable :: "'e dbenv \<Rightarrow> bool" where
  "reliable env \<longleftrightarrow> (\<forall>e. fst (fault env e) = Fine)"

lemma reliable_exec:
  assumes "reliable env"
  shows "\<exists>e. exec env stmt s = (fst (stmt (snd s)), e, snd (stmt (snd s)))"
proof -
  obtain e where "fault env (fst s) = (Fine, e)"
    using assms unfolding reliable_def by (metis prod.collapse)
  then show ?thesis by (simp add: exec_def split: prod.splits)
qed

lemma valid_utf8_ascii: "\<forall>c\<in>set s. byte c < 0x80 \<Longrightarrow> valid_utf8 s"
  by (induction s) (simp_all add: valid_utf8_ascii_Cons)

lemma slug_text_ok:
  assumes "Validate space = None" "\<And>x. length (sha x) = 32"
  shows "text_ok (Slug sha ul space)"
proof -
  have sc: "\<forall>c\<in>set (Slug sha ul space). slug_char c" using Slug_props [OF assms] by simp
  have "byte c < 0x80 \<and> c \<noteq> CHR 0x00" if "slug_char c" for c
    using that by (auto simp: slug_char_def is_digit_def)
  with sc show ?thesis unfolding text_ok_def by (intro conjI valid_utf8_ascii) auto
qed

definition usable_space :: "'e dbenv \<Rightarrow> Space \<Rightarrow> bool" where
  "usable_space env space \<longleftrightarrow> Validate space = None \<and> Dim space \<le> hnsw_max env \<and>
     text_ok (spaceProvider space) \<and> text_ok (spaceModel space)"

text \<open>The database after a number of openings, one space each time.\<close>

fun after_opens ::
  "'e dbenv \<Rightarrow> (gostring \<Rightarrow> gostring) \<Rightarrow> (rune \<Rightarrow> rune) \<Rightarrow> Space \<Rightarrow> 'e \<Rightarrow> nat \<Rightarrow> 'e \<times> pg" where
  "after_opens env sha ul space e 0 = (e, empty_pg)"
| "after_opens env sha ul space e (Suc n) = snd (EnsureSpace env sha ul space (after_opens env sha ul space e n))"

definition opened :: "Space \<Rightarrow> gostring \<Rightarrow> int \<Rightarrow> nat \<Rightarrow> pg \<Rightarrow> bool" where
  "opened space slug cr n db \<longleftrightarrow>
     db = empty_pg\<lparr>spaceRows := (if n = 0 then [] else [\<lparr>sid = 1, sspace = space, stable = slug, screated = cr\<rparr>]),
                  vecTables := (if n = 0 then [] else [\<lparr>tname = slug, tdim = Dim space, trows = []\<rparr>]),
                  spaceSeq := int n + 1\<rparr>"

lemma reliable_tx:
  assumes "reliable env"
  shows "\<exists>e e'. in_tx env b c work s =
    (case work (e, snd s) of
       (Inl x, e1, db) \<Rightarrow> (Inl x, e1, rollback (snd s) db)
     | (Inr a, e1, db) \<Rightarrow> (Inr a, e', db))"
proof -
  have f: "\<exists>e'. fault env e = (Fine, e')" for e using assms unfolding reliable_def by (metis prod.collapse)
  obtain e where e: "fault env (fst s) = (Fine, e)" using f by blast
  obtain r e1 db where w: "work (e, snd s) = (r, e1, db)" using prod.exhaust by metis
  obtain e' where e': "fault env e1 = (Fine, e')" using f by blast
  show ?thesis
    by (intro exI [of _ e] exI [of _ e'], cases r) (simp_all add: in_tx_def e w e')
qed

lemma ensure_once:
  assumes rel: "reliable env" and use: "usable_space env space" and sha: "\<And>x. length (sha x) = 32"
    and db: "opened space (Slug sha ul space) cr n (snd s)"
  shows "if n < 32767
    then (\<exists>ref e' cr'. EnsureSpace env sha ul space s = (Inr ref, e') \<and>
            opened space (Slug sha ul space) cr' (Suc n) (snd e'))
    else (\<exists>x. fst (EnsureSpace env sha ul space s) = Inl x) \<and>
         snd (snd (EnsureSpace env sha ul space s)) = snd s"
proof -
  let ?slug = "Slug sha ul space"
  let ?pre = "''ensure space '' @ Space_String space @ '': ''"
  let ?work = "ensure_body env ?pre space ?slug"
  have val: "Validate space = None" "Dim space \<le> hnsw_max env" "1 \<le> Dim space" "Dim space \<le> 16000"
    using use by (auto simp: usable_space_def Validate_def split: if_splits)
  have texts: "text_ok (spaceProvider space)" "text_ok (spaceModel space)" "text_ok ?slug"
    using use slug_text_ok [OF val(1) sha] by (auto simp: usable_space_def)
  obtain e e' where tx: "in_tx env (?pre @ ''begin'') (\<lambda>_. ?pre @ ''commit'') ?work s =
    (case ?work (e, snd s) of
       (Inl x, e1, db) \<Rightarrow> (Inl x, e1, rollback (snd s) db)
     | (Inr a, e1, db) \<Rightarrow> (Inr a, e', db))"
    using reliable_tx [OF rel] by blast
  have run: "EnsureSpace env sha ul space s = in_tx env (?pre @ ''begin'') (\<lambda>_. ?pre @ ''commit'') ?work s"
    using val(1) by (simp add: EnsureSpace_def Let_def)
  obtain e1 where 1: "exec env (\<lambda>db. (Inr () :: unit result, db)) (e, snd s) = (Inr (), e1, snd s)"
    using reliable_exec [OF rel, of "\<lambda>db. (Inr () :: unit result, db)" "(e, snd s)"] by auto
  let ?reg = "register_space (violation env) (now env e1) space ?slug"
  obtain e2 where 2: "exec env ?reg (e1, snd s) = (fst (?reg (snd s)), e2, snd (?reg (snd s)))"
    using reliable_exec [OF rel, of ?reg "(e1, snd s)"] by auto
  have dbn: "spaceSeq (snd s) = int n + 1" using db by (simp add: opened_def)
  show ?thesis
  proof (cases "n < 32767")
    case False
    then have "?reg (snd s) = (Inl (violation env ''embedding_spaces_id_seq''), snd s)"
      using texts dbn by (simp add: register_space_def max_int2_def)
    then have "?work (e, snd s) = (Inl (wrap (?pre @ ''register'') (violation env ''embedding_spaces_id_seq'')), e2, snd s)"
      using 1 2 by (simp add: ensure_body_def)
    then show ?thesis using False tx run by (simp add: rollback_def)
  next
    case True
    define cr' where "cr' = (if n = 0 then now env e1 else cr)"
    define db2 where "db2 = snd (?reg (snd s))"
    have reg: "?reg (snd s) = (Inr (1, ?slug), db2)"
      "snd (create_table ?slug (Dim space) db2) =
         empty_pg\<lparr>spaceRows := [\<lparr>sid = 1, sspace = space, stable = ?slug, screated = cr'\<rparr>],
           vecTables := [\<lparr>tname = ?slug, tdim = Dim space, trows = []\<rparr>], spaceSeq := int n + 2\<rparr>"
      "fst (create_table ?slug (Dim space) db2) = Inr ()"
      using True texts val db unfolding opened_def db2_def cr'_def
      by (auto simp: register_space_def max_int2_def empty_pg_def create_table_def table_of_def Let_def)
    obtain e3 where 3: "exec env (create_table ?slug (Dim space)) (e2, db2) =
        (Inr (), e3, snd (create_table ?slug (Dim space) db2))"
      using reliable_exec [OF rel, of "create_table ?slug (Dim space)" "(e2, db2)"] reg by auto
    let ?db3 = "snd (create_table ?slug (Dim space) db2)"
    have "create_index (violation env) (hnsw_max env) ?slug ?db3 = (Inr (), ?db3)"
      using val by (simp add: reg create_index_def table_of_def)
    then obtain e4 where 4: "exec env (create_index (violation env) (hnsw_max env) ?slug) (e3, ?db3) = (Inr (), e4, ?db3)"
      using reliable_exec [OF rel, of "create_index (violation env) (hnsw_max env) ?slug" "(e3, ?db3)"] by auto
    have "?work (e, snd s) = (Inr \<lparr>refId = 1, refSpace = space, refTable = ?slug\<rparr>, e4, ?db3)"
      using 1 2 reg(1) 3 4 by (simp add: ensure_body_def)
    then have "EnsureSpace env sha ul space s = (Inr \<lparr>refId = 1, refSpace = space, refTable = ?slug\<rparr>, e', ?db3)"
      using tx run by simp
    moreover have "opened space ?slug cr' (Suc n) ?db3" by (simp add: opened_def reg(2))
    ultimately show ?thesis using True by (metis snd_conv)
  qed
qed

text \<open>
  Opening wears the registry out. Every \<open>EnsureSpace\<close> draws a number from the identity
  column of \<open>embedding_spaces\<close>, also when the space is already registered, and the column is
  a \<open>SMALLINT\<close>: on a server that never fails, the first 32767 openings of one and the same
  usable space succeed and every later one fails, though the space is there.
\<close>

theorem EnsureSpace_wears_out:
  assumes "reliable env" "usable_space env space" "\<And>x. length (sha x) = 32"
  shows "isl (fst (EnsureSpace env sha ul space (after_opens env sha ul space e n))) \<longleftrightarrow> 32767 \<le> n"
proof -
  let ?slug = "Slug sha ul space"
  have "\<exists>cr. opened space ?slug cr (min n 32767) (snd (after_opens env sha ul space e n))"
  proof (induction n)
    case 0
    show ?case by (simp add: opened_def empty_pg_def)
  next
    case (Suc n)
    then obtain cr where "opened space ?slug cr (min n 32767) (snd (after_opens env sha ul space e n))" by blast
    note once = ensure_once [OF assms this]
    show ?case
    proof (cases "n < 32767")
      case True
      then show ?thesis using once by (auto simp: min_def split: if_splits)
    next
      case False
      then have "snd (after_opens env sha ul space e (Suc n)) = snd (after_opens env sha ul space e n)"
        "min (Suc n) 32767 = min n 32767" using once by simp_all
      then show ?thesis using Suc by simp
    qed
  qed
  then obtain cr where "opened space ?slug cr (min n 32767) (snd (after_opens env sha ul space e n))" by blast
  from ensure_once [OF assms this] show ?thesis by (cases "n < 32767") auto
qed

lemma EnsureSpace_wears_out_witness:
  "let space = \<lparr>spaceProvider = ''fake'', spaceModel = ''m'', Dim = 8\<rparr>
   in \<not> isl (fst (EnsureSpace calm_db zero_sha (\<lambda>r. r) space (after_opens calm_db zero_sha (\<lambda>r. r) space () 32766))) \<and>
      isl (fst (EnsureSpace calm_db zero_sha (\<lambda>r. r) space (after_opens calm_db zero_sha (\<lambda>r. r) space () 32767)))"
proof -
  let ?space = "\<lparr>spaceProvider = ''fake'', spaceModel = ''m'', Dim = 8\<rparr>"
  have "reliable calm_db" by (simp add: reliable_def calm_db_def)
  moreover have "usable_space calm_db ?space"
  proof -
    have "Validate ?space = None" "text_ok ''fake''" "text_ok ''m''" by code_simp+
    then show ?thesis by (simp add: usable_space_def calm_db_def)
  qed
  moreover have "length (zero_sha x) = 32" for x by (simp add: zero_sha_def)
  ultimately have wears: "isl (fst (EnsureSpace calm_db zero_sha (\<lambda>r. r) ?space
      (after_opens calm_db zero_sha (\<lambda>r. r) ?space () n))) \<longleftrightarrow> 32767 \<le> n" for n
    by (rule EnsureSpace_wears_out)
  show ?thesis unfolding Let_def wears by simp
qed

lemma EnsureSpace_own_table_witness:
  "let space = \<lparr>spaceProvider = ''fake'', spaceModel = ''m'', Dim = 8\<rparr>;
       r = EnsureSpace calm_db zero_sha (\<lambda>r. r) space ((), empty_pg)
   in (\<exists>ref. fst r = Inr ref \<and> refSpace ref = space) \<and> db_ok (snd (snd r))"
proof -
  let ?r = "EnsureSpace calm_db zero_sha (\<lambda>r. r) \<lparr>spaceProvider = ''fake'', spaceModel = ''m'', Dim = 8\<rparr> ((), empty_pg)"
  have r: "\<not> isl (fst ?r)" by code_simp
  have "db_ok (snd ((), empty_pg))" by (simp add: db_ok_empty)
  from EnsureSpace_own_table [OF this surjective_pairing [of ?r]] r show ?thesis
    unfolding Let_def by (cases "fst ?r") auto
qed

lemma ensure_body_dim:
  assumes "ensure_body env pre space slug s = (Inr ref, s')"
  shows "\<exists>t. table_of (snd s') (refTable ref) = Some t \<and> tdim t \<le> hnsw_max env"
proof -
  from assms obtain s3 where "exec env (create_index (violation env) (hnsw_max env) (refTable ref)) s3 = (Inr (), s')"
    by (auto simp: ensure_body_def split: sum.splits prod.splits)
  then have c: "create_index (violation env) (hnsw_max env) (refTable ref) (snd s3) = (Inr (), snd s')"
    using exec_Inr by fastforce
  then have "snd s' = snd s3" using create_index_same by (metis snd_conv)
  with c show ?thesis by (auto simp: create_index_def split: option.splits if_splits)
qed

text \<open>
  A valid space can still be impossible to store: \<open>Validate\<close> admits up to 16000
  dimensions, but the index \<open>EnsureSpace\<close> builds in the same transaction takes fewer
  (2000 in pgvector), so for a dimension above that every call fails and leaves no table.
\<close>

theorem EnsureSpace_above_index_limit:
  assumes "db_ok (snd s)" "hnsw_max env < Dim space" "Validate space = None"
  shows "isl (fst (EnsureSpace env sha ul space s)) \<and>
    (snd (snd (EnsureSpace env sha ul space s)) = snd s \<or>
     (\<exists>db. snd (snd (EnsureSpace env sha ul space s)) = rollback (snd s) db))"
proof -
  let ?pre = "''ensure space '' @ Space_String space @ '': ''"
  obtain r s' where run: "EnsureSpace env sha ul space s = (r, s')" by (rule prod.exhaust)
  then have "in_tx env (?pre @ ''begin'') (\<lambda>_. ?pre @ ''commit'') (ensure_body env ?pre space (Slug sha ul space)) s = (r, s')"
    using assms(3) by (simp add: EnsureSpace_def Let_def)
  then have "isl r \<and> (snd s' = snd s \<or> (\<exists>db. snd s' = rollback (snd s) db))"
  proof (cases rule: in_tx_cases)
    case (committed s1 ref s1')
    have "db_ok (snd s1)" using committed(1) assms(1) by simp
    with ensure_body_result [OF committed(2)] ensure_body_dim [OF committed(2)] assms(2)
    show ?thesis by auto
  qed auto
  with run show ?thesis by simp
qed

lemma EnsureSpace_above_index_limit_witness:
  "isl (fst (EnsureSpace calm_db zero_sha (\<lambda>r. r)
     \<lparr>spaceProvider = ''google'', spaceModel = ''gemini-embedding-001'', Dim = 3072\<rparr> ((), empty_pg)))"
proof -
  have "Validate \<lparr>spaceProvider = ''google'', spaceModel = ''gemini-embedding-001'', Dim = 3072\<rparr> = None" by code_simp
  then show ?thesis
    using EnsureSpace_above_index_limit [of "((), empty_pg)" calm_db
        "\<lparr>spaceProvider = ''google'', spaceModel = ''gemini-embedding-001'', Dim = 3072\<rparr>" zero_sha "\<lambda>r. r"]
    by (simp add: db_ok_empty calm_db_def)
qed

section \<open>The ranking of a search\<close>

definition hit_key :: "'e pgvector \<Rightarrow> Vector \<Rightarrow> int \<times> Vector \<Rightarrow> int \<times> int" where
  "hit_key pv v row = (f64_key (cosine pv (snd row) v), fst row)"

definition is_hit :: "pg \<Rightarrow> Hit \<Rightarrow> bool" where
  "is_hit db h \<longleftrightarrow> (\<exists>c\<in>set (chunkRows db). \<exists>n\<in>set (noteRows db). nid n = cnote c \<and>
     hitChunk h = cid c \<and> hitIndex h = cindex c \<and> hitText h = ctext c \<and> hitPath h = npath n \<and> hitName h = nname n)"

lemma join_row_single:
  assumes "db_ok db" "c \<in> cid ` set (chunkRows db)"
  shows "\<exists>h. join_row pv v db (c, vec) = [(hit_key pv v (c, vec), h)] \<and> hitChunk h = c \<and> is_hit db h \<and>
    hitScore h = one_minus pv (cosine pv vec v)"
proof -
  from assms(2) obtain ch where ch: "ch \<in> set (chunkRows db)" "cid ch = c" by auto
  have fc: "find (\<lambda>x. cid x = c) (chunkRows db) = Some ch"
    using find_distinct [of cid "chunkRows db" ch] assms(1) ch by (simp add: db_ok_def chunks_ok_def)
  obtain n where n: "n \<in> set (noteRows db)" "nid n = cnote ch"
    using assms(1) ch by (auto simp: db_ok_def chunks_ok_def)
  have fn: "find (\<lambda>x. nid x = cnote ch) (noteRows db) = Some n"
    using find_distinct [of nid "noteRows db" n] assms(1) n by (simp add: db_ok_def notes_ok_def)
  show ?thesis using fc fn ch n
    by (auto simp: join_row_def hit_key_def Let_def is_hit_def)
qed

text \<open>The rows of the join, one for each scanned vector, and what sorting and cutting them keeps.\<close>

lemma joined_rows:
  assumes "db_ok db" "\<forall>row\<in>set rows. fst row \<in> cid ` set (chunkRows db)"
  shows "\<exists>hs. concat (map (join_row pv v db) rows) = zip (map (hit_key pv v) rows) hs \<and>
    length hs = length rows \<and> map hitChunk hs = map fst rows \<and> list_all (is_hit db) hs"
  using assms(2)
proof (induction rows)
  case (Cons row rows)
  then obtain hs where hs: "concat (map (join_row pv v db) rows) = zip (map (hit_key pv v) rows) hs"
    "length hs = length rows" "map hitChunk hs = map fst rows" "list_all (is_hit db) hs" by auto
  obtain h where "join_row pv v db row = [(hit_key pv v row, h)]" "hitChunk h = fst row" "is_hit db h"
    using join_row_single [OF assms(1), of "fst row" pv v "snd row"] Cons.prems by auto
  with hs show ?case by (intro exI [of _ "h # hs"]) simp
qed simp

text \<open>The least elements of a list: a sorted prefix with nothing smaller left out.\<close>

lemma take_sorted:
  assumes "sorted (map f xs)" "x \<in> set xs"
  shows "x \<in> set (take k xs) \<or> length (take k xs) = k \<and> (\<forall>y\<in>set (take k xs). f y \<le> f x)"
proof (cases "x \<in> set (take k xs)")
  case False
  then have d: "x \<in> set (drop k xs)" using assms(2) by (metis Un_iff append_take_drop_id set_append)
  have "sorted (map f (take k xs) @ map f (drop k xs))" using assms(1) by (simp flip: map_append)
  then have "\<forall>y\<in>set (take k xs). f y \<le> f x" using d by (auto simp: sorted_append)
  moreover have "length (take k xs) = k" using d by (cases "k \<le> length xs") auto
  ultimately show ?thesis by simp
qed simp

text \<open>
  C33. A search returns the nearest chunks of its own space, and nothing else. Of the rows the
  scan of the space's table yields, the result holds the \<open>topK\<close> least by distance and, at
  equal distance, by chunk id (one, if \<open>topK\<close> says less): it is sorted that way, has no chunk
  twice, no more than \<open>topK\<close> hits, fewer only when every scanned row is in it, and a scanned
  row left out is no nearer than any hit. Every hit shows the chunk's own text and number and
  the path and title of the note it belongs to. Searching changes nothing.
\<close>

theorem Search_nearest:
  assumes "db_ok (snd s)" "storage_Search env pv ref v topK s = (Inr hits, s')"
    "table_of (snd s) (refTable ref) = Some t"
    "set (index_scan pv (fst s) v (trows t)) \<subseteq> set (trows t)" "distinct (index_scan pv (fst s) v (trows t))"
  defines "key h \<equiv> hit_key pv v (hitChunk h, the (vector_of (snd s) (refTable ref) (hitChunk h)))"
  shows "snd s' = snd s \<and> length hits \<le> nat (max 1 topK) \<and> sorted (map key hits) \<and>
    distinct (map hitChunk hits) \<and> list_all (is_hit (snd s)) hits \<and>
    (\<forall>row\<in>set (index_scan pv (fst s) v (trows t)).
       fst row \<in> hitChunk ` set hits \<or>
       length hits = nat (max 1 topK) \<and> (\<forall>h\<in>set hits. key h \<le> hit_key pv v row))"
proof -
  let ?db = "snd s" and ?k = "nat (max 1 topK)"
  let ?scan = "index_scan pv (fst s) v (trows t)"
  have mx: "(if topK < 1 then 1 else topK) = max 1 topK" by (simp add: max_def)
  have run: "exec env (\<lambda>db. (case table_of db (refTable ref) of
        None \<Rightarrow> Inl (violation env (refTable ref))
      | Some t \<Rightarrow> Inr (search_rows pv (fst s) v ?k t db), db)) s = (Inr hits, s')"
    using assms(2) unfolding storage_Search_def Let_def mx by (simp split: if_splits)
  have hits: "hits = search_rows pv (fst s) v ?k t ?db" and same: "snd s' = ?db"
    using exec_Inr [OF run] assms(3) by auto
  have t: "t \<in> set (vecTables ?db)" using assms(1,3) by (simp add: table_of_in db_ok_def)
  have rows: "distinct (map fst (trows t))" "\<forall>row\<in>set (trows t). fst row \<in> cid ` set (chunkRows ?db)"
    using assms(1) t by (fastforce simp: db_ok_def tables_ok_def rows_ok_def)+
  have scan: "\<forall>row\<in>set ?scan. fst row \<in> cid ` set (chunkRows ?db)" "distinct (map fst ?scan)"
    using rows assms(4,5) by (auto simp: distinct_map intro: inj_on_subset)
  obtain hs where hs: "concat (map (join_row pv v ?db) ?scan) = zip (map (hit_key pv v) ?scan) hs"
    "length hs = length ?scan" "map hitChunk hs = map fst ?scan" "list_all (is_hit ?db) hs"
    using joined_rows [OF assms(1) scan(1)] by blast
  let ?z = "zip (map (hit_key pv v) ?scan) hs"
  have key: "key h = k" if "(k, h) \<in> set ?z" for k h
  proof -
    from that obtain i where i: "i < length ?scan" "k = hit_key pv v (?scan ! i)" "h = hs ! i"
      using hs(2) by (auto simp: set_zip)
    have "hitChunk h = fst (?scan ! i)" using i hs(2,3) by (metis nth_map)
    moreover have "map_of (trows t) (fst (?scan ! i)) = Some (snd (?scan ! i))"
      using i(1) assms(4) rows(1) by (intro map_of_is_SomeI) (auto dest: nth_mem)
    ultimately show ?thesis by (simp add: key_def vector_of_def assms(3) i(2))
  qed
  define L where "L = sort_key fst ?z"
  have hitsL: "hits = map snd (take ?k L)" by (simp add: hits search_rows_def hs(1) L_def)
  have setL: "set L = set ?z" "length L = length ?scan" by (simp_all add: L_def hs(2))
  have "distinct (map hitChunk hs)" using scan(2) hs(3) by simp
  then have "distinct (map (hitChunk \<circ> snd) ?z)" using hs(2) by (simp flip: map_map)
  then have dL: "distinct (map (hitChunk \<circ> snd) L)"
    by (simp add: distinct_map L_def)
  have "map key hits = map fst (take ?k L)"
    using key setL by (auto simp: hitsL dest: in_set_takeD)
  moreover have "sorted (map fst L)" by (simp add: L_def)
  ultimately have srt: "sorted (map key hits)" by (simp add: sorted_wrt_take flip: take_map)
  have "distinct (map hitChunk hits)"
    using distinct_take [OF dL, of ?k] by (simp add: hitsL take_map)
  moreover have "list_all (is_hit ?db) hits"
  proof -
    have "snd ` set L \<subseteq> set hs" unfolding setL by (auto dest: set_zip_rightD)
    then have "set hits \<subseteq> set hs" using set_take_subset [of ?k L] by (auto simp: hitsL)
    then show ?thesis using hs(4) by (auto simp: list_all_iff)
  qed
  moreover have "fst row \<in> hitChunk ` set hits \<or> length hits = ?k \<and> (\<forall>h\<in>set hits. key h \<le> hit_key pv v row)"
    if row: "row \<in> set ?scan" for row
  proof -
    from row obtain i where i: "i < length ?scan" "row = ?scan ! i" by (auto simp: in_set_conv_nth)
    then have "(hit_key pv v row, hs ! i) \<in> set L"
      using hs(2) by (auto simp: setL(1) set_zip intro!: exI [of _ i])
    moreover have "hitChunk (hs ! i) = fst row" using i hs(2,3) by (metis nth_map)
    moreover have "sorted (map fst L)" by (simp add: L_def)
    ultimately consider "(hit_key pv v row, hs ! i) \<in> set (take ?k L)"
      | "length (take ?k L) = ?k" "\<forall>y\<in>set (take ?k L). fst y \<le> hit_key pv v row"
      using take_sorted [of fst L "(hit_key pv v row, hs ! i)" ?k] by auto
    then show ?thesis
    proof cases
      case 1
      then have "hs ! i \<in> set hits" unfolding hitsL by force
      with \<open>hitChunk (hs ! i) = fst row\<close> show ?thesis by force
    next
      case 2
      have "key h \<le> hit_key pv v row" if "h \<in> set hits" for h
      proof -
        from that obtain k where kh: "(k, h) \<in> set (take ?k L)" unfolding hitsL by auto
        have "fst (k, h) \<le> hit_key pv v row" using 2(2) kh by (rule bspec)
        moreover have "(k, h) \<in> set ?z" using in_set_takeD [OF kh] by (simp only: setL(1))
        then have "key h = k" by (rule key)
        ultimately show ?thesis by simp
      qed
      with 2(1) show ?thesis by (simp add: hitsL)
    qed
  qed
  moreover have "length hits \<le> ?k" by (simp add: hitsL)
  ultimately show ?thesis using srt same by blast
qed

text \<open>A database with one note of two chunks, one of them with a vector.\<close>

definition demo_space :: Space where
  "demo_space = \<lparr>spaceProvider = ''fake'', spaceModel = ''m'', Dim = 1\<rparr>"

definition demo_ref :: SpaceRef where
  "demo_ref = \<lparr>refId = 1, refSpace = demo_space, refTable = ''emb''\<rparr>"

definition demo_pg :: pg where
  "demo_pg = \<lparr>noteRows = [\<lparr>nid = 1, npath = ''a.md'', nname = ''t'', ntext = ''x'', nhash = ''h''\<rparr>],
     chunkRows = [\<lparr>cid = 1, cnote = 1, cindex = 0, ctext = ''x''\<rparr>, \<lparr>cid = 2, cnote = 1, cindex = 1, ctext = ''y''\<rparr>],
     spaceRows = [\<lparr>sid = 1, sspace = demo_space, stable = ''emb'', screated = 0\<rparr>],
     vecTables = [\<lparr>tname = ''emb'', tdim = 1, trows = [(2, [5])]\<rparr>],
     noteSeq = 2, chunkSeq = 3, spaceSeq = 2\<rparr>"

lemma demo_pg_ok: "db_ok demo_pg"
  by code_simp

definition demo_pv :: "unit pgvector" where
  "demo_pv = \<lparr>cosine = \<lambda>a b. ucast (hd a), one_minus = \<lambda>d. - d, index_scan = \<lambda>e v rows. rows\<rparr>"

lemma SaveEmbeddings_fills_witness:
  "let r = SaveEmbeddings calm_db demo_ref [\<lparr>cvChunk = 1, cvVector = [3]\<rparr>] ((), demo_pg)
   in fst r = Inr () \<and> map cid (pending demo_pg ''emb'') = [1] \<and> pending (snd (snd r)) ''emb'' = []"
proof -
  let ?r = "SaveEmbeddings calm_db demo_ref [\<lparr>cvChunk = 1, cvVector = [3]\<rparr>] ((), demo_pg)"
  have r: "fst ?r = Inr ()" by code_simp
  have p: "pending demo_pg ''emb'' = [\<lparr>cid = 1, cnote = 1, cindex = 0, ctext = ''x''\<rparr>]" by code_simp
  have "db_ok (snd ((), demo_pg))" by (simp add: demo_pg_ok)
  from SaveEmbeddings_fills [OF this surjective_pairing [of ?r]] r p show ?thesis
    unfolding Let_def by (simp add: demo_ref_def)
qed

lemma Search_nearest_witness:
  "\<exists>hits s'. storage_Search calm_db demo_pv demo_ref [7] 3 ((), demo_pg) = (Inr hits, s') \<and>
     hits \<noteq> [] \<and> distinct (map hitChunk hits) \<and> list_all (is_hit demo_pg) hits"
proof -
  let ?r = "storage_Search calm_db demo_pv demo_ref [7] 3 ((), demo_pg)"
  have "\<not> isl (fst ?r)" by code_simp
  then obtain hits where r: "?r = (Inr hits, snd ?r)" by (cases "fst ?r") (auto simp: prod_eq_iff)
  have "map hitChunk (projr (fst ?r)) = [2]" by code_simp
  then have "hits \<noteq> []" using r by (metis fst_conv list.map_disc_iff not_Cons_self2 sum.sel(2))
  moreover have t: "table_of (snd ((), demo_pg)) (refTable demo_ref) = Some \<lparr>tname = ''emb'', tdim = 1, trows = [(2, [5])]\<rparr>"
    by code_simp
  ultimately show ?thesis
    using Search_nearest [OF _ r t] r demo_pg_ok by (fastforce simp: demo_pv_def)
qed

end
