(* ===== verification/StoreLaws.thy ===== *)
theory StoreLaws
  imports Storage
begin

text \<open>
  What a client of \<open>Store\<close> relies on beyond one call: no operation invents a vector for a
  text (\<open>inherits\<close>), and the pair \<open>PendingChunks\<close>/\<open>SaveEmbeddings\<close> as an interface with its laws
  (locale \<open>vector_store\<close>), which the model of \<open>internal/storage\<close> satisfies.
\<close>

section \<open>Vectors are only ever inherited\<close>

text \<open>
  Every chunk row of the new database that has a vector is a row of the old one and had
  that vector, in every table.
\<close>

definition inherits :: "pg \<Rightarrow> pg \<Rightarrow> bool" where
  "inherits db db' \<longleftrightarrow>
     (\<forall>name. \<forall>c\<in>set (chunkRows db'). \<forall>v. vector_of db' name (cid c) = Some v \<longrightarrow>
        c \<in> set (chunkRows db) \<and> vector_of db name (cid c) = Some v)"

lemma inherits_refl [simp]: "inherits db db"
  by (simp add: inherits_def)

lemma inherits_trans: "inherits a b \<Longrightarrow> inherits b c \<Longrightarrow> inherits a c"
  unfolding inherits_def by blast

lemma vector_of_cong: "vecTables db = vecTables db' \<Longrightarrow> vector_of db = vector_of db'"
  by (simp add: vector_of_def table_of_def fun_eq_iff)

lemma inherits_cong:
  "chunkRows db' = chunkRows db \<Longrightarrow> vecTables db' = vecTables db \<Longrightarrow> inherits db db'"
  using vector_of_cong [of db' db] by (simp add: inherits_def)

lemma inherits_rollback [simp]: "inherits old (rollback old db)"
  by (rule inherits_cong) (simp_all add: rollback_def)

lemma map_of_filter_Some: "distinct (map fst rows) \<Longrightarrow> map_of (filter p rows) c = Some v \<Longrightarrow> map_of rows c = Some v"
  by (rule map_of_is_SomeI) (auto dest!: map_of_SomeD)

lemma table_of_map:
  "(\<And>t. tname (f t) = tname t) \<Longrightarrow> find (\<lambda>t. tname t = name) (map f ts) = map_option f (find (\<lambda>t. tname t = name) ts)"
  by (induction ts) auto

lemma inherits_drop_chunks: "db_ok db \<Longrightarrow> inherits db (drop_chunks p db)"
proof -
  assume ok: "db_ok db"
  let ?f = "\<lambda>t. t\<lparr>trows := filter (\<lambda>(c, v). c \<notin> cid ` set (filter p (chunkRows db))) (trows t)\<rparr>"
  have "vector_of db name c = Some v" if "vector_of (drop_chunks p db) name c = Some v" for name c v
  proof -
    have "table_of (drop_chunks p db) name = map_option ?f (table_of db name)"
      by (simp add: table_of_def drop_chunks_def Let_def table_of_map)
    with that obtain t where t: "table_of db name = Some t" "map_of (trows (?f t)) c = Some v"
      by (auto simp: vector_of_def split: option.splits)
    then have "distinct (map fst (trows t))"
      using ok find_Some [of _ "vecTables db" t] unfolding db_ok_def tables_ok_def rows_ok_def table_of_def by blast
    from map_of_filter_Some [OF this] t(2) have "map_of (trows t) c = Some v" by simp
    with t(1) show ?thesis by (simp add: vector_of_def)
  qed
  then show ?thesis by (auto simp: inherits_def drop_chunks_def Let_def)
qed

lemma inherits_upsert: "inherits db (snd (upsert_note viol info db))"
  by (rule inherits_cong) (auto simp: upsert_note_def Let_def split: option.splits)

lemma inherits_insert_chunk: "db_ok db \<Longrightarrow> inherits db (snd (insert_chunk viol n i t db))"
proof (cases "fst (insert_chunk viol n i t db)")
  case (Inl e)
  then show ?thesis by (intro inherits_cong) (auto simp: insert_chunk_def Let_def split: if_splits)
next
  assume ok: "db_ok db"
  case (Inr u)
  then have db': "snd (insert_chunk viol n i t db) =
     db\<lparr>chunkRows := chunkRows db @ [\<lparr>cid = chunkSeq db, cnote = n, cindex = int i, ctext = t\<rparr>],
        chunkSeq := chunkSeq db + 1\<rparr>"
    using insert_chunk_Inr [of viol n i t db] by (metis (full_types) prod.collapse unit.exhaust)
  have "vector_of db name (chunkSeq db) = None" for name
  proof (cases "table_of db name")
    case (Some tb)
    then have "tb \<in> set (vecTables db)" by (auto simp: table_of_def dest: find_Some)
    then have "fst ` set (trows tb) \<subseteq> cid ` set (chunkRows db)"
      using ok unfolding db_ok_def tables_ok_def rows_ok_def by fastforce
    moreover have "chunkSeq db \<notin> cid ` set (chunkRows db)" using ok by (auto simp: db_ok_def chunks_ok_def)
    ultimately show ?thesis using Some by (auto simp: vector_of_def map_of_eq_None_iff)
  qed (simp add: vector_of_def)
  moreover have "vector_of (snd (insert_chunk viol n i t db)) = vector_of db"
    by (rule vector_of_cong) (simp add: db')
  ultimately show ?thesis by (auto simp: inherits_def db')
qed

lemma inherits_delete_notes: "db_ok db \<Longrightarrow> inherits db (snd (delete_notes viol keep db))"
proof -
  assume ok: "db_ok db"
  let ?p = "\<lambda>c. cnote c \<in> nid ` set (filter (\<lambda>r. npath r \<notin> set keep) (noteRows db))"
  have "inherits (drop_chunks ?p db) (snd (delete_notes viol keep db))" if "list_all text_ok keep"
    using that by (intro inherits_cong) (simp_all add: delete_notes_def drop_chunks_def Let_def)
  then show ?thesis using inherits_trans [OF inherits_drop_chunks [OF ok]]
    by (cases "list_all text_ok keep") (auto simp: delete_notes_def)
qed

section \<open>What every statement keeps, the operations keep\<close>

text \<open>
  A relation between the database before and after, which each statement of the two
  operations that change notes respects, and the rollback of a transaction; the operations
  then respect it however they end.
\<close>

locale kept =
  fixes Q :: "pg \<Rightarrow> pg \<Rightarrow> bool"
  assumes same: "Q db db"
    and join: "Q a b \<Longrightarrow> Q b c \<Longrightarrow> Q a c"
    and rolled: "seq_le old db \<Longrightarrow> Q old (rollback old db)"
    and upserted: "db_ok db \<Longrightarrow> Q db (snd (upsert_note viol info db))"
    and dropped: "db_ok db \<Longrightarrow> Q db (drop_chunks q db)"
    and inserted: "db_ok db \<Longrightarrow> Q db (snd (insert_chunk viol n i t db))"
    and deleted: "db_ok db \<Longrightarrow> Q db (snd (delete_notes viol keep db))"
begin

lemma call:
  assumes "\<And>db. db_ok db \<Longrightarrow> Q db (snd (stmt db))" "exec env stmt s = (r, s')" "db_ok (snd s)"
  shows "Q (snd s) (snd s')"
proof -
  have "snd s' = snd s \<or> snd s' = snd (stmt (snd s))" using exec_state [of env stmt s] assms(2) by simp
  then show ?thesis using assms(1) [OF assms(3)] same by auto
qed

lemma inserts: "insert_chunks env n i ts s = (r, s') \<Longrightarrow> db_ok (snd s) \<Longrightarrow> Q (snd s) (snd s')"
proof (induction env n i ts s rule: insert_chunks.induct)
  case (2 env n i t ts s)
  obtain r1 s1 where one: "exec env (insert_chunk (violation env) n i t) s = (r1, s1)" by (rule prod.exhaust)
  have q1: "Q (snd s) (snd s1)" using call [OF inserted one 2(3)] by blast
  have ok1: "db_ok (snd s1)" using ok_stepD [OF exec_ok_step one 2(3)] insert_chunk_ok insert_chunk_seq by blast
  show ?case
  proof (cases r1)
    case (Inl x)
    then show ?thesis using 2(2) one q1 by simp
  next
    case (Inr u)
    then have "insert_chunks env n (i + 1) ts s1 = (r, s')" using 2(2) one by simp
    then show ?thesis using 2(1) [OF one [symmetric]] Inr ok1 join [OF q1] by blast
  qed
qed (simp add: same)

lemma body_keeps:
  assumes "save_body env info chunker s = (r, s')" "db_ok (snd s)"
  shows "Q (snd s) (snd s')"
proof -
  obtain r1 s1 where 1: "exec env (upsert_note (violation env) info) s = (r1, s1)" by (rule prod.exhaust)
  have ok1: "db_ok (snd s1)" using ok_stepD [OF upsert_step 1 assms(2)] by auto
  have q1: "Q (snd s) (snd s1)" using call [OF upserted 1 assms(2)] .
  show ?thesis
  proof (cases "\<exists>n cs. r1 = Inr (n, True) \<and> chunker = Inr cs")
    case False
    then have "snd s' = snd s1"
      using assms(1) 1 by (auto simp: save_body_def split: sum.splits prod.splits if_splits)
    then show ?thesis using q1 by simp
  next
    case True
    then obtain n cs where r1: "r1 = Inr (n, True)" "chunker = Inr cs" by auto
    obtain r2 s2 where 2: "exec env (delete_chunks_of n) s1 = (r2, s2)" by (rule prod.exhaust)
    have ok2: "db_ok (snd s2)" using ok_stepD [OF delete_chunks_step 2 ok1] by auto
    have "Q db (snd (delete_chunks_of n db))" if "db_ok db" for db
      using dropped [OF that] by (simp add: delete_chunks_of_def)
    then have q2: "Q (snd s1) (snd s2)" using call 2 ok1 by blast
    obtain r3 s3 where 3: "insert_chunks env n 0 cs s2 = (r3, s3)" by (rule prod.exhaust)
    have "snd s' = snd s2 \<or> snd s' = snd s3"
      using assms(1) 1 r1 2 3 by (auto simp: save_body_def split: sum.splits)
    then show ?thesis using q1 q2 inserts [OF 3 ok2] join by metis
  qed
qed

lemma Save:
  assumes "SaveNoteWithChunks env info chunker s = (r, s')" "db_ok (snd s)"
  shows "Q (snd s) (snd s')"
  using assms(1) unfolding SaveNoteWithChunks_def
proof (cases rule: in_tx_cases)
  case (rolled_back s1 e s1')
  then show ?thesis using rolled save_body_step [OF rolled_back(2)] assms(2) by simp
next
  case (committed s1 a s1')
  then show ?thesis using body_keeps [OF committed(2)] assms(2) by simp
qed (simp add: same)

lemma Delete:
  assumes "DeleteMissingNotes env keep s = (r, s')" "db_ok (snd s)"
  shows "Q (snd s) (snd s')"
proof (cases "keep = []")
  case False
  obtain r1 s1 where 1: "exec env (delete_notes (violation env) keep) s = (r1, s1)" by (rule prod.exhaust)
  then have "snd s' = snd s1" using assms(1) False snd_map_err by (metis DeleteMissingNotes_def snd_conv)
  then show ?thesis using call [OF deleted 1 assms(2)] by simp
qed (use assms in \<open>simp add: DeleteMissingNotes_def same\<close>)

end

interpretation inherited: kept inherits
  by unfold_locales
    (simp_all add: inherits_upsert inherits_insert_chunk inherits_drop_chunks inherits_delete_notes,
     erule (1) inherits_trans)

lemmas inherits_Save = inherited.Save
lemmas inherits_Delete = inherited.Delete

text \<open>Chunks are never rewritten, and a number is never given to a second chunk.\<close>

definition later :: "pg \<Rightarrow> pg \<Rightarrow> bool" where
  "later db db' \<longleftrightarrow> chunkSeq db \<le> chunkSeq db' \<and>
     (\<forall>c\<in>set (chunkRows db'). c \<in> set (chunkRows db) \<or> chunkSeq db \<le> cid c)"

interpretation aging: kept later
proof (unfold_locales, goal_cases)
  case (2 a b c)
  then show ?case unfolding later_def by (meson order.trans)
next
  case (4 db viol info)
  then show ?case by (auto simp: later_def upsert_note_def Let_def split: option.splits)
next
  case (6 db viol n i t)
  then show ?case by (auto simp: later_def insert_chunk_def Let_def)
qed (auto simp: later_def rollback_def seq_le_def drop_chunks_def delete_notes_def Let_def)

section \<open>A store of chunks that wait for their vectors\<close>

text \<open>
  The client's view of a store: a list of chunks to do, in order, and the vector each chunk
  has. \<open>filled\<close> is what storing a batch does to it, \<open>advanced\<close> what a run of batches does:
  the first \<open>m\<close> chunks got vectors \<open>R\<close> allows for their texts.
\<close>

definition filled ::
  "('d \<Rightarrow> (int \<times> gostring) list) \<Rightarrow> ('d \<Rightarrow> int \<Rightarrow> Vector option) \<Rightarrow> ChunkVector list \<Rightarrow> 'd \<Rightarrow> 'd \<Rightarrow> bool" where
  "filled todo stored batch d d' \<longleftrightarrow>
     todo d' = filter (\<lambda>c. fst c \<notin> cvChunk ` set batch) (todo d) \<and>
     stored d' = stored d ++ map_of (batch_rows batch)"

definition advanced ::
  "('d \<Rightarrow> (int \<times> gostring) list) \<Rightarrow> ('d \<Rightarrow> int \<Rightarrow> Vector option) \<Rightarrow> (gostring \<Rightarrow> Vector \<Rightarrow> bool) \<Rightarrow>
   nat \<Rightarrow> 'd \<Rightarrow> 'd \<Rightarrow> bool" where
  "advanced todo stored R m d d' \<longleftrightarrow>
     m \<le> length (todo d) \<and> todo d' = drop m (todo d) \<and>
     (\<exists>vs. list_all2 R (map snd (take m (todo d))) vs \<and>
           stored d' = stored d ++ map_of (zip (map fst (take m (todo d))) vs))"

lemma advanced_0: "todo d' = todo d \<Longrightarrow> stored d' = stored d \<Longrightarrow> advanced todo stored R 0 d d'"
  by (simp add: advanced_def)

lemma map_add_zip:
  assumes "length xs = length vs" "distinct (xs @ ys)"
  shows "map_of (zip xs vs) ++ map_of (zip ys ws) = map_of (zip (xs @ ys) (vs @ ws))"
proof -
  have "dom (map_of (zip xs vs)) \<subseteq> set xs" "dom (map_of (zip ys ws)) \<subseteq> set ys"
    by (auto simp: dom_map_of_conv_image_fst dest: set_zip_leftD)
  then have "dom (map_of (zip xs vs)) \<inter> dom (map_of (zip ys ws)) = {}" using assms(2) by auto
  then have "map_of (zip xs vs) ++ map_of (zip ys ws) = map_of (zip ys ws) ++ map_of (zip xs vs)"
    by (rule map_add_comm)
  then show ?thesis using assms(1) by simp
qed

lemma advanced_trans:
  assumes "distinct (map fst (todo d))" "advanced todo stored R m d d1" "advanced todo stored R n d1 d2"
  shows "advanced todo stored R (m + n) d d2"
proof -
  from assms(2) obtain vs where 1: "m \<le> length (todo d)" "todo d1 = drop m (todo d)"
    "list_all2 R (map snd (take m (todo d))) vs"
    "stored d1 = stored d ++ map_of (zip (map fst (take m (todo d))) vs)"
    by (auto simp: advanced_def)
  from assms(3) obtain ws where 2: "n \<le> length (todo d1)" "todo d2 = drop n (todo d1)"
    "list_all2 R (map snd (take n (todo d1))) ws"
    "stored d2 = stored d1 ++ map_of (zip (map fst (take n (todo d1))) ws)"
    by (auto simp: advanced_def)
  let ?xs = "map fst (take m (todo d))" and ?ys = "map fst (take n (drop m (todo d)))"
  have ids: "?xs @ ?ys = map fst (take (m + n) (todo d))"
    and texts: "map snd (take m (todo d)) @ map snd (take n (drop m (todo d))) = map snd (take (m + n) (todo d))"
    by (simp_all add: take_add)
  have "length ?xs = length vs" using list_all2_lengthD [OF 1(3)] by simp
  moreover have "distinct (?xs @ ?ys)"
    unfolding ids using assms(1) by (metis distinct_take take_map)
  ultimately have "map_of (zip ?xs vs) ++ map_of (zip ?ys ws) = map_of (zip (map fst (take (m + n) (todo d))) (vs @ ws))"
    using map_add_zip [of ?xs vs ?ys ws] unfolding ids by blast
  then have "stored d2 = stored d ++ map_of (zip (map fst (take (m + n) (todo d))) (vs @ ws))"
    using 1 2 by (simp flip: map_add_assoc)
  moreover have "list_all2 R (map snd (take (m + n) (todo d))) (vs @ ws)"
    using list_all2_appendI [OF 1(3) 2(3)] 1(2) texts by simp
  ultimately show ?thesis using 1 2 by (auto simp: advanced_def add.commute)
qed

text \<open>
  The interface: \<open>claim\<close> is \<open>PendingChunks\<close>, \<open>save\<close> is \<open>SaveEmbeddings\<close>, and \<open>frame\<close> is what
  neither of them touches.
\<close>

locale vector_store =
  fixes inv :: "'d \<Rightarrow> bool"
    and todo :: "'d \<Rightarrow> (int \<times> gostring) list"
    and stored :: "'d \<Rightarrow> int \<Rightarrow> Vector option"
    and frame :: "'d \<Rightarrow> 'f"
    and claim :: "int \<Rightarrow> 'w \<times> 'd \<Rightarrow> (int \<times> gostring) list result \<times> 'w \<times> 'd"
    and save :: "ChunkVector list \<Rightarrow> 'w \<times> 'd \<Rightarrow> unit result \<times> 'w \<times> 'd"
  assumes claim_keeps: "claim n s = (rc, s') \<Longrightarrow> snd s' = snd s"
    and claim_first: "claim n s = (Inr xs, s') \<Longrightarrow> xs = take (nat (max 1 n)) (todo (snd s))"
    and todo_distinct: "inv d \<Longrightarrow> distinct (map fst (todo d))"
    and save_inv: "inv (snd s) \<Longrightarrow> save batch s = (r, s') \<Longrightarrow> inv (snd s') \<and> frame (snd s') = frame (snd s)"
    and save_ok: "inv (snd s) \<Longrightarrow> save batch s = (Inr (), s') \<Longrightarrow> filled todo stored batch (snd s) (snd s')"
    and save_fails: "inv (snd s) \<Longrightarrow> save batch s = (Inl e, s') \<Longrightarrow>
      todo (snd s') = todo (snd s) \<and> stored (snd s') = stored (snd s) \<or> filled todo stored batch (snd s) (snd s')"
begin

text \<open>Storing the vectors of the first chunks takes them off the list.\<close>

lemma filled_first:
  assumes "inv d" "n \<le> length (todo d)" "list_all2 R (map snd (take n (todo d))) vs"
    "filled todo stored (map (\<lambda>(c, v). \<lparr>cvChunk = fst c, cvVector = v\<rparr>) (zip (take n (todo d)) vs)) d d'"
  shows "advanced todo stored R n d d'"
proof -
  let ?part = "take n (todo d)"
  let ?batch = "map (\<lambda>(c, v). \<lparr>cvChunk = fst c, cvVector = v\<rparr>) (zip ?part vs)"
  have len: "length ?part = length vs" using list_all2_lengthD [OF assms(3)] by simp
  have rows: "batch_rows (map (\<lambda>(c, v). \<lparr>cvChunk = fst c, cvVector = v\<rparr>) (zip xs ws)) = zip (map fst xs) ws"
    if "length xs = length ws" for xs :: "(int \<times> gostring) list" and ws
    using that by (induction xs ws rule: list_induct2) (auto simp: batch_rows_def)
  have "cvChunk ` set ?batch = set (map fst (batch_rows ?batch))" by (force simp: batch_rows_def)
  then have "cvChunk ` set ?batch = set (map fst (zip (map fst ?part) vs))" using rows [OF len] by simp
  also have "map fst (zip (map fst ?part) vs) = map fst ?part" using len by (intro map_fst_zip) simp
  finally have ids: "cvChunk ` set ?batch = fst ` set ?part" by simp
  have "filter (\<lambda>c. fst c \<notin> fst ` set ?part) (todo d) = drop n (todo d)"
  proof -
    have split: "filter (\<lambda>c. fst c \<notin> fst ` set xs) (xs @ ys) = ys" if "distinct (map fst (xs @ ys))" for xs ys :: "(int \<times> gostring) list"
      using that by (auto simp: filter_empty_conv filter_id_conv)
    have "distinct (map fst (?part @ drop n (todo d)))" using todo_distinct [OF assms(1)] by simp
    from split [OF this] show ?thesis by simp
  qed
  then show ?thesis using assms rows [OF len] ids by (auto simp: filled_def advanced_def)
qed

lemma advanced_join:
  "inv d \<Longrightarrow> advanced todo stored R m d d1 \<Longrightarrow> advanced todo stored R n d1 d2 \<Longrightarrow> advanced todo stored R (m + n) d d2"
  using todo_distinct by (rule advanced_trans)

end

section \<open>The database is such a store\<close>

definition waiting :: "SpaceRef \<Rightarrow> pg \<Rightarrow> (int \<times> gostring) list" where
  "waiting ref db = map (\<lambda>c. (cid c, ctext c)) (pending db (refTable ref))"

text \<open>The query of \<open>PendingChunks\<close>.\<close>

definition pending_query :: "'e dbenv \<Rightarrow> SpaceRef \<Rightarrow> int \<Rightarrow> pg \<Rightarrow> (int \<times> gostring) list result \<times> pg" where
  "pending_query env ref n = (\<lambda>db.
     (case table_of db (refTable ref) of
        None \<Rightarrow> Inl (violation env (refTable ref))
      | Some t \<Rightarrow> Inr (map (\<lambda>c. (cid c, ctext c)) (take (nat (if n < 1 then 1 else n)) (pending_rows db t))), db))"

lemma PendingChunks_query:
  "PendingChunks env ref n s =
     map_err (wrap (''pending chunks for '' @ SpaceRef_String ref)) (exec env (pending_query env ref n) s)"
  unfolding PendingChunks_def pending_query_def Let_def ..

lemma Pending_keeps:
  assumes "PendingChunks env ref n s = (r, s')"
  shows "snd s' = snd s"
proof -
  have "snd (snd (exec env (pending_query env ref n) s)) = snd s"
    using exec_state [of env "pending_query env ref n" s] by (auto simp: pending_query_def)
  then show ?thesis using assms unfolding PendingChunks_query by (metis snd_conv snd_map_err)
qed

lemma Pending_first:
  assumes "PendingChunks env ref n s = (Inr xs, s')"
  shows "xs = take (nat (max 1 n)) (waiting ref (snd s))"
proof -
  have "exec env (pending_query env ref n) s = (Inr xs, s')"
    using assms unfolding PendingChunks_query by simp
  from exec_Inr [OF this] show ?thesis
    by (auto simp: pending_query_def waiting_def pending_def take_map max_def split: option.splits if_splits)
qed

lemma waiting_distinct: "db_ok db \<Longrightarrow> distinct (map fst (waiting ref db))"
proof -
  assume "db_ok db"
  then have "distinct (map cid (chunkRows db))" by (simp add: db_ok_def chunks_ok_def)
  then have "distinct (map cid (pending_rows db t))" for t
    unfolding pending_rows_def distinct_map by (auto simp: inj_on_def distinct_filter)
  then show ?thesis by (simp add: waiting_def pending_def comp_def split: option.splits)
qed

lemma waiting_filter:
  "pending db' (refTable ref) = filter (\<lambda>c. cid c \<notin> cvChunk ` set batch) (pending db (refTable ref)) \<Longrightarrow>
   waiting ref db' = filter (\<lambda>c. fst c \<notin> cvChunk ` set batch) (waiting ref db)"
  by (simp add: waiting_def filter_map comp_def)

text \<open>What storing vectors does not touch: the notes, the chunks and the shape of the tables.\<close>

definition rest_of :: "pg \<Rightarrow> note_row list \<times> chunk_row list \<times> (gostring \<times> int) list" where
  "rest_of db = (noteRows db, chunkRows db, map (\<lambda>t. (tname t, tdim t)) (vecTables db))"

lemma SaveEmbeddings_rows:
  "SaveEmbeddings env ref batch s = (r, s') \<Longrightarrow> rest_of (snd s') = rest_of (snd s)"
proof -
  assume run: "SaveEmbeddings env ref batch s = (r, s')"
  have keep: "rest_of (snd (insert_vectors viol name rows db)) = rest_of db" for viol name rows db
    by (simp add: rest_of_def insert_vectors_def comp_def if_distrib [of tname] if_distrib [of tdim]
        cong: if_cong split: option.splits)
  have "snd (snd (exec env (insert_vectors viol name rows) s)) = snd s \<or>
      snd (snd (exec env (insert_vectors viol name rows) s)) = snd (insert_vectors viol name rows (snd s))" for viol name rows
    by (rule exec_state)
  then show ?thesis using run keep
    by (auto simp: SaveEmbeddings_def split: if_splits sum.splits prod.splits) (metis snd_conv snd_map_err)+
qed

interpretation pg_store: vector_store db_ok "waiting ref" "\<lambda>db. vector_of db (refTable ref)"
  rest_of "PendingChunks env ref" "SaveEmbeddings env ref" for env ref
proof (unfold_locales, goal_cases)
  case 1 then show ?case by (rule Pending_keeps)
next
  case 2 then show ?case by (rule Pending_first)
next
  case 3 then show ?case by (rule waiting_distinct)
next
  case (4 s batch r s')
  then show ?case using SaveEmbeddings_cases [OF 4] SaveEmbeddings_rows [OF 4(2)] by simp
next
  case (5 s batch s')
  then show ?case using SaveEmbeddings_cases [OF 5]
    by (simp add: filled_def Let_def) (rule waiting_filter, simp)
next
  case (6 s batch e s')
  then show ?case using SaveEmbeddings_cases [OF 6]
    by (auto simp: filled_def Let_def waiting_def filter_map comp_def)
qed

end
