(* ===== verification/Knowledge.thy ===== *)
theory Knowledge
  imports Vault Prompt StoreLaws Chunk
begin

text \<open>
  \<open>knowledge/knowledge.go\<close>: the pipeline over the other parts - \<open>Index\<close> with \<open>embedPending\<close>,
  \<open>Search\<close>, \<open>Ask\<close> and \<open>Stats\<close>. The state is the world \<open>'w\<close> (the clock, the providers and the
  network) with the database; everything outside the program is a field of \<open>host\<close>.
\<close>

section \<open>The knowledge base\<close>

record 'w host =
  hCtx :: "'w \<Rightarrow> goerr option"
  hDb :: "'w dbenv"
  hVec :: "'w pgvector"
  hRoot :: "'w \<Rightarrow> fsnode result"
  hPrint :: "rune \<Rightarrow> bool"
  hLower :: "rune \<Rightarrow> rune"
  hSha :: "gostring \<Rightarrow> gostring"

record 'w knowledge =
  VaultPath :: gostring
  kEmbed :: "'w embedder"
  kLlm :: "'w generator option"
  kSpace :: SpaceRef
  chunkN :: int

definition DefaultChunkSize :: int where
  "DefaultChunkSize = 800"

definition pendingBatch :: int where
  "pendingBatch = 128"

record Stats =
  stNotes :: nat
  stChunks :: nat
  stEmbedded :: nat
  stSpace :: Space

definition Knowledge_Stats :: "'w host \<Rightarrow> 'w knowledge \<Rightarrow> 'w \<times> pg \<Rightarrow> Stats result \<times> 'w \<times> pg" where
  "Knowledge_Stats h k s =
     (case storage_Stats (hDb h) (kSpace k) s of
        (Inl e, s) \<Rightarrow> (Inl e, s)
      | (Inr st, s) \<Rightarrow>
          (Inr \<lparr>stNotes = statNotes st, stChunks = statChunks st, stEmbedded = statEmbedded st,
                stSpace = refSpace (kSpace k)\<rparr>, s))"

section \<open>Filling in vectors\<close>

text \<open>The batch the code builds from a part of the pending chunks and its vectors.\<close>

definition chunk_vectors :: "(int \<times> gostring) list \<Rightarrow> Vector list \<Rightarrow> ChunkVector list" where
  "chunk_vectors part vectors = map (\<lambda>(c, v). \<lparr>cvChunk = fst c, cvVector = v\<rparr>) (zip part vectors)"

definition embed_text :: "nat \<Rightarrow> nat \<Rightarrow> gostring" where
  "embed_text n done_n = ''embed '' @ show_nat n @ '' chunks ('' @ show_nat done_n @ '' saved before this)''"

text \<open>The inner loop, over the parts of a claimed round; \<open>save\<close> is \<open>SaveEmbeddings\<close>.\<close>

function embed_parts ::
  "'w embedder \<Rightarrow> (ChunkVector list \<Rightarrow> 'w \<times> 'd \<Rightarrow> unit result \<times> 'w \<times> 'd) \<Rightarrow> (int \<times> gostring) list \<Rightarrow>
   nat \<Rightarrow> nat \<Rightarrow> 'w \<times> 'd \<Rightarrow> (nat \<times> goerr option) \<times> 'w \<times> 'd" where
  "embed_parts p save claimed start n s =
     (if start < length claimed then
        (let part = take (nat (batch_size p)) (drop start claimed) in
         case Batched p (map snd part) KindDocument (fst s) of
           (Inl e, w) \<Rightarrow> ((n, Some (wrap (embed_text (length part) n) e)), w, snd s)
         | (Inr vectors, w) \<Rightarrow>
             (case save (chunk_vectors part vectors) (w, snd s) of
                (Inl e, s) \<Rightarrow> ((n, Some e), s)
              | (Inr _, s) \<Rightarrow>
                  embed_parts p save claimed (start + nat (batch_size p)) (n + length part) s))
      else ((n, None), s))"
  by pat_completeness auto
termination
  by (relation "measure (\<lambda>(p, save, claimed, start, n, s). length claimed - start)")
    (auto simp: batch_size_def)

declare embed_parts.simps [simp del]

text \<open>The outer loop claims rounds until nothing is pending; \<open>None\<close> would be a loop without end.\<close>

partial_function (option) embed_rounds ::
  "'w embedder \<Rightarrow> (int \<Rightarrow> 'w \<times> 'd \<Rightarrow> (int \<times> gostring) list result \<times> 'w \<times> 'd) \<Rightarrow>
   (ChunkVector list \<Rightarrow> 'w \<times> 'd \<Rightarrow> unit result \<times> 'w \<times> 'd) \<Rightarrow> nat \<Rightarrow> 'w \<times> 'd \<Rightarrow>
   ((nat \<times> goerr option) \<times> 'w \<times> 'd) option" where
  "embed_rounds p claim save n s =
     (case claim pendingBatch s of
        (Inl e, s) \<Rightarrow> Some ((n, Some e), s)
      | (Inr claimed, s) \<Rightarrow>
          if claimed = [] then Some ((n, None), s)
          else
            (case embed_parts p save claimed 0 n s of
               ((n, Some e), s) \<Rightarrow> Some ((n, Some e), s)
             | ((n, None), s) \<Rightarrow> embed_rounds p claim save n s))"

declare embed_rounds.simps [code]

definition embedPending :: "'w host \<Rightarrow> 'w knowledge \<Rightarrow> 'w \<times> pg \<Rightarrow> ((nat \<times> goerr option) \<times> 'w \<times> pg) option" where
  "embedPending h k s =
     embed_rounds (kEmbed k) (PendingChunks (hDb h) (kSpace k)) (SaveEmbeddings (hDb h) (kSpace k)) 0 s"

section \<open>Index\<close>

record IndexResult =
  NotesWritten :: nat
  NotesUnchanged :: nat
  NotesDeleted :: int
  NotesSkipped :: nat
  NotesFailed :: nat
  ChunksEmbedded :: nat

definition no_result :: IndexResult where
  "no_result = \<lparr>NotesWritten = 0, NotesUnchanged = 0, NotesDeleted = 0, NotesSkipped = 0,
     NotesFailed = 0, ChunksEmbedded = 0\<rparr>"

text \<open>
  The loop over the scanned notes, with \<open>res\<close>, \<open>noteErrs\<close> and \<open>paths\<close>; the error is that of
  the context, which ends the pass.
\<close>

fun note_loop ::
  "'w host \<Rightarrow> 'w knowledge \<Rightarrow> Note list \<Rightarrow> IndexResult \<times> goerr list \<times> gostring list \<Rightarrow> 'w \<times> pg \<Rightarrow>
   (IndexResult \<times> goerr list \<times> gostring list) \<times> goerr option \<times> 'w \<times> pg" where
  "note_loop h k [] acc s = (acc, None, s)"
| "note_loop h k (note # notes) (res, noteErrs, paths) s =
     (case hCtx h (fst s) of
        Some e \<Rightarrow> ((res, noteErrs, paths), Some e, s)
      | None \<Rightarrow>
          (case SaveNoteWithChunks (hDb h) note (Cut (noteText note) (chunkN k)) s of
             (Inl e, s) \<Rightarrow>
               note_loop h k notes
                 (res\<lparr>NotesFailed := NotesFailed res + 1\<rparr>,
                  noteErrs @ [wrap (''note '' @ notePath note) e], paths @ [notePath note]) s
           | (Inr (_, written), s) \<Rightarrow>
               note_loop h k notes
                 (if written then res\<lparr>NotesWritten := NotesWritten res + 1\<rparr>
                  else res\<lparr>NotesUnchanged := NotesUnchanged res + 1\<rparr>,
                  noteErrs, paths @ [notePath note]) s))"

text \<open>The end of a pass: the vectors, then the joined errors of the notes.\<close>

definition index_finish ::
  "'w host \<Rightarrow> 'w knowledge \<Rightarrow> IndexResult \<Rightarrow> goerr list \<Rightarrow> 'w \<times> pg \<Rightarrow>
   ((IndexResult \<times> goerr option) \<times> 'w \<times> pg) option" where
  "index_finish h k res noteErrs s =
     (case embedPending h k s of
        None \<Rightarrow> None
      | Some ((n, err), s) \<Rightarrow>
          Some ((res\<lparr>ChunksEmbedded := n\<rparr>,
                 case err of Some e \<Rightarrow> Some e | None \<Rightarrow> join_errs noteErrs), s))"

definition index_notes ::
  "'w host \<Rightarrow> 'w knowledge \<Rightarrow> scan_result \<Rightarrow> 'w \<times> pg \<Rightarrow> ((IndexResult \<times> goerr option) \<times> 'w \<times> pg) option" where
  "index_notes h k scan s =
     (case note_loop h k (Notes scan) (no_result\<lparr>NotesSkipped := length (Skipped scan)\<rparr>, [], Skipped scan) s of
        ((res, noteErrs, paths), Some e, s) \<Rightarrow> Some ((res, Some e), s)
      | ((res, noteErrs, paths), None, s) \<Rightarrow>
          if noteErrs = [] then
            (case DeleteMissingNotes (hDb h) paths s of
               (Inl e, s) \<Rightarrow> Some ((res, Some e), s)
             | (Inr n, s) \<Rightarrow> index_finish h k (res\<lparr>NotesDeleted := n\<rparr>) noteErrs s)
          else index_finish h k res noteErrs s)"

definition Knowledge_Index ::
  "'w host \<Rightarrow> 'w knowledge \<Rightarrow> 'w \<times> pg \<Rightarrow> ((IndexResult \<times> goerr option) \<times> 'w \<times> pg) option" where
  "Knowledge_Index h k s =
     (if VaultPath k = [] then Some ((no_result, Some (Plain ''knowledge: Index needs Config.VaultPath'')), s)
      else
        (case Scan (hPrint h) (hLower h) (hSha h) (VaultPath k) (hRoot h (fst s)) of
           (scan, Some e) \<Rightarrow>
             if \<not> is_err ErrUnclosedFrontmatter e
             then Some ((no_result, Some (wrap (''scan vault '' @ VaultPath k) e)), s)
             else index_notes h k scan s
         | (scan, None) \<Rightarrow> index_notes h k scan s))"

section \<open>Search and Ask\<close>

record KHit =
  hSource :: gostring
  hTitle :: gostring
  hIndex :: int
  hText :: gostring
  hScore :: float64

definition khit :: "Hit \<Rightarrow> KHit" where
  "khit h = \<lparr>hSource = hitPath h, hTitle = hitName h, hIndex = hitIndex h, hText = hitText h, hScore = hitScore h\<rparr>"

definition Knowledge_Search ::
  "'w host \<Rightarrow> 'w knowledge \<Rightarrow> gostring \<Rightarrow> int \<Rightarrow> 'w \<times> pg \<Rightarrow> KHit list result \<times> 'w \<times> pg" where
  "Knowledge_Search h k query topK s =
     (case Embed (kEmbed k) [query] KindQuery (fst s) of
        (Inl e, w) \<Rightarrow> (Inl (wrap ''embed query'' e), w, snd s)
      | (Inr vectors, w) \<Rightarrow>
          if length vectors \<noteq> 1
          then (Inl (Plain (''embed query: got '' @ show_nat (length vectors) @ '' vectors for 1 input'')), w, snd s)
          else
            (case storage_Search (hDb h) (hVec h) (kSpace k) (vectors ! 0) topK (w, snd s) of
               (Inl e, s) \<Rightarrow> (Inl e, s)
             | (Inr found, s) \<Rightarrow> (Inr (map khit found), s)))"

record Answer =
  aText :: gostring
  aModel :: gostring
  aHits :: "KHit list"
  aSources :: "gostring list"
  aTopScore :: float64

definition passage :: "KHit \<Rightarrow> Passage" where
  "passage h = \<lparr>Source = hSource h, Title = hTitle h, Index = hIndex h, PText = hText h\<rparr>"

definition Knowledge_Ask ::
  "'w host \<Rightarrow> 'w knowledge \<Rightarrow> gostring \<Rightarrow> int \<Rightarrow> 'w \<times> pg \<Rightarrow> Answer result \<times> 'w \<times> pg" where
  "Knowledge_Ask h k question topK s =
     (case kLlm k of
        None \<Rightarrow> (Inl (Sentinel ErrNoGenerator), s)
      | Some llm \<Rightarrow>
          (case Knowledge_Search h k question topK s of
             (Inl e, s) \<Rightarrow> (Inl e, s)
           | (Inr hits, s) \<Rightarrow>
               (let passages = map passage hits in
                case Generate llm SystemPrompt (BuildUserPrompt question passages DefaultMaxContextRunes) (fst s) of
                  (Inl e, w) \<Rightarrow> (Inl e, w, snd s)
                | (Inr t, w) \<Rightarrow>
                    (Inr \<lparr>aText = t, aModel = Model llm, aHits = hits, aSources = Sources passages,
                          aTopScore = (if hits = [] then 0 else hScore (hits ! 0))\<rparr>, w, snd s))))"

section \<open>The loop of vectors, against any store\<close>

text \<open>What \<open>Batched\<close> always guarantees, and what a provider's contract adds.\<close>

lemma batch_loop_length:
  "batch_loop p texts kind start out w = (Inr vs, w') \<Longrightarrow> length out = start \<Longrightarrow> start \<le> length texts \<Longrightarrow>
     length vs = length texts"
proof (induction p texts kind start out w rule: batch_loop.induct)
  case (1 p texts kind start out w)
  show ?case
  proof (cases "start < length texts")
    case False
    then show ?thesis using 1(2,3,4) by (simp add: batch_loop.simps)
  next
    case True
    define stop where "stop = min (start + nat (batch_size p)) (length texts)"
    from True 1(2) obtain part w1 where emb:
      "Embed p (take (stop - start) (drop start texts)) kind w = (Inr part, w1)"
      and len: "length part = stop - start"
      and rest: "batch_loop p texts kind (start + nat (batch_size p)) (out @ part) w1 = (Inr vs, w')"
      by (subst (asm) batch_loop.simps) (auto simp: stop_def Let_def split: prod.splits sum.splits if_splits)
    show ?thesis
    proof (cases "start + nat (batch_size p) \<le> length texts")
      case True
      then show ?thesis using 1(1) [OF _ stop_def emb [symmetric, THEN trans] refl] emb len rest 1(3) \<open>start < length texts\<close>
        by (auto simp: stop_def min_def split: if_splits)
    next
      case False
      then have "vs = out @ part" using rest by (subst (asm) batch_loop.simps) auto
      then show ?thesis using False len 1(3) True by (auto simp: stop_def)
    qed
  qed
qed

lemma Batched_length: "Batched p texts kind w = (Inr vs, w') \<Longrightarrow> list_all2 (\<lambda>_ _. True) texts vs"
  using batch_loop_length [of p texts kind 0 "[]" w vs w']
  by (auto simp: Batched_def list_all2_conv_all_nth split: if_splits)

lemma embed_parts_mono: "embed_parts p save claimed start n s = ((n', err), s') \<Longrightarrow> n \<le> n'"
proof (induction "length claimed - start" arbitrary: start n s rule: less_induct)
  case less
  show ?case
  proof (cases "start < length claimed")
    case False
    then show ?thesis using less.prems by (simp add: embed_parts.simps)
  next
    case True
    moreover have "0 < nat (batch_size p)" by (simp add: batch_size_def)
    ultimately have m: "length claimed - (start + nat (batch_size p)) < length claimed - start" by simp
    from less.prems show ?thesis
      unfolding embed_parts.simps [of p save claimed start n s] Let_def if_P [OF True]
      by (auto split: prod.splits sum.splits dest!: less.hyps [OF m])
  qed
qed

text \<open>
  A provider whose batches come back as vectors \<open>R\<close> allows, filling any \<open>vector_store\<close>.
\<close>

locale indexer = vector_store inv todo stored frame claim save
  for inv :: "'d \<Rightarrow> bool" and todo :: "'d \<Rightarrow> (int \<times> gostring) list" and stored :: "'d \<Rightarrow> int \<Rightarrow> Vector option"
    and frame :: "'d \<Rightarrow> 'f" and claim :: "int \<Rightarrow> 'w \<times> 'd \<Rightarrow> (int \<times> gostring) list result \<times> 'w \<times> 'd"
    and save :: "ChunkVector list \<Rightarrow> 'w \<times> 'd \<Rightarrow> unit result \<times> 'w \<times> 'd" +
  fixes p :: "'w embedder" and R :: "gostring \<Rightarrow> Vector \<Rightarrow> bool"
  assumes batched_ok: "Batched p texts KindDocument w = (Inr vs, w') \<Longrightarrow> list_all2 R texts vs"
begin

text \<open>What one part does, the step of the inner loop.\<close>

lemma part_saved:
  assumes ok: "inv (snd s)" and first: "part = take n (todo (snd s))" "n \<le> length (todo (snd s))"
    and emb: "Batched p (map snd part) KindDocument (fst s) = (Inr vectors, w)"
    and run: "save (chunk_vectors part vectors) (w, snd s) = (r, s')"
  shows "inv (snd s') \<and> frame (snd s') = frame (snd s) \<and>
    (\<exists>m. advanced todo stored R m (snd s) (snd s') \<and> (r = Inr () \<longrightarrow> m = n))"
proof -
  have R: "list_all2 R (map snd (take n (todo (snd s)))) vectors" using batched_ok [OF emb] first by simp
  have inv: "inv (snd s') \<and> frame (snd s') = frame (snd s)" using save_inv [OF _ run] ok by simp
  have full: "advanced todo stored R n (snd s) (snd s')"
    if "filled todo stored (chunk_vectors part vectors) (snd s) (snd s')"
    using filled_first [OF ok first(2) R] that by (simp add: chunk_vectors_def first)
  show ?thesis
  proof (cases r)
    case (Inr u)
    then show ?thesis using inv full save_ok [of "(w, snd s)" "chunk_vectors part vectors" s'] run ok by auto
  next
    case (Inl e)
    have "todo (snd s') = todo (snd s) \<and> stored (snd s') = stored (snd s) \<or>
        filled todo stored (chunk_vectors part vectors) (snd s) (snd s')"
      using save_fails [OF _ run [unfolded Inl]] ok by simp
    then show ?thesis using inv full advanced_0 [of todo "snd s'" "snd s" stored R] Inl by auto
  qed
qed

lemma parts_advance:
  assumes "inv (snd s)" "drop start claimed = take (length claimed - start) (todo (snd s))"
    "embed_parts p save claimed start n s = ((n', err), s')"
  shows "inv (snd s') \<and> frame (snd s') = frame (snd s) \<and> n \<le> n' \<and>
    (\<exists>m. advanced todo stored R m (snd s) (snd s') \<and> n' \<le> n + m \<and>
         (err = None \<longrightarrow> m = length claimed - start \<and> n' = n + m))"
  using assms
proof (induction "length claimed - start" arbitrary: start n s rule: less_induct)
  case less
  let ?b = "nat (batch_size p)"
  have b: "0 < ?b" by (simp add: batch_size_def)
  show ?case
  proof (cases "start < length claimed")
    case False
    then have "s' = s" "err = None" "n' = n" using less.prems(3) by (simp_all add: embed_parts.simps)
    then show ?thesis using less.prems(1) advanced_0 [of todo "snd s" "snd s" stored R] False by auto
  next
    case True
    define part where "part = take ?b (drop start claimed)"
    define k where "k = min ?b (length claimed - start)"
    have len: "length claimed - start \<le> length (todo (snd s))"
      using arg_cong [OF less.prems(2), of length] by simp
    have part: "part = take k (todo (snd s))" "length part = k" "k \<le> length (todo (snd s))" "0 < k"
      using less.prems(2) len True b by (auto simp: part_def k_def min_def)
    note step = less.prems(3) [unfolded embed_parts.simps [of p save claimed start] Let_def part_def [symmetric]]
    obtain r1 w where emb: "Batched p (map snd part) KindDocument (fst s) = (r1, w)" by (rule prod.exhaust)
    show ?thesis
    proof (cases r1)
      case (Inl e)
      then show ?thesis using step emb True less.prems(1) advanced_0 [of todo "snd s" "snd s" stored R] by auto
    next
      case (Inr vectors)
      obtain r2 s1 where sv: "save (chunk_vectors part vectors) (w, snd s) = (r2, s1)" by (rule prod.exhaust)
      note saved = part_saved [OF less.prems(1) part(1,3) emb [unfolded Inr] sv]
      show ?thesis
      proof (cases r2)
        case (Inl e)
        then have "s' = s1" "n' = n" "err = Some e" using step emb sv True \<open>r1 = Inr vectors\<close> by auto
        then show ?thesis using saved by auto
      next
        case r2: (Inr u)
        then have adv: "advanced todo stored R k (snd s) (snd s1)" and inv1: "inv (snd s1)"
          and fr: "frame (snd s1) = frame (snd s)" using saved by auto
        from r2 have rest: "embed_parts p save claimed (start + ?b) (n + k) s1 = ((n', err), s')"
          using step emb sv True \<open>r1 = Inr vectors\<close> part(2) by simp
        have "todo (snd s1) = drop k (todo (snd s))" using adv by (simp add: advanced_def)
        moreover have "drop (start + ?b) claimed = drop ?b (take (length claimed - start) (todo (snd s)))"
          using less.prems(2) by (metis add.commute drop_drop)
        ultimately have first: "drop (start + ?b) claimed =
            take (length claimed - (start + ?b)) (todo (snd s1))"
          by (auto simp: drop_take k_def min_def)
        have "length claimed - (start + ?b) < length claimed - start" using True b by simp
        from less.hyps [OF this inv1 first rest] obtain m where m: "inv (snd s')" "frame (snd s') = frame (snd s1)"
          "n + k \<le> n'" "advanced todo stored R m (snd s1) (snd s')" "n' \<le> n + k + m"
          "err = None \<longrightarrow> m = length claimed - (start + ?b) \<and> n' = n + k + m" by auto
        have "advanced todo stored R (k + m) (snd s) (snd s')"
          using advanced_join [OF less.prems(1) adv m(4)] .
        moreover have "err = None \<longrightarrow> k + m = length claimed - start" using m(6) True by (auto simp: k_def min_def)
        ultimately show ?thesis using m fr by (intro conjI exI [of _ "k + m"]) auto
      qed
    qed
  qed
qed

text \<open>The outer loop ends, and what it leaves is the list without the chunks it did.\<close>

lemma rounds_advance:
  assumes "inv (snd s)"
  obtains n' err s' m where "embed_rounds p claim save n s = Some ((n', err), s')"
    "inv (snd s')" "frame (snd s') = frame (snd s)" "advanced todo stored R m (snd s) (snd s')"
    "n \<le> n'" "n' \<le> n + m" "err = None \<longrightarrow> n' = n + m \<and> todo (snd s') = []"
  using assms
proof (induction "length (todo (snd s))" arbitrary: n s thesis rule: less_induct)
  case less
  obtain r s1 where c: "claim pendingBatch s = (r, s1)" by (rule prod.exhaust)
  have s1: "snd s1 = snd s" using claim_keeps [OF c] .
  show ?case
  proof (cases r)
    case (Inl e)
    show ?thesis
      by (rule less.prems(1) [of n "Some e" s1 0])
        (use c s1 Inl less.prems(2) advanced_0 [of todo "snd s1" "snd s" stored R] in
          \<open>simp_all add: embed_rounds.simps [of p claim save n s]\<close>)
  next
    case (Inr claimed)
    have first: "claimed = take 128 (todo (snd s))"
      using claim_first [OF c [unfolded Inr]] by (simp add: pendingBatch_def)
    show ?thesis
    proof (cases "claimed = []")
      case True
      show ?thesis
        by (rule less.prems(1) [of n None s1 0])
          (use c s1 Inr True first less.prems(2) advanced_0 [of todo "snd s1" "snd s" stored R] in
            \<open>simp_all add: embed_rounds.simps [of p claim save n s]\<close>)
    next
      case False
      obtain n1 err1 s2 where run: "embed_parts p save claimed 0 n s1 = ((n1, err1), s2)"
        by (metis prod.exhaust)
      have "drop 0 claimed = take (length claimed - 0) (todo (snd s1))" using first s1 by (simp add: min_def)
      from parts_advance [OF _ this run] less.prems(2) s1 obtain m where m: "inv (snd s2)"
        "frame (snd s2) = frame (snd s)" "n \<le> n1" "advanced todo stored R m (snd s) (snd s2)" "n1 \<le> n + m"
        "err1 = None \<longrightarrow> m = length claimed \<and> n1 = n + m" by auto
      show ?thesis
      proof (cases err1)
        case (Some e)
        show ?thesis
          by (rule less.prems(1) [of n1 "Some e" s2 m])
            (use c Inr False run Some m in \<open>simp_all add: embed_rounds.simps [of p claim save n s]\<close>)
      next
        case None
        then have step: "embed_rounds p claim save n s = embed_rounds p claim save n1 s2"
          using c Inr False run by (simp add: embed_rounds.simps [of p claim save n s])
        have "todo (snd s2) = drop m (todo (snd s))" "0 < m" "m \<le> length (todo (snd s))"
          using m None False by (auto simp: advanced_def)
        then have "length (todo (snd s2)) < length (todo (snd s))" by simp
        from less.hyps [OF this _ m(1), of n1] obtain n' err s' m' where r:
          "embed_rounds p claim save n1 s2 = Some ((n', err), s')" "inv (snd s')" "frame (snd s') = frame (snd s2)"
          "advanced todo stored R m' (snd s2) (snd s')" "n1 \<le> n'" "n' \<le> n1 + m'"
          "err = None \<longrightarrow> n' = n1 + m' \<and> todo (snd s') = []" by blast
        show ?thesis
          by (rule less.prems(1) [of n' err s' "m + m'"])
            (use r m None step advanced_join [OF less.prems(2) m(4) r(4)] in auto)
      qed
    qed
  qed
qed

text \<open>A first batch that is answered and stored counts, whatever comes after it.\<close>

lemma rounds_first:
  assumes ok: "inv (snd s)" and c: "claim pendingBatch s = (Inr claimed, s1)" "claimed \<noteq> []"
    and part: "part = take (nat (batch_size p)) claimed"
    and emb: "Batched p (map snd part) KindDocument (fst s1) = (Inr vectors, w)"
    and sv: "save (chunk_vectors part vectors) (w, snd s1) = (Inr (), s2)"
    and run: "embed_rounds p claim save n s = Some ((n', err), s')"
  shows "n + length part \<le> n'"
proof -
  obtain n1 err1 s3 where parts: "embed_parts p save claimed 0 n s1 = ((n1, err1), s3)"
    by (metis prod.exhaust)
  then have "embed_parts p save claimed (nat (batch_size p)) (n + length part) s2 = ((n1, err1), s3)"
    using c(2) emb sv part by (simp add: embed_parts.simps [of p save claimed 0])
  then have n1: "n + length part \<le> n1" using embed_parts_mono by fastforce
  have s1: "snd s1 = snd s" using claim_keeps [OF c(1)] .
  have "claimed = take 128 (todo (snd s))" using claim_first [OF c(1)] by (simp add: pendingBatch_def)
  then have "inv (snd s3)" using parts_advance [OF _ _ parts] ok s1 by (simp add: min_def)
  show ?thesis
  proof (cases err1)
    case (Some e)
    then have "n' = n1" using run c parts by (simp add: embed_rounds.simps [of p claim save n s])
    then show ?thesis using n1 by simp
  next
    case None
    then have "embed_rounds p claim save n1 s3 = Some ((n', err), s')"
      using run c parts by (simp add: embed_rounds.simps [of p claim save n s])
    moreover obtain n'' err'' s'' where "embed_rounds p claim save n1 s3 = Some ((n'', err''), s'')" "n1 \<le> n''"
      using \<open>inv (snd s3)\<close> by (rule rounds_advance)
    ultimately show ?thesis using n1 by simp
  qed
qed

end

text \<open>The loop on the database: with no contract of the provider, and with one.\<close>

interpretation pg_indexer: indexer db_ok "waiting ref" "\<lambda>db. vector_of db (refTable ref)" rest_of
  "PendingChunks env ref" "SaveEmbeddings env ref" p "\<lambda>_ _. True" for env ref p
  by unfold_locales (rule Batched_length)

lemma indexer_embedding:
  "embedding (Embed p) R \<Longrightarrow> indexer db_ok (waiting ref) (\<lambda>db. vector_of db (refTable ref)) rest_of
     (PendingChunks env ref) (SaveEmbeddings env ref) p (R KindDocument)"
  by (intro indexer.intro pg_store.vector_store_axioms indexer_axioms.intro) (rule embedding.batched_ok [OF _ refl])

abbreviation progressed :: "SpaceRef \<Rightarrow> (gostring \<Rightarrow> Vector \<Rightarrow> bool) \<Rightarrow> nat \<Rightarrow> pg \<Rightarrow> pg \<Rightarrow> bool" where
  "progressed ref \<equiv> advanced (waiting ref) (\<lambda>db. vector_of db (refTable ref))"

lemma rest_of_index: "rest_of db' = rest_of db \<Longrightarrow> index_of db' = index_of db"
  by (rule index_of_cong) (simp_all add: rest_of_def)

lemma embedPending_cases:
  assumes "db_ok (snd s)" "embedding (Embed (kEmbed k)) R \<or> (\<forall>t v. R KindDocument t v)"
  obtains n err s' m where "embedPending h k s = Some ((n, err), s')" "db_ok (snd s')"
    "rest_of (snd s') = rest_of (snd s)" "progressed (kSpace k) (R KindDocument) m (snd s) (snd s')" "n \<le> m"
    "err = None \<longrightarrow> n = m \<and> waiting (kSpace k) (snd s') = []"
proof -
  have "indexer db_ok (waiting (kSpace k)) (\<lambda>db. vector_of db (refTable (kSpace k))) rest_of
     (PendingChunks (hDb h) (kSpace k)) (SaveEmbeddings (hDb h) (kSpace k)) (kEmbed k) (R KindDocument)"
    using assms(2)
  proof
    assume "\<forall>t v. R KindDocument t v"
    then have "R KindDocument = (\<lambda>_ _. True)" by (simp add: fun_eq_iff)
    then show ?thesis by (simp add: pg_indexer.indexer_axioms)
  qed (rule indexer_embedding)
  from indexer.rounds_advance [OF this assms(1), of 0] that show thesis
    by (metis add_0 embedPending_def)
qed

section \<open>What a pass over the notes does to the index\<close>

text \<open>The effect of one note, and of all, on the index; \<open>size\<close> is the chunk size.\<close>

definition unchanged :: "(gostring \<Rightarrow> doc option) \<Rightarrow> Note \<Rightarrow> bool" where
  "unchanged idx note \<longleftrightarrow> map_option docHash (idx (notePath note)) = Some (noteHash note)"

definition indexed_note :: "int \<Rightarrow> (gostring \<Rightarrow> doc option) \<Rightarrow> Note \<Rightarrow> doc option" where
  "indexed_note n idx note =
     (if unchanged idx note then idx (notePath note)
      else case Cut (noteText note) n of Inr cs \<Rightarrow> Some (new_doc note cs) | Inl _ \<Rightarrow> None)"

definition index_note :: "int \<Rightarrow> (gostring \<Rightarrow> doc option) \<Rightarrow> Note \<Rightarrow> gostring \<Rightarrow> doc option" where
  "index_note n idx note = idx(notePath note := indexed_note n idx note)"

lemma indexed_note_cong:
  assumes "idx' (notePath x) = idx (notePath x)"
  shows "unchanged idx' x = unchanged idx x \<and> indexed_note n idx' x = indexed_note n idx x"
proof -
  have "unchanged idx' x = unchanged idx x" by (simp only: unchanged_def assms)
  then show ?thesis by (simp only: indexed_note_def assms)
qed

lemma index_note_other: "notePath x \<noteq> notePath y \<Longrightarrow> index_note n idx y (notePath x) = idx (notePath x)"
  by (simp add: index_note_def)

lemma Save_index:
  assumes "db_ok (snd s)" "SaveNoteWithChunks env note (Cut (noteText note) n) s = (r, s')"
  shows "db_ok (snd s') \<and> inherits (snd s) (snd s') \<and> dom (index_of (snd s)) \<subseteq> dom (index_of (snd s')) \<and>
    (\<forall>i written. r = Inr (i, written) \<longrightarrow>
       index_of (snd s') = index_note n (index_of (snd s)) note \<and> indexed_note n (index_of (snd s)) note \<noteq> None \<and>
       (written \<longleftrightarrow> \<not> unchanged (index_of (snd s)) note))"
proof -
  note c = Save_cases [OF assms] and i = inherits_Save [OF assms(2,1)]
  show ?thesis
  proof (cases r)
    case (Inl e)
    then show ?thesis using c i by auto
  next
    case (Inr iw)
    obtain j written where iw: "iw = (j, written)" by fastforce
    have "dom (index_of (snd s)) \<subseteq> dom (index_of (snd s'))" using c Inr iw by (cases written) auto
    moreover have "index_of (snd s') = index_note n (index_of (snd s)) note \<and>
        indexed_note n (index_of (snd s)) note \<noteq> None \<and> (written \<longleftrightarrow> \<not> unchanged (index_of (snd s)) note)"
      using c Inr iw by (cases written) (auto simp: index_note_def indexed_note_def unchanged_def fun_eq_iff)
    ultimately show ?thesis using c i Inr iw by auto
  qed
qed

text \<open>The loop over the notes, however it ends.\<close>

lemma note_loop_keeps:
  assumes "db_ok (snd s)" "note_loop h k ns (res, errs, paths) s = ((res', errs', paths'), stop, s')"
  shows "db_ok (snd s') \<and> inherits (snd s) (snd s') \<and> dom (index_of (snd s)) \<subseteq> dom (index_of (snd s')) \<and>
    NotesDeleted res' = NotesDeleted res \<and> NotesSkipped res' = NotesSkipped res \<and>
    ChunksEmbedded res' = ChunksEmbedded res \<and>
    length errs \<le> length errs' \<and> NotesFailed res' + length errs = NotesFailed res + length errs' \<and>
    (stop = None \<longrightarrow> paths' = paths @ map notePath ns)"
  using assms
proof (induction ns arbitrary: res errs paths s)
  case (Cons nt ns)
  show ?case
  proof (cases "hCtx h (fst s)")
    case (Some e)
    then have "res' = res" "errs' = errs" "stop = Some e" "s' = s" using Cons.prems(2) by simp_all
    then show ?thesis using Cons.prems(1) by simp
  next
    case None
    obtain r s1 where sv: "SaveNoteWithChunks (hDb h) nt (Cut (noteText nt) (chunkN k)) s = (r, s1)"
      by (rule prod.exhaust)
    note one = Save_index [OF Cons.prems(1) sv]
    then have ok1: "db_ok (snd s1)" by simp
    obtain res1 errs1 where next1: "note_loop h k ns (res1, errs1, paths @ [notePath nt]) s1 =
        ((res', errs', paths'), stop, s')"
      "NotesDeleted res1 = NotesDeleted res" "NotesSkipped res1 = NotesSkipped res"
      "ChunksEmbedded res1 = ChunksEmbedded res" "length errs \<le> length errs1"
      "NotesFailed res1 + length errs = NotesFailed res + length errs1"
    proof (cases r)
      case (Inl e)
      show thesis
        by (rule that [of "res\<lparr>NotesFailed := NotesFailed res + 1\<rparr>" "errs @ [wrap (''note '' @ notePath nt) e]"])
          (use Cons.prems(2) None sv Inl in simp_all)
    next
      case (Inr iw)
      show thesis
        by (rule that [of "if snd iw then res\<lparr>NotesWritten := NotesWritten res + 1\<rparr>
              else res\<lparr>NotesUnchanged := NotesUnchanged res + 1\<rparr>" errs])
          (use Cons.prems(2) None sv Inr in \<open>auto simp: case_prod_beta split: if_splits\<close>)
    qed
    note IH = Cons.IH [OF ok1 next1(1)]
    have "inherits (snd s) (snd s')" using IH one inherits_trans by blast
    moreover have "dom (index_of (snd s)) \<subseteq> dom (index_of (snd s'))" using IH one by blast
    ultimately show ?thesis using IH next1(2-) by simp
  qed
qed simp

text \<open>Without a failure the loop computes exactly the fold of the notes.\<close>

lemma note_loop_fold:
  assumes "db_ok (snd s)" "note_loop h k ns (res, errs, paths) s = ((res', errs', paths'), None, s')"
    "length errs' = length errs" "distinct (map notePath ns)"
  shows "index_of (snd s') = foldl (index_note (chunkN k)) (index_of (snd s)) ns \<and>
    errs' = errs \<and> NotesFailed res' = NotesFailed res \<and>
    (\<forall>n\<in>set ns. indexed_note (chunkN k) (index_of (snd s)) n \<noteq> None) \<and>
    NotesWritten res' = NotesWritten res + length (filter (\<lambda>n. \<not> unchanged (index_of (snd s)) n) ns) \<and>
    NotesUnchanged res' = NotesUnchanged res + length (filter (unchanged (index_of (snd s))) ns)"
  using assms
proof (induction ns arbitrary: res s paths)
  case (Cons nt ns)
  obtain r s1 where sv: "SaveNoteWithChunks (hDb h) nt (Cut (noteText nt) (chunkN k)) s = (r, s1)"
    by (rule prod.exhaust)
  note one = Save_index [OF Cons.prems(1) sv]
  have ctx: "hCtx h (fst s) = None" using Cons.prems(2) by (cases "hCtx h (fst s)") auto
  show ?case
  proof (cases r)
    case (Inl e)
    then have "note_loop h k ns (res\<lparr>NotesFailed := NotesFailed res + 1\<rparr>,
        errs @ [wrap (''note '' @ notePath nt) e], paths @ [notePath nt]) s1 = ((res', errs', paths'), None, s')"
      using Cons.prems(2) ctx sv by simp
    from note_loop_keeps [OF _ this] one have "length errs + 1 \<le> length errs'" by simp
    then show ?thesis using Cons.prems(3) by simp
  next
    case (Inr iw)
    define res1 where "res1 = (if snd iw then res\<lparr>NotesWritten := NotesWritten res + 1\<rparr>
        else res\<lparr>NotesUnchanged := NotesUnchanged res + 1\<rparr>)"
    have rest: "note_loop h k ns (res1, errs, paths @ [notePath nt]) s1 = ((res', errs', paths'), None, s')"
      using Cons.prems(2) ctx sv Inr by (simp add: res1_def case_prod_beta)
    have written: "snd iw \<longleftrightarrow> \<not> unchanged (index_of (snd s)) nt"
      and idx: "index_of (snd s1) = index_note (chunkN k) (index_of (snd s)) nt" and ok1: "db_ok (snd s1)"
      and some: "indexed_note (chunkN k) (index_of (snd s)) nt \<noteq> None"
      using one Inr by (auto simp: prod_eq_iff)
    have other: "unchanged (index_of (snd s1)) n = unchanged (index_of (snd s)) n \<and>
        indexed_note (chunkN k) (index_of (snd s1)) n = indexed_note (chunkN k) (index_of (snd s)) n"
      if "n \<in> set ns" for n
    proof -
      have "notePath n \<noteq> notePath nt" using that Cons.prems(4) by (auto simp: image_iff)
      then have "index_of (snd s1) (notePath n) = index_of (snd s) (notePath n)" by (simp add: idx index_note_def)
      then show ?thesis by (rule indexed_note_cong)
    qed
    then have same: "filter (unchanged (index_of (snd s1))) ns = filter (unchanged (index_of (snd s))) ns"
      "filter (\<lambda>n. \<not> unchanged (index_of (snd s1)) n) ns = filter (\<lambda>n. \<not> unchanged (index_of (snd s)) n) ns"
      by (auto intro: filter_cong)
    have "distinct (map notePath ns)" using Cons.prems(4) by simp
    note IH = Cons.IH [OF ok1 rest Cons.prems(3) this, unfolded same]
    have some': "\<forall>n\<in>set (nt # ns). indexed_note (chunkN k) (index_of (snd s)) n \<noteq> None"
      using IH some other by auto
    show ?thesis
    proof (cases "snd iw")
      case True
      then show ?thesis using IH written some' by (simp add: idx res1_def)
    next
      case False
      then show ?thesis using IH written some' by (simp add: idx res1_def)
    qed
  qed
qed simp

lemma foldl_index_note:
  assumes "distinct (map notePath ns)"
  shows "foldl (index_note n) idx ns p =
    (case find (\<lambda>x. notePath x = p) ns of None \<Rightarrow> idx p | Some nt \<Rightarrow> indexed_note n idx nt)"
  using assms
proof (induction ns arbitrary: idx)
  case (Cons nt ns)
  have other: "indexed_note n (index_note n idx nt) x = indexed_note n idx x" if "x \<in> set ns" for x
  proof -
    have "notePath x \<noteq> notePath nt" using that Cons.prems by (auto simp: image_iff)
    from indexed_note_cong [of "index_note n idx nt" x idx, OF index_note_other [OF this]] show ?thesis by simp
  qed
  show ?case
  proof (cases "notePath nt = p")
    case True
    then have "find (\<lambda>x. notePath x = p) ns = None" using Cons.prems by (auto simp: find_None image_iff)
    then show ?thesis using Cons True by (simp add: index_note_def)
  next
    case False
    have rest: "distinct (map notePath ns)" using Cons.prems by simp
    show ?thesis
    proof (cases "find (\<lambda>x. notePath x = p) ns")
      case None
      then show ?thesis using Cons.IH [OF rest, of "index_note n idx nt"] False by (simp add: index_note_def)
    next
      case (Some x)
      then show ?thesis using Cons.IH [OF rest, of "index_note n idx nt"] False other [of x] find_Some [OF Some] by simp
    qed
  qed
qed simp

end
