(* ===== verification/Pipeline.thy ===== *)
theory Pipeline
  imports Knowledge
begin

text \<open>
  What the knowledge base promises: a pass of \<open>Index\<close> brings the database in line with the
  vault, always returns, never loses a note whose file is there, and can be repeated until
  every chunk has its vector; an answer of \<open>Ask\<close> rests on chunks of the index.
\<close>

section \<open>Vectors belong to the texts\<close>

text \<open>Every chunk that has a vector in the space has one that \<open>R\<close> allows for its text.\<close>

definition faithful :: "(gostring \<Rightarrow> Vector \<Rightarrow> bool) \<Rightarrow> SpaceRef \<Rightarrow> pg \<Rightarrow> bool" where
  "faithful R ref db \<longleftrightarrow>
     (\<forall>c\<in>set (chunkRows db). \<forall>v. vector_of db (refTable ref) (cid c) = Some v \<longrightarrow> R (ctext c) v)"

lemma faithful_inherits: "inherits db db' \<Longrightarrow> faithful R ref db \<Longrightarrow> faithful R ref db'"
  unfolding faithful_def inherits_def by blast

lemma faithful_progressed:
  assumes "db_ok db" "progressed ref R m db db'" "chunkRows db' = chunkRows db" "faithful R ref db"
  shows "faithful R ref db'"
  unfolding faithful_def
proof (intro ballI allI impI)
  fix c v assume c: "c \<in> set (chunkRows db')" and v: "vector_of db' (refTable ref) (cid c) = Some v"
  let ?first = "take m (waiting ref db)"
  from assms(2) obtain vs where vs: "list_all2 R (map snd ?first) vs"
    "vector_of db' (refTable ref) = vector_of db (refTable ref) ++ map_of (zip (map fst ?first) vs)"
    by (auto simp: advanced_def)
  show "R (ctext c) v"
  proof (cases "map_of (zip (map fst ?first) vs) (cid c)")
    case None
    then show ?thesis using v vs(2) assms(3,4) c by (auto simp: faithful_def map_add_def)
  next
    case (Some v')
    then have "(cid c, v) \<in> set (zip (map fst ?first) vs)"
      using v vs(2) by (auto dest: map_of_SomeD)
    then obtain i where i: "i < length ?first" "i < length vs" "cid c = fst (?first ! i)" "v = vs ! i"
      by (auto simp: set_zip)
    then have "?first ! i \<in> set (waiting ref db)" by (meson in_set_takeD nth_mem)
    then obtain c' where c': "c' \<in> set (chunkRows db)" "?first ! i = (cid c', ctext c')"
      by (auto simp: waiting_def pending_def pending_rows_def split: option.splits)
    have "c' = c" using assms(1,3) c c' i(3)
      unfolding db_ok_def chunks_ok_def distinct_map inj_on_def by simp
    moreover have "R (snd (?first ! i)) (vs ! i)" using list_all2_nthD [OF vs(1), of i] i(1) by simp
    ultimately show ?thesis using i(4) c'(2) by simp
  qed
qed

section \<open>A pass over the vault\<close>

text \<open>What the scan of the vault finds when a pass begins.\<close>

definition scan_now :: "'w host \<Rightarrow> 'w knowledge \<Rightarrow> 'w \<Rightarrow> scan_result \<times> goerr option" where
  "scan_now h k w = Scan (hPrint h) (hLower h) (hSha h) (VaultPath k) (hRoot h w)"

definition scan_fatal :: "scan_result \<times> goerr option \<Rightarrow> bool" where
  "scan_fatal r \<longleftrightarrow> (case snd r of None \<Rightarrow> False | Some e \<Rightarrow> \<not> is_err ErrUnclosedFrontmatter e)"

lemma Index_unfold:
  "Knowledge_Index h k s =
     (if VaultPath k = [] then Some ((no_result, Some (Plain ''knowledge: Index needs Config.VaultPath'')), s)
      else if scan_fatal (scan_now h k (fst s))
      then Some ((no_result, Some (wrap (''scan vault '' @ VaultPath k) (the (snd (scan_now h k (fst s)))))), s)
      else index_notes h k (fst (scan_now h k (fst s))) s)"
  by (simp add: Knowledge_Index_def scan_now_def scan_fatal_def split: prod.splits option.splits)

text \<open>How a pass over the notes can end.\<close>

lemma index_notes_cases:
  assumes "db_ok (snd s)" "embedding (Embed (kEmbed k)) R \<or> (\<forall>t v. R KindDocument t v)"
  obtains (stopped) res errs paths e s' where
    "note_loop h k (Notes scan) (no_result\<lparr>NotesSkipped := length (Skipped scan)\<rparr>, [], Skipped scan) s =
       ((res, errs, paths), Some e, s')" "index_notes h k scan s = Some ((res, Some e), s')"
  | (not_pruned) res paths s1 e s' where
    "note_loop h k (Notes scan) (no_result\<lparr>NotesSkipped := length (Skipped scan)\<rparr>, [], Skipped scan) s =
       ((res, [], paths), None, s1)" "DeleteMissingNotes (hDb h) paths s1 = (Inl e, s')"
    "index_notes h k scan s = Some ((res, Some e), s')"
  | (pruned) res paths s1 gone s2 n err s' m where
    "note_loop h k (Notes scan) (no_result\<lparr>NotesSkipped := length (Skipped scan)\<rparr>, [], Skipped scan) s =
       ((res, [], paths), None, s1)" "DeleteMissingNotes (hDb h) paths s1 = (Inr gone, s2)"
    "index_notes h k scan s = Some ((res\<lparr>NotesDeleted := gone, ChunksEmbedded := n\<rparr>, err), s')"
    "db_ok (snd s')" "rest_of (snd s') = rest_of (snd s2)"
    "progressed (kSpace k) (R KindDocument) m (snd s2) (snd s')" "n \<le> m"
    "err = None \<longrightarrow> n = m \<and> waiting (kSpace k) (snd s') = []"
  | (failed) res errs paths s1 n err s' m where
    "note_loop h k (Notes scan) (no_result\<lparr>NotesSkipped := length (Skipped scan)\<rparr>, [], Skipped scan) s =
       ((res, errs, paths), None, s1)" "errs \<noteq> []"
    "index_notes h k scan s = Some ((res\<lparr>ChunksEmbedded := n\<rparr>, Some err), s')"
    "db_ok (snd s')" "rest_of (snd s') = rest_of (snd s1)"
    "progressed (kSpace k) (R KindDocument) m (snd s1) (snd s')" "n \<le> m"
proof -
  obtain res errs paths st s1 where loop:
    "note_loop h k (Notes scan) (no_result\<lparr>NotesSkipped := length (Skipped scan)\<rparr>, [], Skipped scan) s =
       ((res, errs, paths), st, s1)" by (metis prod.exhaust)
  have ok1: "db_ok (snd s1)" using note_loop_keeps [OF assms(1) loop] by simp
  show thesis
  proof (cases st)
    case (Some e)
    show ?thesis by (rule stopped [of res errs paths e s1]) (use loop Some in \<open>simp_all add: index_notes_def\<close>)
  next
    case None
    show ?thesis
    proof (cases "errs = []")
      case False
      obtain n err s' m where e: "embedPending h k s1 = Some ((n, err), s')" "db_ok (snd s')"
        "rest_of (snd s') = rest_of (snd s1)" "progressed (kSpace k) (R KindDocument) m (snd s1) (snd s')" "n \<le> m"
        "err = None \<longrightarrow> n = m \<and> waiting (kSpace k) (snd s') = []"
        using ok1 assms(2) by (rule embedPending_cases)
      show ?thesis
        by (rule failed [of res errs paths s1 n "case err of Some e \<Rightarrow> e | None \<Rightarrow> Joined errs" s' m])
          (use loop None False e in \<open>auto simp: index_notes_def index_finish_def join_errs_def split: option.splits\<close>)
    next
      case True
      obtain r s2 where del: "DeleteMissingNotes (hDb h) paths s1 = (r, s2)" by (rule prod.exhaust)
      have ok2: "db_ok (snd s2)" using ok_stepD [OF Delete_step del ok1] by simp
      show ?thesis
      proof (cases r)
        case (Inl e)
        show ?thesis
          by (rule not_pruned [of res paths s1 e s2]) (use loop None True del Inl in \<open>simp_all add: index_notes_def\<close>)
      next
        case (Inr gone)
        obtain n err s' m where e: "embedPending h k s2 = Some ((n, err), s')" "db_ok (snd s')"
          "rest_of (snd s') = rest_of (snd s2)" "progressed (kSpace k) (R KindDocument) m (snd s2) (snd s')" "n \<le> m"
          "err = None \<longrightarrow> n = m \<and> waiting (kSpace k) (snd s') = []"
          using ok2 assms(2) by (rule embedPending_cases)
        show ?thesis
          by (rule pruned [of res paths s1 gone s2 n err s' m])
            (use loop None True del Inr e in \<open>auto simp: index_notes_def index_finish_def join_errs_def split: option.splits\<close>)
      qed
    qed
  qed
qed

lemma scan_now_paths:
  assumes "hRoot h w = Inr node" "names_ok node"
  shows "distinct (map notePath (Notes (fst (scan_now h k w))))"
proof -
  have "distinct (map notePath (Notes (fst (scan_now h k w))) @ Skipped (fst (scan_now h k w)))"
    unfolding scan_now_def assms(1) using assms(2) by (rule Scan_paths)
  then show ?thesis by simp
qed

lemma Index_in_line:
  fixes h :: "'w host" and k :: "'w knowledge" and s :: "'w \<times> pg"
  assumes "db_ok (snd s)" "hRoot h (fst s) = Inr node" "names_ok node" "embedding (Embed (kEmbed k)) R"
    "faithful (R KindDocument) (kSpace k) (snd s)" "Knowledge_Index h k s = Some ((res, None), s')"
  defines "scan \<equiv> fst (scan_now h k (fst s))"
  shows "(\<forall>p. index_of (snd s') p =
      (case find (\<lambda>n. notePath n = p) (Notes scan) of
         Some n \<Rightarrow> indexed_note (chunkN k) (index_of (snd s)) n
       | None \<Rightarrow> if p \<in> set (Skipped scan) \<or> Notes scan = [] \<and> Skipped scan = [] then index_of (snd s) p else None)) \<and>
    (\<forall>n\<in>set (Notes scan). index_of (snd s') (notePath n) \<noteq> None) \<and>
    waiting (kSpace k) (snd s') = [] \<and> faithful (R KindDocument) (kSpace k) (snd s') \<and>
    NotesWritten res = length (filter (\<lambda>n. \<not> unchanged (index_of (snd s)) n) (Notes scan)) \<and>
    NotesUnchanged res = length (filter (unchanged (index_of (snd s))) (Notes scan)) \<and>
    NotesSkipped res = length (Skipped scan) \<and> NotesFailed res = 0 \<and> db_ok (snd s')"
proof -
  have run: "index_notes h k scan s = Some ((res, None), s')"
    using assms(6) by (simp add: Index_unfold scan_def split: if_splits)
  have paths: "distinct (map notePath (Notes scan))" unfolding scan_def using assms(2,3) by (rule scan_now_paths)
  from assms(1) disjI1 [OF assms(4)] show ?thesis
  proof (cases rule: index_notes_cases [where h = h and scan = scan])
    case (pruned res0 keep s1 gone s2 n err s3 m)
    from pruned(3) run have r: "res = res0\<lparr>NotesDeleted := gone, ChunksEmbedded := n\<rparr>" "err = None" "s3 = s'" by auto
    note loop = note_loop_keeps [OF assms(1) pruned(1)] note_loop_fold [OF assms(1) pruned(1) _ paths]
    note del = Delete_cases [OF _ pruned(2)] inherits_Delete [OF pruned(2)]
    have ok1: "db_ok (snd s1)" and keep: "keep = Skipped scan @ map notePath (Notes scan)" using loop(1) by simp_all
    have idx: "index_of (snd s') p = (if keep = [] then index_of (snd s1) p else ((index_of (snd s1)) |` set keep) p)" for p
      using del(1) [OF ok1] rest_of_index [OF pruned(5)] r(3) by (simp split: if_splits)
    have fold: "index_of (snd s1) p = (case find (\<lambda>n. notePath n = p) (Notes scan) of None \<Rightarrow> index_of (snd s) p
        | Some n \<Rightarrow> indexed_note (chunkN k) (index_of (snd s)) n)" for p
      using loop(2) foldl_index_note [OF paths] by simp
    have exact: "index_of (snd s') p =
      (case find (\<lambda>n. notePath n = p) (Notes scan) of
         Some n \<Rightarrow> indexed_note (chunkN k) (index_of (snd s)) n
       | None \<Rightarrow> if p \<in> set (Skipped scan) \<or> Notes scan = [] \<and> Skipped scan = [] then index_of (snd s) p else None)" for p
    proof (cases "find (\<lambda>n. notePath n = p) (Notes scan)")
      case None
      then have "p \<notin> notePath ` set (Notes scan)" by (auto simp: find_None)
      then show ?thesis using None idx [of p] fold [of p] by (simp add: keep restrict_map_def)
    next
      case (Some n)
      then have "p \<in> set keep" using find_Some [OF Some] by (auto simp: keep)
      then show ?thesis using Some idx [of p] fold [of p] by (auto simp: restrict_map_def)
    qed
    have there: "index_of (snd s') (notePath n) \<noteq> None" if "n \<in> set (Notes scan)" for n
      using exact [of "notePath n"] find_distinct [OF paths that] loop(2) that by simp
    have "faithful (R KindDocument) (kSpace k) (snd s2)"
      using loop(1) del(2) [OF ok1] assms(5) faithful_inherits by blast
    then have "faithful (R KindDocument) (kSpace k) (snd s')"
      using faithful_progressed [OF _ pruned(6)] pruned(5) r(3) del(1) [OF ok1] by (simp add: rest_of_def)
    moreover have "NotesWritten res = length (filter (\<lambda>n. \<not> unchanged (index_of (snd s)) n) (Notes scan)) \<and>
      NotesUnchanged res = length (filter (unchanged (index_of (snd s))) (Notes scan)) \<and>
      NotesSkipped res = length (Skipped scan) \<and> NotesFailed res = 0"
      using loop r(1) by (simp add: no_result_def)
    moreover have "waiting (kSpace k) (snd s') = []" "db_ok (snd s')" using pruned(4,8) r by simp_all
    ultimately show ?thesis using exact there by blast
  qed (use run in auto)
qed

text \<open>
  C1. A pass that reports no error has brought the database in line with the vault. For every
  path: a scanned note is in the index, as the stored version if its hash is unchanged and
  otherwise as the file's title and text with the chunks \<open>Cut\<close> makes of it; a file the scan
  skipped keeps what it had; every other path is gone, unless the scan found no file at
  all. No chunk of the index is left without a vector, and every vector was given by the
  provider for the text of its own chunk, for any contract \<open>R\<close> the provider keeps. The
  counters say how many notes were new or changed and how many were not, and none failed.
\<close>

theorem Index_exact:
  fixes h :: "'w host" and k :: "'w knowledge" and s :: "'w \<times> pg"
  assumes "db_ok (snd s)" "hRoot h (fst s) = Inr node" "names_ok node" "embedding (Embed (kEmbed k)) R"
    "faithful (R KindDocument) (kSpace k) (snd s)" "Knowledge_Index h k s = Some ((res, None), s')"
  defines "scan \<equiv> fst (scan_now h k (fst s))"
  shows "(\<forall>p. index_of (snd s') p =
      (case find (\<lambda>n. notePath n = p) (Notes scan) of
         Some n \<Rightarrow> indexed_note (chunkN k) (index_of (snd s)) n
       | None \<Rightarrow> if p \<in> set (Skipped scan) \<or> Notes scan = [] \<and> Skipped scan = [] then index_of (snd s) p else None)) \<and>
    (\<forall>n\<in>set (Notes scan). index_of (snd s') (notePath n) \<noteq> None) \<and>
    waiting (kSpace k) (snd s') = [] \<and> faithful (R KindDocument) (kSpace k) (snd s') \<and>
    NotesWritten res = length (filter (\<lambda>n. \<not> unchanged (index_of (snd s)) n) (Notes scan)) \<and>
    NotesUnchanged res = length (filter (unchanged (index_of (snd s))) (Notes scan)) \<and>
    NotesSkipped res = length (Skipped scan) \<and> NotesFailed res = 0 \<and> db_ok (snd s')"
  unfolding assms(7) using assms(1-6) by (rule Index_in_line)

text \<open>A small vault, provider and host for concrete runs.\<close>

definition length_embedder :: "unit embedder" where
  "length_embedder = \<lparr>Embed = \<lambda>texts kind w. (Inr (map (\<lambda>t. [of_nat (length t)]) texts), w),
     embedSpace = demo_space, MaxBatch = 2\<rparr>"

definition one_dim :: "Kind \<Rightarrow> gostring \<Rightarrow> Vector \<Rightarrow> bool" where
  "one_dim kind text v \<longleftrightarrow> length v = 1"

lemma embedding_length: "embedding (Embed length_embedder) one_dim"
  by unfold_locales (auto simp: length_embedder_def one_dim_def list_all2_conv_all_nth)

definition demo_vault :: fsnode where
  "demo_vault = Dir None [(''a.md'', File (Inr ''new'')), (''b.md'', File (Inr ''b'')), (''c.txt'', File (Inr ''c''))]"

definition demo_host :: "unit host" where
  "demo_host = \<lparr>hCtx = \<lambda>w. None, hDb = calm_db, hVec = demo_pv, hRoot = \<lambda>w. Inr demo_vault,
     hPrint = \<lambda>r. True, hLower = \<lambda>r. r, hSha = \<lambda>t. t\<rparr>"

definition demo_kb :: "unit knowledge" where
  "demo_kb = \<lparr>VaultPath = ''/v'', kEmbed = length_embedder, kLlm = Some (NewStub (\<lambda>w. None)),
     kSpace = demo_ref, chunkN = 800\<rparr>"

lemma Index_exact_witness:
  "\<exists>res s'. Knowledge_Index demo_host demo_kb ((), demo_pg) = Some ((res, None), s') \<and>
     NotesWritten res = 2 \<and> waiting demo_ref (snd s') = [] \<and> faithful (one_dim KindDocument) demo_ref (snd s')"
proof -
  let ?run = "Knowledge_Index demo_host demo_kb ((), demo_pg)"
  have "case ?run of None \<Rightarrow> False | Some ((res, err), s') \<Rightarrow> err = None \<and> NotesWritten res = 2"
    by code_simp
  then obtain res s' where run: "?run = Some ((res, None), s')" "NotesWritten res = 2"
    by (auto split: option.splits)
  have ok: "db_ok (snd ((), demo_pg))" by (simp add: demo_pg_ok)
  have root: "hRoot demo_host (fst ((), demo_pg)) = Inr demo_vault" by (simp add: demo_host_def)
  have names: "names_ok demo_vault" by code_simp
  have emb: "embedding (Embed (kEmbed demo_kb)) one_dim" using embedding_length by (simp add: demo_kb_def)
  have fa: "faithful (one_dim KindDocument) (kSpace demo_kb) (snd ((), demo_pg))"
    by (simp add: faithful_def one_dim_def demo_kb_def demo_ref_def demo_pg_def vector_of_def table_of_def)
  from Index_exact [OF ok root names emb fa run(1)] run show ?thesis by (auto simp: demo_kb_def)
qed

text \<open>
  C2. Nothing on disk is ever lost. Whatever a pass ends with - a full success, an error of the
  walk, the context, a note, the pruning or the provider, or a lost reply - a path that
  was in the index and no longer is belonged to a file the scan did not find: the scan was
  complete and found some file, no note failed to be stored, and the path is neither that
  of a scanned note nor that of a skipped file.
\<close>

theorem Index_never_loses:
  assumes "db_ok (snd s)" "Knowledge_Index h k s = Some ((res, err), s')"
    "index_of (snd s) p \<noteq> None" "index_of (snd s') p = None"
  defines "scan \<equiv> fst (scan_now h k (fst s))"
  shows "\<not> scan_fatal (scan_now h k (fst s)) \<and> (Notes scan \<noteq> [] \<or> Skipped scan \<noteq> []) \<and> NotesFailed res = 0 \<and>
    p \<notin> notePath ` set (Notes scan) \<and> p \<notin> set (Skipped scan)"
proof -
  have run: "index_notes h k scan s = Some ((res, err), s')" and walked: "\<not> scan_fatal (scan_now h k (fst s))"
    using assms(2-4) by (auto simp: Index_unfold scan_def split: if_splits)
  have gone: "keep \<noteq> [] \<and> p \<notin> set keep" if "DeleteMissingNotes env keep s1 = (r, s2)" "db_ok (snd s1)"
    "index_of (snd s1) p \<noteq> None" "index_of (snd s2) p = None" for env keep s1 r s2
    using Delete_cases [OF that(2,1)] that(3,4)
    by (auto simp: restrict_map_def split: if_splits sum.splits)
  have kept: "index_of (snd s1) p \<noteq> None" if "dom (index_of (snd s)) \<subseteq> dom (index_of (snd s1))" for s1 :: "'a \<times> pg"
    using that assms(3) by blast
  from assms(1) have all: "embedding (Embed (kEmbed k)) (\<lambda>_ _ _. True) \<or> (\<forall>t v. (\<lambda>_ _ _. True :: bool) KindDocument t v)"
    by simp
  from assms(1) all show ?thesis
  proof (cases rule: index_notes_cases [where h = h and scan = scan])
    case (stopped res0 errs keep e s1)
    then have "s1 = s'" using run by simp
    then show ?thesis using kept note_loop_keeps [OF assms(1) stopped(1)] assms(4) by blast
  next
    case (not_pruned res0 keep s1 e s2)
    note loop = note_loop_keeps [OF assms(1) not_pruned(1)]
    have "s2 = s'" "res = res0" using run not_pruned(3) by simp_all
    then show ?thesis using gone [OF not_pruned(2)] kept loop assms(4) walked by (auto simp: no_result_def)
  next
    case (pruned res0 keep s1 n s2 m err0 s3 m')
    note loop = note_loop_keeps [OF assms(1) pruned(1)]
    have r: "s3 = s'" "NotesFailed res = NotesFailed res0" using run pruned(3) by auto
    then have "index_of (snd s2) p = None" using assms(4) rest_of_index [OF pruned(5)] by simp
    then show ?thesis using gone [OF pruned(2)] kept loop walked r by (auto simp: no_result_def)
  next
    case (failed res0 errs keep s1 n err0 s2 m)
    note loop = note_loop_keeps [OF assms(1) failed(1)]
    have "s2 = s'" using run failed(3) by auto
    then show ?thesis using kept loop assms(4) rest_of_index [OF failed(5)] by metis
  qed
qed

lemma Index_never_loses_witness:
  "let h = demo_host\<lparr>hRoot := \<lambda>w. Inr (Dir None [(''b.md'', File (Inr ''b''))])\<rparr>;
       run = Knowledge_Index h demo_kb ((), demo_pg)
   in \<exists>res err s'. run = Some ((res, err), s') \<and> index_of (snd s') ''a.md'' = None \<and>
        NotesFailed res = 0 \<and> ''a.md'' \<notin> notePath ` set (Notes (fst (scan_now h demo_kb ())))"
proof -
  let ?h = "demo_host\<lparr>hRoot := \<lambda>w. Inr (Dir None [(''b.md'', File (Inr ''b''))])\<rparr>"
  let ?run = "Knowledge_Index ?h demo_kb ((), demo_pg)"
  have "case ?run of None \<Rightarrow> False | Some (r, s') \<Rightarrow> index_of (snd s') ''a.md'' = None" by code_simp
  then obtain res err s' where run: "?run = Some ((res, err), s')" "index_of (snd s') ''a.md'' = None"
    by (auto split: option.splits)
  have ok: "db_ok (snd ((), demo_pg))" by (simp add: demo_pg_ok)
  have "index_of (snd ((), demo_pg)) ''a.md'' \<noteq> None" by code_simp
  note c = Index_never_loses [OF ok run(1) this run(2)]
  show ?thesis unfolding Let_def
    by (intro exI [of _ res] exI [of _ err] exI [of _ s'] conjI) (use run c in simp_all)
qed

lemma Index_ends:
  fixes h :: "'w host" and k :: "'w knowledge"
  assumes "db_ok (snd s)"
  shows "\<exists>res err s'. Knowledge_Index h k s = Some ((res, err), s') \<and> db_ok (snd s') \<and>
    (NotesFailed res \<noteq> 0 \<longrightarrow> err \<noteq> None) \<and>
    (NotesSkipped res = 0 \<or> NotesSkipped res = length (Skipped (fst (scan_now h k (fst s)))))"
proof (cases "VaultPath k = [] \<or> scan_fatal (scan_now h k (fst s))")
  case True
  then show ?thesis using assms by (cases s) (auto simp: Index_unfold no_result_def)
next
  case False
  then have u: "Knowledge_Index h k s = index_notes h k (fst (scan_now h k (fst s))) s" by (simp add: Index_unfold)
  let ?scan = "fst (scan_now h k (fst s))"
  have all: "embedding (Embed (kEmbed k)) (\<lambda>_ _ _. True) \<or> (\<forall>t v. (\<lambda>_ _ _. True :: bool) KindDocument t v)"
    by simp
  from assms all show ?thesis
  proof (cases rule: index_notes_cases [where h = h and scan = ?scan])
    case (stopped res errs keep e s1)
    then show ?thesis using u note_loop_keeps [OF assms stopped(1)] by (simp add: no_result_def)
  next
    case (not_pruned res keep s1 e s2)
    note loop = note_loop_keeps [OF assms not_pruned(1)]
    have "db_ok (snd s2)" using ok_stepD [OF Delete_step not_pruned(2)] loop by simp
    then show ?thesis using u not_pruned(3) loop by (simp add: no_result_def)
  next
    case (pruned res keep s1 n s2 m err s3 m')
    then show ?thesis using u note_loop_keeps [OF assms pruned(1)] by (simp add: no_result_def)
  next
    case (failed res errs keep s1 n err s2 m)
    then show ?thesis using u note_loop_keeps [OF assms failed(1)] by (simp add: no_result_def)
  qed
qed

text \<open>
  C5. A pass always returns. For every provider, server, context and vault - faults and lost
  replies at any statement included - \<open>Index\<close> ends with a result, on a consistent database;
  a note that could not be stored is never passed over in silence: the error is nil only
  if no note failed, and no more notes are reported than there are.
\<close>

theorem Index_returns:
  fixes h :: "'w host" and k :: "'w knowledge"
  assumes "db_ok (snd s)"
  shows "\<exists>res err s'. Knowledge_Index h k s = Some ((res, err), s') \<and> db_ok (snd s') \<and>
    (NotesFailed res \<noteq> 0 \<longrightarrow> err \<noteq> None) \<and>
    (NotesSkipped res = 0 \<or> NotesSkipped res = length (Skipped (fst (scan_now h k (fst s)))))"
  using assms by (rule Index_ends)

lemma Index_returns_witness:
  "\<exists>res err s'. Knowledge_Index demo_host demo_kb ((), demo_pg) = Some ((res, err), s') \<and> db_ok (snd s')"
proof -
  have "db_ok (snd ((), demo_pg))" by (simp add: demo_pg_ok)
  from Index_returns [OF this, of demo_host demo_kb] show ?thesis by blast
qed

section \<open>Interrupted passes add up\<close>

text \<open>
  C4. A pass keeps what it got. However filling in the vectors ends - for a provider that fails
  at any batch, a server that fails at any statement - it returns, and the chunks that now
  have a vector are an initial part, \<open>m\<close> long, of those that waited, in their order, each
  with a vector the provider gave for its text; all others wait as before, and the notes,
  chunks and other vectors are untouched. The number reported is never more than what was
  stored, and without an error it is exact and nothing waits any longer.
\<close>

theorem embedPending_resumes:
  fixes h :: "'w host" and k :: "'w knowledge"
  assumes "db_ok (snd s)" "embedding (Embed (kEmbed k)) R"
  defines "todo db \<equiv> waiting (kSpace k) db" and "vec db \<equiv> vector_of db (refTable (kSpace k))"
  shows "\<exists>n err s' m vs. embedPending h k s = Some ((n, err), s') \<and> db_ok (snd s') \<and>
    noteRows (snd s') = noteRows (snd s) \<and> chunkRows (snd s') = chunkRows (snd s) \<and>
    m \<le> length (todo (snd s)) \<and> todo (snd s') = drop m (todo (snd s)) \<and>
    list_all2 (R KindDocument) (map snd (take m (todo (snd s)))) vs \<and>
    vec (snd s') = vec (snd s) ++ map_of (zip (map fst (take m (todo (snd s)))) vs) \<and>
    n \<le> m \<and> (err = None \<longrightarrow> n = m \<and> todo (snd s') = [])"
proof -
  obtain n err s' m where e: "embedPending h k s = Some ((n, err), s')" "db_ok (snd s')"
    "rest_of (snd s') = rest_of (snd s)" "progressed (kSpace k) (R KindDocument) m (snd s) (snd s')" "n \<le> m"
    "err = None \<longrightarrow> n = m \<and> waiting (kSpace k) (snd s') = []"
    using assms(1) disjI1 [OF assms(2)] by (rule embedPending_cases)
  from e(4) obtain vs where "list_all2 (R KindDocument) (map snd (take m (todo (snd s)))) vs"
    "vec (snd s') = vec (snd s) ++ map_of (zip (map fst (take m (todo (snd s)))) vs)"
    "m \<le> length (todo (snd s))" "todo (snd s') = drop m (todo (snd s))"
    unfolding advanced_def todo_def vec_def by blast
  with e show ?thesis by (auto simp: rest_of_def todo_def)
qed

lemma embedPending_resumes_witness:
  "\<exists>n err s' vs. embedPending demo_host demo_kb ((), demo_pg) = Some ((n, err), s') \<and>
     waiting demo_ref demo_pg = [(1, ''x'')] \<and> err = None \<and> n = 1 \<and> waiting demo_ref (snd s') = []"
proof -
  let ?run = "embedPending demo_host demo_kb ((), demo_pg)"
  have "case ?run of None \<Rightarrow> False | Some ((n, err), s') \<Rightarrow> err = None" by code_simp
  then have none: "?run = Some ((n, err), s') \<Longrightarrow> err = None" for n err s' by auto
  have w: "waiting demo_ref demo_pg = [(1, ''x'')]" by code_simp
  have "db_ok (snd ((), demo_pg))" by (simp add: demo_pg_ok)
  moreover have "embedding (Embed (kEmbed demo_kb)) one_dim" using embedding_length by (simp add: demo_kb_def)
  ultimately obtain n err s' m where r: "?run = Some ((n, err), s')" "m \<le> length (waiting demo_ref demo_pg)"
    "waiting demo_ref (snd s') = drop m (waiting demo_ref demo_pg)" "err = None \<longrightarrow> n = m \<and> waiting demo_ref (snd s') = []"
    using embedPending_resumes [of "((), demo_pg)" demo_kb one_dim demo_host] by (auto simp: demo_kb_def)
  then show ?thesis using none [OF r(1)] w by (auto simp: drop_eq_Nil)
qed

text \<open>On a server that does not fail, claiming and storing succeed.\<close>

lemma reliable_fault: "reliable env \<Longrightarrow> fault env e = (Fine, snd (fault env e))"
  unfolding reliable_def by (metis prod.collapse)

lemma claims_reliably:
  assumes "reliable env" "table_of (snd s) (refTable ref) = Some t"
  shows "PendingChunks env ref n s =
    (Inr (take (nat (max 1 n)) (waiting ref (snd s))), snd (fault env (fst s)), snd s)"
  using reliable_fault [OF assms(1), of "fst s"] assms(2)
  by (auto simp: PendingChunks_query exec_def pending_query_def map_err_def waiting_def pending_def take_map max_def
      split: prod.splits)

definition fits :: "SpaceRef \<Rightarrow> Vector \<Rightarrow> bool" where
  "fits ref v \<longleftrightarrow> int (length v) = Dim (refSpace ref) \<and> list_all f32_finite v"

lemma saves_reliably:
  assumes "reliable env" "db_ok (snd s)" "table_of (snd s) (refTable ref) = Some t" "tdim t = Dim (refSpace ref)"
    "part = take n (waiting ref (snd s))" "length vs = length part" "list_all (fits ref) vs"
  shows "\<exists>s'. SaveEmbeddings env ref (chunk_vectors part vs) s = (Inr (), s')"
proof -
  let ?batch = "chunk_vectors part vs"
  have rows: "batch_rows ?batch = zip (map fst part) vs"
    using assms(6) by (induction part vs rule: list_induct2') (auto simp: chunk_vectors_def batch_rows_def)
  have vecs: "v \<in> set vs" if "(c, v) \<in> set (zip (map fst part) vs)" for c v using that by (rule set_zip_rightD)
  have dims: "dims_ok ref ?batch"
    using assms(7) by (auto simp: dims_ok_def list_all_iff chunk_vectors_def fits_def dest: set_zip_rightD)
  have ids: "fst ` set (waiting ref (snd s)) \<subseteq> cid ` set (chunkRows (snd s))"
    by (auto simp: waiting_def pending_def pending_rows_def split: option.splits)
  have chunks: "c \<in> cid ` set (chunkRows (snd s))" if "(c, v) \<in> set (zip (map fst part) vs)" for c v
    using set_zip_leftD [OF that] ids assms(5) by (auto dest: in_set_takeD)
  have dist: "distinct (map fst (zip (map fst part) vs))"
  proof -
    have "map fst (zip (map fst part) vs) = map fst part" using assms(6) by (intro map_fst_zip) simp
    then show ?thesis using waiting_distinct [OF assms(2), of ref] assms(5) by (metis distinct_take take_map)
  qed
  have "fst (insert_vectors (violation env) (refTable ref) (batch_rows ?batch) (snd s)) = Inr ()"
    using assms(3,4,7) dist vecs chunks
    by (auto simp: insert_vectors_def rows list_all_iff fits_def split: prod.splits)
  moreover obtain q where "buildEmbeddingInsert ref ?batch = Inr (q, batch_args ?batch)"
      "bound_rows q (batch_args ?batch) = batch_rows ?batch"
    using buildEmbeddingInsert_ok dims by blast
  ultimately show ?thesis using reliable_exec [OF assms(1), of "insert_vectors (violation env) (refTable ref) (batch_rows ?batch)" s]
    by (auto simp: SaveEmbeddings_def map_err_def)
qed

text \<open>A batch within the limit is one call.\<close>

lemma Batched_one:
  assumes "texts \<noteq> []" "int (length texts) \<le> batch_size p" "Embed p texts kind w = (Inr vs, w')" "length vs = length texts"
  shows "Batched p texts kind w = (Inr vs, w')"
proof -
  have "length texts \<le> nat (batch_size p)" using assms(2) by simp
  then have "min (0 + nat (batch_size p)) (length texts) = length texts" by simp
  then show ?thesis using assms \<open>length texts \<le> nat (batch_size p)\<close>
    by (simp add: Batched_def batch_loop.simps [of p texts kind 0] batch_loop.simps [of p texts kind "nat (batch_size p)"])
qed

text \<open>
  Passes, each after a pause that does \<open>refill\<close> to the world: a new day of a quota. The
  provider answers at least one call after each.
\<close>

fun passes :: "'w host \<Rightarrow> 'w knowledge \<Rightarrow> ('w \<Rightarrow> 'w) \<Rightarrow> nat \<Rightarrow> 'w \<times> pg \<Rightarrow> ('w \<times> pg) option" where
  "passes h k refill 0 s = Some s"
| "passes h k refill (Suc i) s =
     (case embedPending h k (refill (fst s), snd s) of
        None \<Rightarrow> None
      | Some (_, s) \<Rightarrow> passes h k refill i s)"

definition answers_once :: "'w host \<Rightarrow> 'w knowledge \<Rightarrow> ('w \<Rightarrow> 'w) \<Rightarrow> bool" where
  "answers_once h k refill \<longleftrightarrow>
     (\<forall>w texts. texts \<noteq> [] \<longrightarrow> int (length texts) \<le> batch_size (kEmbed k) \<longrightarrow>
        (case Embed (kEmbed k) texts KindDocument (snd (fault (hDb h) (refill w))) of
           (Inl _, _) \<Rightarrow> False
         | (Inr vs, _) \<Rightarrow> length vs = length texts \<and> list_all (fits (kSpace k)) vs))"

definition batch_now :: "'w knowledge \<Rightarrow> nat" where
  "batch_now k = min 128 (nat (batch_size (kEmbed k)))"

lemma pass_progress:
  assumes ok: "db_ok (snd s)" and rel: "reliable (hDb h)" and ans: "answers_once h k refill"
    and t: "table_of (snd s) (refTable (kSpace k)) = Some t" "tdim t = Dim (refSpace (kSpace k))"
  obtains r s' where "embedPending h k (refill (fst s), snd s) = Some (r, s')" "db_ok (snd s')"
    "rest_of (snd s') = rest_of (snd s)"
    "length (waiting (kSpace k) (snd s')) \<le> length (waiting (kSpace k) (snd s)) - batch_now k"
proof -
  let ?ref = "kSpace k" and ?s = "(refill (fst s), snd s)" and ?p = "kEmbed k"
  let ?todo = "waiting ?ref (snd s)"
  obtain n err s' m where e: "embedPending h k ?s = Some ((n, err), s')" "db_ok (snd s')"
    "rest_of (snd s') = rest_of (snd s)" "progressed ?ref (\<lambda>_ _. True) m (snd s) (snd s')" "n \<le> m"
    using embedPending_cases [of ?s k "\<lambda>_ _ _. True" h thesis] ok by auto
  have left: "length (waiting ?ref (snd s')) = length ?todo - m" using e(4) by (auto simp: advanced_def)
  have "batch_now k \<le> m \<or> ?todo = [] \<or> length ?todo \<le> m"
  proof (cases "?todo = []")
    case False
    let ?claimed = "take 128 ?todo"
    let ?part = "take (nat (batch_size ?p)) ?claimed"
    have claim: "PendingChunks (hDb h) ?ref pendingBatch ?s = (Inr ?claimed, snd (fault (hDb h) (refill (fst s))), snd s)"
      using claims_reliably [OF rel, of ?s ?ref t] t(1) by (simp add: pendingBatch_def)
    have part: "?part \<noteq> []" "int (length ?part) \<le> batch_size ?p" using False by (auto simp: batch_size_def)
    from ans part obtain vs w where emb: "Embed ?p (map snd ?part) KindDocument (snd (fault (hDb h) (refill (fst s)))) = (Inr vs, w)"
      "length vs = length ?part" "list_all (fits ?ref) vs"
      unfolding answers_once_def
      by (elim allE [of _ "fst s"] allE [of _ "map snd ?part"]) (auto split: prod.splits sum.splits)
    have batched: "Batched ?p (map snd ?part) KindDocument (fst (snd (fault (hDb h) (refill (fst s))), snd s)) = (Inr vs, w)"
      using Batched_one [of "map snd ?part" ?p KindDocument _ vs w] emb part by simp
    obtain s2 where sv: "SaveEmbeddings (hDb h) ?ref (chunk_vectors ?part vs) (w, snd s) = (Inr (), s2)"
      using saves_reliably [OF rel, of "(w, snd s)" ?ref t ?part "min (nat (batch_size ?p)) 128" vs] ok t emb(2,3)
      by (auto simp: min.commute)
    have "0 + length ?part \<le> n"
      using pg_indexer.rounds_first [OF _ claim _ refl batched _ e(1) [unfolded embedPending_def]] ok False sv by simp
    then show ?thesis using e(5) by (auto simp: batch_now_def)
  qed simp
  then have "length (waiting ?ref (snd s')) \<le> length ?todo - batch_now k" using left by auto
  with e show thesis using that by blast
qed

text \<open>
  C3. Under a quota the passes finish. If after each pause the provider answers at least its
  first batch - however many calls it refuses after that - and the server works, then
  \<open>i\<close> passes have filled every chunk as soon as \<open>i\<close> times the batch size (128 at most)
  reaches the number of chunks that waited: no pass starts over with chunks an earlier one
  was given vectors for.
\<close>

theorem quota_passes_finish:
  assumes "db_ok (snd s)" "reliable (hDb h)" "answers_once h k refill"
    "table_of (snd s) (refTable (kSpace k)) = Some t" "tdim t = Dim (refSpace (kSpace k))"
    "length (waiting (kSpace k) (snd s)) \<le> i * batch_now k"
  shows "\<exists>s'. passes h k refill i s = Some s' \<and> waiting (kSpace k) (snd s') = []"
  using assms(1,4-6)
proof (induction i arbitrary: s t)
  case (Suc i)
  obtain r s1 where r: "embedPending h k (refill (fst s), snd s) = Some (r, s1)" "db_ok (snd s1)"
    "rest_of (snd s1) = rest_of (snd s)"
    "length (waiting (kSpace k) (snd s1)) \<le> length (waiting (kSpace k) (snd s)) - batch_now k"
    using Suc.prems(1) assms(2,3) Suc.prems(2,3) by (rule pass_progress)
  have shape: "map (\<lambda>t. (tname t, tdim t)) (vecTables (snd s1)) = map (\<lambda>t. (tname t, tdim t)) (vecTables (snd s))"
    using r(3) by (simp add: rest_of_def)
  have "(refTable (kSpace k), tdim t) \<in> set (map (\<lambda>t. (tname t, tdim t)) (vecTables (snd s)))"
    using Suc.prems(2) find_Some [of _ "vecTables (snd s)" t] by (force simp: table_of_def)
  then obtain t1 where t1: "t1 \<in> set (vecTables (snd s1))" "tname t1 = refTable (kSpace k)" "tdim t1 = tdim t"
    unfolding shape [symmetric] by auto
  then have "table_of (snd s1) (refTable (kSpace k)) = Some t1" using r(2) table_of_in by (auto simp: db_ok_def)
  from Suc.IH [OF r(2) this] t1(3) Suc.prems(3,4) r(4) have
    "\<exists>s'. passes h k refill i s1 = Some s' \<and> waiting (kSpace k) (snd s') = []" by simp
  with r(1) show ?case by simp
qed simp

text \<open>One call a day, one text a call, and two chunks to do.\<close>

definition quota_embedder :: "nat embedder" where
  "quota_embedder = \<lparr>Embed = \<lambda>texts kind quota.
       (if quota = 0 then (Inl (Plain ''429''), 0) else (Inr (map (\<lambda>t. [7]) texts), quota - 1)),
     embedSpace = demo_space, MaxBatch = 1\<rparr>"

definition quota_host :: "nat host" where
  "quota_host = \<lparr>hCtx = \<lambda>w. None,
     hDb = \<lparr>fault = \<lambda>w. (Fine, w), violation = \<lambda>t. Plain t, now = \<lambda>w. 0, hnsw_max = 2000\<rparr>,
     hVec = \<lparr>cosine = \<lambda>a b. 0, one_minus = \<lambda>d. d, index_scan = \<lambda>w v rows. rows\<rparr>,
     hRoot = \<lambda>w. Inr demo_vault, hPrint = \<lambda>r. True, hLower = \<lambda>r. r, hSha = \<lambda>t. t\<rparr>"

definition quota_kb :: "nat knowledge" where
  "quota_kb = \<lparr>VaultPath = ''/v'', kEmbed = quota_embedder, kLlm = None, kSpace = demo_ref, chunkN = 800\<rparr>"

definition quota_pg :: pg where
  "quota_pg = demo_pg\<lparr>vecTables := [\<lparr>tname = ''emb'', tdim = 1, trows = []\<rparr>]\<rparr>"

lemma quota_passes_finish_witness:
  "\<exists>s'. waiting demo_ref quota_pg = [(1, ''x''), (2, ''y'')] \<and>
     map_option (\<lambda>s. waiting demo_ref (snd s)) (passes quota_host quota_kb (\<lambda>w. 1) 1 (0, quota_pg)) = Some [(2, ''y'')] \<and>
     passes quota_host quota_kb (\<lambda>w. 1) 2 (0, quota_pg) = Some s' \<and> waiting demo_ref (snd s') = []"
proof -
  have ok: "db_ok (snd (0 :: nat, quota_pg))" by code_simp
  have rel: "reliable (hDb quota_host)" by (simp add: reliable_def quota_host_def)
  have ans: "answers_once quota_host quota_kb (\<lambda>w. 1)"
    by (simp add: answers_once_def quota_host_def quota_kb_def quota_embedder_def demo_ref_def demo_space_def
        list_all_iff fits_def f32_finite_def)
  have t: "table_of (snd (0 :: nat, quota_pg)) (refTable (kSpace quota_kb)) = Some \<lparr>tname = ''emb'', tdim = 1, trows = []\<rparr>"
    by code_simp
  have w: "waiting demo_ref quota_pg = [(1, ''x''), (2, ''y'')]" by code_simp
  have one: "map_option (\<lambda>s. waiting demo_ref (snd s)) (passes quota_host quota_kb (\<lambda>w. 1) 1 (0, quota_pg)) = Some [(2, ''y'')]"
    by code_simp
  have d: "tdim \<lparr>tname = ''emb'', tdim = 1, trows = []\<rparr> = Dim (refSpace (kSpace quota_kb))"
    by (simp add: quota_kb_def demo_ref_def demo_space_def)
  have n: "length (waiting (kSpace quota_kb) (snd (0 :: nat, quota_pg))) \<le> 2 * batch_now quota_kb"
    using w by (simp add: quota_kb_def batch_now_def batch_size_def quota_embedder_def)
  from quota_passes_finish [OF ok rel ans t d n] w one show ?thesis by (simp add: quota_kb_def)
qed

section \<open>Answers rest on the index\<close>

text \<open>A hit shows a chunk of a note in the index, under the note's path and title.\<close>

definition shows_index :: "pg \<Rightarrow> KHit \<Rightarrow> bool" where
  "shows_index db hit \<longleftrightarrow>
     (case index_of db (hSource hit) of
        None \<Rightarrow> False
      | Some d \<Rightarrow> docName d = hTitle hit \<and> hText hit \<in> set (docChunks d))"

lemma is_hit_shows: "db_ok db \<Longrightarrow> is_hit db hit \<Longrightarrow> shows_index db (khit hit)"
proof -
  assume ok: "db_ok db" and "is_hit db hit"
  then obtain c n where c: "c \<in> set (chunkRows db)" "n \<in> set (noteRows db)" "nid n = cnote c"
    "hitText hit = ctext c" "hitPath hit = npath n" "hitName hit = nname n"
    unfolding is_hit_def by blast
  have "find (\<lambda>r. npath r = npath n) (noteRows db) = Some n"
    using find_path [of db n] ok c(2) by (simp add: db_ok_def)
  moreover have "ctext c \<in> set (map ctext (note_chunks db (nid n)))" using c by (auto simp: note_chunks_def)
  ultimately show ?thesis using c by (simp add: shows_index_def khit_def index_of_def row_doc_def)
qed

lemma join_row_hits: "(x, hit) \<in> set (join_row pv v db row) \<Longrightarrow> is_hit db hit"
proof -
  assume in_row: "(x, hit) \<in> set (join_row pv v db row)"
  then obtain c where c: "find (\<lambda>c. cid c = fst row) (chunkRows db) = Some c"
    by (cases "find (\<lambda>c. cid c = fst row) (chunkRows db)") (simp_all add: join_row_def)
  with in_row obtain n where n: "find (\<lambda>n. nid n = cnote c) (noteRows db) = Some n"
    by (cases "find (\<lambda>n. nid n = cnote c) (noteRows db)") (simp_all add: join_row_def)
  show ?thesis using in_row c n find_Some [OF c] find_Some [OF n]
    by (auto simp: join_row_def Let_def is_hit_def intro!: bexI [of _ c] bexI [of _ n])
qed

lemma search_rows_hits: "list_all (is_hit db) (search_rows pv e v n t db) \<and> length (search_rows pv e v n t db) \<le> n"
  by (auto simp: search_rows_def list_all_iff dest!: in_set_takeD join_row_hits)

lemma storage_Search_hits:
  assumes "storage_Search env pv ref v topK s = (r, s')"
  shows "snd s' = snd s \<and>
    (\<forall>hits. r = Inr hits \<longrightarrow> list_all (is_hit (snd s)) hits \<and> length hits \<le> nat (max 1 topK))"
proof -
  define query where "query = (\<lambda>db. (case table_of db (refTable ref) of
        None \<Rightarrow> Inl (violation env (refTable ref))
      | Some t \<Rightarrow> Inr (search_rows pv (fst s) v (nat (if topK < 1 then 1 else topK)) t db), db))"
  consider (early) e where "r = Inl e" "s' = s"
    | (run) g where "map_err g (exec env query s) = (r, s')"
    using assms by (auto simp: storage_Search_def query_def Let_def split: if_splits)
  then show ?thesis
  proof cases
    case run
    have "snd (snd (exec env query s)) = snd s"
      using exec_state [of env query s] by (auto simp: query_def)
    then have "snd s' = snd s" using run by (metis snd_conv snd_map_err)
    moreover have "list_all (is_hit (snd s)) hits \<and> length hits \<le> nat (max 1 topK)" if "r = Inr hits" for hits
    proof -
      have "exec env query s = (Inr hits, s')" using run that by simp
      from exec_Inr [OF this] obtain t where "hits = search_rows pv (fst s) v (nat (if topK < 1 then 1 else topK)) t (snd s)"
        by (auto simp: query_def split: option.splits)
      then show ?thesis using search_rows_hits [of "snd s" pv "fst s" v "nat (if topK < 1 then 1 else topK)" t]
        by (simp add: max_def split: if_splits)
    qed
    ultimately show ?thesis by blast
  qed simp
qed

lemma Search_hits:
  assumes "db_ok (snd s)" "Knowledge_Search h k query topK s = (r, s')"
  shows "snd s' = snd s \<and>
    (\<forall>hits. r = Inr hits \<longrightarrow> list_all (shows_index (snd s)) hits \<and> length hits \<le> nat (max 1 topK))"
proof -
  consider (early) e w where "r = Inl e" "s' = (w, snd s)"
    | (run) v w r0 where "storage_Search (hDb h) (hVec h) (kSpace k) v topK (w, snd s) = (r0, s')"
        "r = map_sum id (map khit) r0"
    using assms(2) by (auto simp: Knowledge_Search_def split: prod.splits sum.splits if_splits)
  then show ?thesis
  proof cases
    case run
    note hits = storage_Search_hits [OF run(1)]
    have "list_all (shows_index (snd s)) hs \<and> length hs \<le> nat (max 1 topK)" if r: "r = Inr hs" for hs
    proof -
      from r run(2) obtain found where f: "r0 = Inr found" "hs = map khit found" by (cases r0) auto
      then show ?thesis using hits is_hit_shows [OF assms(1)] by (auto simp: list_all_iff)
    qed
    then show ?thesis using hits by simp
  qed simp
qed

text \<open>
  C10. An answer rests on the index and changes nothing. Without a generator \<open>Ask\<close> refuses at once,
  without a call. With one, the database is as before however it ends, and an answer's text
  is exactly what the generator said to the fixed instruction and the prompt built from the
  question and the answer's hits, in their order; every hit shows a chunk, the title and the
  path of a note in the index; there are at most \<open>topK\<close> of them (one, if \<open>topK\<close> says less);
  the sources are the hits' paths, each once; and the top score is that of the first hit.
\<close>

theorem Ask_rests_on_index:
  assumes "db_ok (snd s)" "Knowledge_Ask h k question topK s = (r, s')"
  shows "snd s' = snd s \<and>
    (case kLlm k of
       None \<Rightarrow> r = Inl (Sentinel ErrNoGenerator) \<and> s' = s
     | Some llm \<Rightarrow>
         (case r of
            Inl e \<Rightarrow> True
          | Inr a \<Rightarrow>
              (\<exists>w. Generate llm SystemPrompt
                     (BuildUserPrompt question (map passage (aHits a)) DefaultMaxContextRunes) w = (Inr (aText a), fst s')) \<and>
              aModel a = Model llm \<and> list_all (shows_index (snd s)) (aHits a) \<and>
              int (length (aHits a)) \<le> max 1 topK \<and> distinct (aSources a) \<and>
              set (aSources a) = hSource ` set (aHits a) \<and>
              aTopScore a = (if aHits a = [] then 0 else hScore (hd (aHits a)))))"
proof (cases "kLlm k")
  case None
  then show ?thesis using assms(2) by (simp add: Knowledge_Ask_def)
next
  case (Some llm)
  obtain r1 s1 where se: "Knowledge_Search h k question topK s = (r1, s1)" by (rule prod.exhaust)
  note hits = Search_hits [OF assms(1) se]
  show ?thesis
  proof (cases r1)
    case (Inl e)
    then have "r = Inl e" "s' = s1" using assms(2) Some se by (simp_all add: Knowledge_Ask_def)
    then show ?thesis using Some hits by simp
  next
    case (Inr hs)
    let ?prompt = "BuildUserPrompt question (map passage hs) DefaultMaxContextRunes"
    obtain r2 w where gen: "Generate llm SystemPrompt ?prompt (fst s1) = (r2, w)" by (rule prod.exhaust)
    have out: "s' = (w, snd s1)" "r = (case r2 of Inl e \<Rightarrow> Inl e | Inr t \<Rightarrow>
        Inr \<lparr>aText = t, aModel = Model llm, aHits = hs, aSources = Sources (map passage hs),
             aTopScore = (if hs = [] then 0 else hScore (hs ! 0))\<rparr>)"
      using assms(2) Some se Inr gen by (auto simp: Knowledge_Ask_def Let_def split: sum.splits)
    have src: "set (Sources (map passage hs)) = hSource ` set hs" by (auto simp: passage_def image_image)
    show ?thesis
    proof (cases r2)
      case (Inl e)
      then show ?thesis using Some out hits by simp
    next
      case (Inr t)
      define a where "a = \<lparr>aText = t, aModel = Model llm, aHits = hs, aSources = Sources (map passage hs),
             aTopScore = (if hs = [] then 0 else hScore (hs ! 0))\<rparr>"
      have r: "r = Inr a" using out(2) Inr by (simp add: a_def)
      have "int (length hs) \<le> max 1 topK" "list_all (shows_index (snd s)) hs" "snd s1 = snd s"
        using hits \<open>r1 = Inr hs\<close> by auto
      moreover have "\<exists>w. Generate llm SystemPrompt ?prompt w = (Inr t, fst s')" using gen out(1) Inr by auto
      moreover have "(if hs = [] then 0 else hScore (hs ! 0)) = (if hs = [] then 0 else hScore (hd hs))"
        by (simp add: hd_conv_nth)
      ultimately show ?thesis using Some out(1) src unfolding r by (simp add: a_def distinct_Sources)
    qed
  qed
qed

lemma Ask_rests_on_index_witness:
  "\<exists>a s'. Knowledge_Ask demo_host demo_kb ''q'' 3 ((), demo_pg) = (Inr a, s') \<and>
     aSources a = [''a.md''] \<and> list_all (shows_index demo_pg) (aHits a) \<and> snd s' = demo_pg"
proof -
  let ?run = "Knowledge_Ask demo_host demo_kb ''q'' 3 ((), demo_pg)"
  have "case fst ?run of Inl _ \<Rightarrow> False | Inr a \<Rightarrow> aSources a = [''a.md'']" by code_simp
  then obtain a s' where run: "?run = (Inr a, s')" "aSources a = [''a.md'']"
    by (cases ?run) (auto split: sum.splits)
  have ok: "db_ok (snd ((), demo_pg))" by (simp add: demo_pg_ok)
  from Ask_rests_on_index [OF ok run(1)] run show ?thesis by (simp add: demo_kb_def)
qed

end
