(* ===== verification/Opening.thy ===== *)
theory Opening
  imports Settings Pipeline
begin

text \<open>
  Opening a knowledge base: \<open>ConfigFromEnv\<close> (\<open>knowledge/config.go\<close>), \<open>Open\<close>, \<open>Close\<close> and \<open>Space\<close>
  (\<open>knowledge/knowledge.go\<close>), \<open>NewPool\<close> (\<open>storage/postgres.go\<close>) and \<open>Up\<close>
  (\<open>internal/migrate/migrate.go\<close>). The connection pool and goose are parameters; what the
  program takes from them and gives back is a log, so that what stays open can be read off.
\<close>

section \<open>Configuration\<close>

record config =
  cDSN :: gostring
  cPostgres :: Postgres
  cVaultPath :: gostring
  cChunkSize :: int
  cEmbedder :: embed_config
  cGenerator :: "llm_config option"
  cSkipMigrate :: bool

definition no_postgres :: Postgres where
  "no_postgres = \<lparr>pgHost = [], pgPort = [], pgUser = [], pgPassword = [], pgDatabase = [], pgSSLMode = []\<rparr>"

definition knowledge_ConfigFromEnv :: "parsing \<Rightarrow> (rune \<Rightarrow> rune) \<Rightarrow> environment \<Rightarrow> config result" where
  "knowledge_ConfigFromEnv ps ul env =
     (case DSNFromEnv env of
        Inl e \<Rightarrow> Inl e
      | Inr dsn \<Rightarrow>
          (case embed_ConfigFromEnv ps ul env of
             Inl e \<Rightarrow> Inl e
           | Inr embedCfg \<Rightarrow>
               (case llm_ConfigFromEnv ps ul env of
                  Inl e \<Rightarrow> Inl e
                | Inr llmCfg \<Rightarrow>
                    (case config_Int ps env ''CHUNK_SIZE'' DefaultChunkSize of
                       Inl e \<Rightarrow> Inl e
                     | Inr chunkSize \<Rightarrow>
                         Inr \<lparr>cDSN = dsn, cPostgres = no_postgres, cVaultPath = env ''VAULT_PATH'',
                              cChunkSize = chunkSize, cEmbedder = embedCfg, cGenerator = Some llmCfg,
                              cSkipMigrate = False\<rparr>))))"

section \<open>What is taken and given back\<close>

datatype resource = Pool | Conn | Lock | Adapter

datatype use = Took resource | Gave resource

text \<open>The calls to \<open>pgxpool\<close>, its \<open>database/sql\<close> adapter and goose.\<close>

record 'w cluster =
  pgxpoolNew :: "gostring \<Rightarrow> 'w \<Rightarrow> goerr option \<times> 'w"
  poolPing :: "'w \<Rightarrow> goerr option \<times> 'w"
  poolAcquire :: "'w \<Rightarrow> goerr option \<times> 'w"
  advisoryLock :: "'w \<Rightarrow> goerr option \<times> 'w"
  advisoryUnlock :: "'w \<Rightarrow> 'w"
  embeddedFS :: "goerr option"
  gooseProvider :: "'w \<Rightarrow> goerr option \<times> 'w"
  gooseUp :: "'w \<times> pg \<Rightarrow> goerr option \<times> 'w \<times> pg"

type_synonym 'w pooled = "'w \<times> pg \<times> use list"

definition NewPool :: "'w cluster \<Rightarrow> gostring \<Rightarrow> 'w pooled \<Rightarrow> goerr option \<times> 'w pooled" where
  "NewPool cl dsn = (\<lambda>(w, db, log).
     if trim_space dsn = [] then (Some (Plain ''database DSN is empty''), w, db, log)
     else (case pgxpoolNew cl dsn w of
             (Some e, w) \<Rightarrow> (Some (wrap ''connect to database'' e), w, db, log)
           | (None, w) \<Rightarrow> (None, w, db, log @ [Took Pool])))"

text \<open>The part of \<open>Up\<close> that runs under the lock, before the deferred calls.\<close>

definition migrate_locked :: "'w cluster \<Rightarrow> 'w \<times> pg \<Rightarrow> goerr option \<times> 'w \<times> pg" where
  "migrate_locked cl = (\<lambda>(w, db).
     case embeddedFS cl of
       Some e \<Rightarrow> (Some (wrap ''open embedded migrations'' e), w, db)
     | None \<Rightarrow>
         (case gooseProvider cl w of
            (Some e, w) \<Rightarrow> (Some (wrap ''configure migrations'' e), w, db)
          | (None, w) \<Rightarrow>
              (case gooseUp cl (w, db) of
                 (Some e, w, db) \<Rightarrow> (Some (wrap ''apply migrations'' e), w, db)
               | (None, w, db) \<Rightarrow> (None, w, db))))"

definition migrate_Up :: "'w cluster \<Rightarrow> 'w pooled \<Rightarrow> goerr option \<times> 'w pooled" where
  "migrate_Up cl = (\<lambda>(w, db, log).
     case poolAcquire cl w of
       (Some e, w) \<Rightarrow> (Some (wrap ''acquire connection for migration lock'' e), w, db, log)
     | (None, w) \<Rightarrow>
         (case advisoryLock cl w of
            (Some e, w) \<Rightarrow> (Some (wrap ''take migration lock'' e), w, db, log @ [Took Conn, Gave Conn])
          | (None, w) \<Rightarrow>
              (case migrate_locked cl (w, db) of
                 (err, w, db) \<Rightarrow>
                   (err, advisoryUnlock cl w, db,
                    log @ [Took Conn, Took Lock, Took Adapter, Gave Adapter, Gave Lock, Gave Conn]))))"

section \<open>Open\<close>

text \<open>\<open>Open\<close> from the moment it has a pool; the deferred release is in the caller.\<close>

definition open_pool ::
  "'w host \<Rightarrow> 'w deps \<Rightarrow> 'w cluster \<Rightarrow> config \<Rightarrow> 'w pooled \<Rightarrow> 'w knowledge result \<times> 'w pooled" where
  "open_pool h d cl cfg = (\<lambda>(w, db, log).
     case poolPing cl w of
       (Some e, w) \<Rightarrow> (Inl (wrap ''ping database'' e), w, db, log)
     | (None, w) \<Rightarrow>
         (case (if cSkipMigrate cfg then (None, w, db, log) else migrate_Up cl (w, db, log)) of
            (Some e, s) \<Rightarrow> (Inl e, s)
          | (None, w, db, log) \<Rightarrow>
              (case embed_New d (cEmbedder cfg) of
                 Inl e \<Rightarrow> (Inl e, w, db, log)
               | Inr embedder \<Rightarrow>
                   (case EnsureSpace (hDb h) (hSha h) (hLower h) (embedSpace embedder) (w, db) of
                      (Inl e, w, db) \<Rightarrow> (Inl e, w, db, log)
                    | (Inr space, w, db) \<Rightarrow>
                        (let k = \<lparr>VaultPath = cVaultPath cfg, kEmbed = embedder, kLlm = None, kSpace = space,
                                  chunkN = (if cChunkSize cfg \<le> 0 then DefaultChunkSize else cChunkSize cfg)\<rparr>
                         in case cGenerator cfg of
                              None \<Rightarrow> (Inr k, w, db, log)
                            | Some g \<Rightarrow>
                                (case llm_New d g of
                                   Inl e \<Rightarrow> (Inl e, w, db, log)
                                 | Inr llm \<Rightarrow> (Inr (k\<lparr>kLlm := Some llm\<rparr>), w, db, log)))))))"

definition Open ::
  "'w host \<Rightarrow> 'w deps \<Rightarrow> 'w cluster \<Rightarrow> config \<Rightarrow> 'w pooled \<Rightarrow> 'w knowledge result \<times> 'w pooled" where
  "Open h d cl cfg s =
     (case (if cDSN cfg = []
            then (case Postgres_validate (cPostgres cfg) of
                    Some e \<Rightarrow> Inl e
                  | None \<Rightarrow> Inr (Postgres_DSN (cPostgres cfg)))
            else Inr (cDSN cfg)) of
        Inl e \<Rightarrow> (Inl e, s)
      | Inr dsn \<Rightarrow>
          (case NewPool cl dsn s of
             (Some e, s) \<Rightarrow> (Inl e, s)
           | (None, s) \<Rightarrow>
               (case open_pool h d cl cfg s of
                  (Inl e, w, db, log) \<Rightarrow> (Inl e, w, db, log @ [Gave Pool])
                | (Inr k, s) \<Rightarrow> (Inr k, s))))"

definition Close :: "'w pooled \<Rightarrow> 'w pooled" where
  "Close = (\<lambda>(w, db, log). (w, db, log @ [Gave Pool]))"

definition knowledge_Space :: "'w knowledge \<Rightarrow> Space" where
  "knowledge_Space k = refSpace (kSpace k)"

section \<open>Nothing is left open\<close>

text \<open>
  What is held after a log: resources are given back in the opposite order, each once.
  \<open>None\<close> is a log that gives back something else than what was taken last.
\<close>

fun held :: "resource list \<Rightarrow> use list \<Rightarrow> resource list option" where
  "held rs [] = Some rs"
| "held rs (Took r # log) = held (r # rs) log"
| "held [] (Gave r # log) = None"
| "held (r' # rs) (Gave r # log) = (if r' = r then held rs log else None)"

lemma held_append: "held rs (log @ log') = (case held rs log of None \<Rightarrow> None | Some rs' \<Rightarrow> held rs' log')"
  by (induction rs log rule: held.induct) auto

lemma migrate_Up_held:
  "migrate_Up cl (w, db, log) = (r, w', db', log') \<Longrightarrow> held rs log = Some rs' \<Longrightarrow> held rs log' = Some rs'"
  by (auto simp: migrate_Up_def held_append split: prod.splits option.splits)

lemma open_pool_held:
  assumes "open_pool h d cl cfg (w, db, log) = (r, w', db', log')" "held rs log = Some rs'"
  shows "held rs log' = Some rs'"
proof -
  obtain e w1 where ping: "poolPing cl w = (e, w1)" by (rule prod.exhaust)
  show ?thesis
  proof (cases e)
    case (Some x)
    then show ?thesis using assms ping by (simp add: open_pool_def)
  next
    case None
    let ?mig = "if cSkipMigrate cfg then (None, w1, db, log) else migrate_Up cl (w1, db, log)"
    obtain m w2 db2 log2 where mig: "?mig = (m, w2, db2, log2)" by (cases ?mig) auto
    have "held rs log2 = Some rs'"
      using mig assms(2) migrate_Up_held [of cl w1 db log m w2 db2 log2 rs rs'] by (auto split: if_splits)
    moreover have "log' = log2" using assms(1) ping None mig
      by (auto simp: open_pool_def Let_def split: option.splits sum.splits prod.splits)
    ultimately show ?thesis by simp
  qed
qed

lemma Open_held:
  assumes "Open h d cl cfg (w, db, []) = (r, s')"
  shows "held [] (snd (snd s')) = Some (case r of Inl e \<Rightarrow> [] | Inr k \<Rightarrow> [Pool]) \<and>
    (\<forall>k. r = Inr k \<longrightarrow> held [] (snd (snd (Close s'))) = Some []) \<and>
    (cDSN cfg = [] \<and> Postgres_validate (cPostgres cfg) \<noteq> None \<longrightarrow> isl r \<and> s' = (w, db, []))"
proof -
  obtain w' db' log' where s': "s' = (w', db', log')" by (cases s') auto
  have new: "e = None \<and> log1 = [Took Pool] \<or> (\<exists>x. e = Some x) \<and> log1 = []"
    if "NewPool cl dsn (w, db, []) = (e, w1, db1, log1)" for dsn e w1 db1 log1
    using that by (auto simp: NewPool_def split: if_splits prod.splits option.splits)
  have pool: "held [] log2 = Some [Pool]" if "open_pool h d cl cfg (w1, db1, [Took Pool]) = (r', w2, db2, log2)"
    for w1 db1 r' w2 db2 log2 using that by (rule open_pool_held) simp
  have main: "held [] log' = Some (case r of Inl e \<Rightarrow> [] | Inr k \<Rightarrow> [Pool])"
    using assms unfolding s'
    by (auto simp: Open_def held_append dest!: new pool split: if_splits option.splits sum.splits prod.splits)
  moreover have "held [] (snd (snd (Close s'))) = Some []" if "r = Inr k" for k
    using main that by (simp add: Close_def held_append s')
  ultimately have "held [] (snd (snd s')) = Some (case r of Inl e \<Rightarrow> [] | Inr k \<Rightarrow> [Pool])"
    "\<forall>k. r = Inr k \<longrightarrow> held [] (snd (snd (Close s'))) = Some []" by (auto simp: s')
  then show ?thesis using assms by (auto simp: Open_def split: option.splits)
qed

text \<open>
  C18. Opening leaves nothing behind. However the pool, the server, goose and the two factories
  answer, the resources \<open>Open\<close> takes are given back in the opposite order and each once: if
  it fails nothing is held, neither pool nor connection nor advisory lock nor adapter; if
  it succeeds exactly the pool is, and \<open>Close\<close> gives it back. A configuration without
  a user or a database is refused before anything is taken.
\<close>

theorem Open_releases:
  assumes "Open h d cl cfg (w, db, []) = (r, s')"
  shows "held [] (snd (snd s')) = Some (case r of Inl e \<Rightarrow> [] | Inr k \<Rightarrow> [Pool]) \<and>
    (\<forall>k. r = Inr k \<longrightarrow> held [] (snd (snd (Close s'))) = Some []) \<and>
    (cDSN cfg = [] \<and> Postgres_validate (cPostgres cfg) \<noteq> None \<longrightarrow> isl r \<and> s' = (w, db, []))"
  using assms by (rule Open_held)

text \<open>A cluster whose server never fails, and the configuration of the offline provider.\<close>

definition demo_cluster :: "nat cluster" where
  "demo_cluster = \<lparr>pgxpoolNew = \<lambda>dsn w. (None, w), poolPing = \<lambda>w. (None, w), poolAcquire = \<lambda>w. (None, w),
     advisoryLock = \<lambda>w. (None, w), advisoryUnlock = \<lambda>w. w, embeddedFS = None,
     gooseProvider = \<lambda>w. (None, w), gooseUp = \<lambda>(w, db). (None, w, db)\<rparr>"

definition nat_host :: "nat host" where
  "nat_host = \<lparr>hCtx = \<lambda>w. None,
     hDb = \<lparr>fault = \<lambda>e. (Fine, e), violation = \<lambda>t. Plain t, now = \<lambda>e. 0, hnsw_max = 2000\<rparr>,
     hVec = \<lparr>cosine = \<lambda>a b. 0, one_minus = \<lambda>x. x, index_scan = \<lambda>e v rows. rows\<rparr>,
     hRoot = \<lambda>w. Inr demo_vault, hPrint = \<lambda>r. True, hLower = \<lambda>r. r, hSha = \<lambda>t. replicate 32 CHR 0x00\<rparr>"

definition demo_config :: config where
  "demo_config = \<lparr>cDSN = ''postgres://u:p@db:5432/rag'', cPostgres = no_postgres, cVaultPath = ''/v'', cChunkSize = 0,
     cEmbedder = fake_config 4, cGenerator = None, cSkipMigrate = False\<rparr>"

definition small_deps :: "nat deps" where
  "small_deps = demo_deps\<lparr>dFloats := int_floats\<lparr>f32_dec := \<lambda>f. f + 2\<rparr>\<rparr>"

definition demo_open :: "nat knowledge result \<times> nat pooled" where
  "demo_open = Open nat_host small_deps demo_cluster demo_config (0, empty_pg, [])"

lemma Open_releases_witness:
  "\<not> isl (fst demo_open) \<and> held [] (snd (snd (snd demo_open))) = Some [Pool] \<and>
   held [] (snd (snd (snd (Open nat_host small_deps (demo_cluster\<lparr>gooseUp := \<lambda>(w, db). (Some (Plain ''bad''), w, db)\<rparr>)
     demo_config (0, empty_pg, []))))) = Some []"
proof -
  let ?bad = "Open nat_host small_deps (demo_cluster\<lparr>gooseUp := \<lambda>(w, db). (Some (Plain ''bad''), w, db)\<rparr>)
     demo_config (0, empty_pg, [])"
  have "\<not> isl (fst demo_open)" "isl (fst ?bad)" by code_simp+
  then obtain k s' e s2 where r: "demo_open = (Inr k, s')" "?bad = (Inl e, s2)"
    by (metis prod.exhaust sum.exhaust fst_conv sum.disc(1) sum.disc(2))
  show ?thesis using Open_releases [OF r(1) [unfolded demo_open_def]] Open_releases [OF r(2)] unfolding r by simp
qed

section \<open>From a configuration to a complete index\<close>

lemma Open_Inr:
  assumes "Open h d cl cfg (w, db, log) = (Inr k, w', db', log')"
  obtains w1 db1 log1 w2 where "if cSkipMigrate cfg then db1 = db else (\<exists>w0 w3. gooseUp cl (w0, db) = (None, w3, db1))"
    "embed_New d (cEmbedder cfg) = Inr (kEmbed k)"
    "EnsureSpace (hDb h) (hSha h) (hLower h) (embedSpace (kEmbed k)) (w1, db1) = (Inr (kSpace k), w', db')"
    "chunkN k = (if cChunkSize cfg \<le> 0 then DefaultChunkSize else cChunkSize cfg)"
    "VaultPath k = cVaultPath cfg" "kLlm k = None \<longleftrightarrow> cGenerator cfg = None"
proof -
  have pool: "db0 = db" if "NewPool cl dsn (w, db, log) = (e, w0, db0, log0)" for dsn e w0 db0 log0
    using that by (auto simp: NewPool_def split: if_splits prod.splits option.splits)
  obtain w0 log0 where run: "open_pool h d cl cfg (w0, db, log0) = (Inr k, w', db', log')"
    using assms by (auto simp: Open_def dest!: pool split: if_splits option.splits sum.splits prod.splits)
  have up: "\<exists>w0 w3. gooseUp cl (w0, db0) = (None, w3, db1)" if "migrate_Up cl (w1, db0, log1) = (None, w2, db1, log2)"
    for w1 db0 log1 w2 db1 log2
    using that by (auto simp: migrate_Up_def migrate_locked_def split: prod.splits option.splits)
  from run show ?thesis
    by (auto simp: open_pool_def Let_def split: prod.splits option.splits sum.splits if_splits dest!: up intro!: that) blast+
qed

lemma embed_rounds_last:
  assumes "embed_rounds p claim save n s = Some y"
  shows "snd (fst y) = None \<longrightarrow> (\<exists>s0. claim pendingBatch s0 = (Inr [], snd y))"
proof (rule embed_rounds.raw_induct [OF _ assms])
  fix rounds p claim save n s y
  assume IH: "\<And>p claim save n s y. rounds p claim save n s = Some y \<Longrightarrow>
      snd (fst y) = None \<longrightarrow> (\<exists>s0. claim pendingBatch s0 = (Inr [], snd y))"
    and run: "(case claim pendingBatch s of
        (Inl e, s) \<Rightarrow> Some ((n, Some e), s)
      | (Inr claimed, s) \<Rightarrow>
          if claimed = [] then Some ((n, None), s)
          else (case embed_parts p save claimed 0 n s of
               ((n, Some e), s) \<Rightarrow> Some ((n, Some e), s)
             | ((n, None), s) \<Rightarrow> rounds p claim save n s)) = Some y"
  obtain c s1 where c: "claim pendingBatch s = (c, s1)" by (rule prod.exhaust)
  obtain r e s2 where parts: "embed_parts p save (projr c) 0 n s1 = ((r, e), s2)" by (metis prod.exhaust)
  show "snd (fst y) = None \<longrightarrow> (\<exists>s0. claim pendingBatch s0 = (Inr [], snd y))"
  proof (cases "\<exists>claimed. c = Inr claimed \<and> claimed \<noteq> [] \<and> e = None")
    case True
    then have "rounds p claim save r s2 = Some y" using run c parts by auto
    then show ?thesis by (rule IH)
  next
    case False
    then have "y = ((n, None), s1) \<and> c = Inr [] \<or> snd (fst y) \<noteq> None" using run c parts
      by (cases c; cases e; cases "projr c = []") auto
    then show ?thesis using c by auto
  qed
qed

lemma PendingChunks_table: "PendingChunks env ref n s = (Inr cs, s') \<Longrightarrow> table_of (snd s') (refTable ref) \<noteq> None"
  by (cases s) (auto simp: PendingChunks_def exec_def map_err_def split: prod.splits option.splits sum.splits fault.splits if_splits)

lemma Index_table:
  "Knowledge_Index h k s = Some ((res, None), s') \<Longrightarrow> table_of (snd s') (refTable (kSpace k)) \<noteq> None"
  by (auto simp: Index_unfold index_notes_def index_finish_def embedPending_def dest!: embed_rounds_last PendingChunks_table
      split: if_splits prod.splits option.splits sum.splits)

text \<open>
  From a configuration to a complete index. Let \<open>Open\<close> succeed, on a consistent database and
  with migrations that leave one. Then the knowledge base writes the space of its own
  provider into a table of exactly that dimension, cuts notes into chunks of a positive
  size, and has a generator exactly if one was configured. If \<open>Index\<close> on it, in any later
  world, ends without an error, then every chunk of the index has a vector, each of exactly
  the dimension of the space, and every scanned note is in the index.
\<close>

theorem Open_then_Index:
  assumes "db_ok db" "sorts_items (sortByIndex (dCodec d))" "Open h d cl cfg (w, db, log) = (Inr k, w', db', log')"
    "\<And>w0. db_ok (snd (snd (gooseUp cl (w0, db))))" "hRoot h w2 = Inr node" "names_ok node"
    "Knowledge_Index h k (w2, db') = Some ((res, None), s3)"
  shows "knowledge_Space k = embedSpace (kEmbed k) \<and> 1 \<le> chunkN k \<and> (kLlm k = None \<longleftrightarrow> cGenerator cfg = None) \<and>
    (\<exists>t. table_of db' (refTable (kSpace k)) = Some t \<and> tdim t = Dim (knowledge_Space k)) \<and>
    (\<forall>c\<in>set (chunkRows (snd s3)). \<exists>v. vector_of (snd s3) (refTable (kSpace k)) (cid c) = Some v \<and>
       int (length v) = Dim (knowledge_Space k)) \<and>
    (\<forall>n\<in>set (Notes (fst (scan_now h k w2))). index_of (snd s3) (notePath n) \<noteq> None)"
proof -
  from Open_Inr [OF assms(3)] obtain w1 db1 where o:
    "if cSkipMigrate cfg then db1 = db else (\<exists>w0 w3. gooseUp cl (w0, db) = (None, w3, db1))"
    "embed_New d (cEmbedder cfg) = Inr (kEmbed k)"
    "EnsureSpace (hDb h) (hSha h) (hLower h) (embedSpace (kEmbed k)) (w1, db1) = (Inr (kSpace k), w', db')"
    "chunkN k = (if cChunkSize cfg \<le> 0 then DefaultChunkSize else cChunkSize cfg)"
    "kLlm k = None \<longleftrightarrow> cGenerator cfg = None" by metis
  have "db_ok db1" using o(1) assms(1) assms(4) by (metis snd_conv)
  with EnsureSpace_cases [OF _ o(3)] obtain t where e: "db_ok db'" "refSpace (kSpace k) = embedSpace (kEmbed k)"
    "table_of db' (refTable (kSpace k)) = Some t" "tdim t = Dim (embedSpace (kEmbed k))" by auto
  let ?dim = "Dim (embedSpace (kEmbed k))"
  have typed: "embedding (Embed (kEmbed k)) (of_dim ?dim)" using New_embedding [OF assms(2) o(2)] by simp
  have fits: "int (length v) = tdim t'" if "db_ok db0" "table_of db0 name = Some t'" "vector_of db0 name c = Some v"
    for db0 name t' c v
  proof -
    have "(c, v) \<in> set (trows t')" using that(2,3) by (auto simp: vector_of_def dest: map_of_SomeD)
    moreover have "t' \<in> set (vecTables db0)" using that(2) by (auto simp: table_of_def dest: find_Some)
    ultimately show ?thesis using that(1) by (fastforce simp: db_ok_def tables_ok_def rows_ok_def)
  qed
  have before: "faithful (of_dim ?dim KindDocument) (kSpace k) (snd (w2, db'))"
    using fits [OF e(1,3)] e(4) by (auto simp: faithful_def of_dim_def)
  have now: "db_ok (snd (w2, db'))" "hRoot h (fst (w2, db')) = Inr node" using e(1) assms(5) by simp_all
  have after: "waiting (kSpace k) (snd s3) = []" "faithful (of_dim ?dim KindDocument) (kSpace k) (snd s3)"
    "\<forall>n\<in>set (Notes (fst (scan_now h k w2))). index_of (snd s3) (notePath n) \<noteq> None"
    using Index_in_line [OF now assms(6) typed before assms(7), unfolded fst_conv] by blast+
  have "\<exists>v. vector_of (snd s3) (refTable (kSpace k)) (cid c) = Some v \<and> int (length v) = ?dim"
    if "c \<in> set (chunkRows (snd s3))" for c
  proof -
    obtain t' where t': "table_of (snd s3) (refTable (kSpace k)) = Some t'" using Index_table [OF assms(7)] by auto
    then have "set (pending_rows (snd s3) t') = {}" using after(1) by (simp add: waiting_def pending_def)
    then have "cid c \<in> fst ` set (trows t')" using that by (auto simp: pending_rows_def)
    then obtain v where "map_of (trows t') (cid c) = Some v" by (metis map_of_eq_None_iff not_None_eq)
    then have v: "vector_of (snd s3) (refTable (kSpace k)) (cid c) = Some v" using t' by (simp add: vector_of_def)
    then show ?thesis using after(2) that by (auto simp: faithful_def of_dim_def)
  qed
  moreover have "1 \<le> chunkN k" using o(4) by (simp add: DefaultChunkSize_def)
  ultimately show ?thesis using e o(5) after(3) by (simp add: knowledge_Space_def)
qed

lemma Open_then_Index_witness:
  "\<exists>k s res s3. demo_open = (Inr k, s) \<and> Knowledge_Index nat_host k (7, fst (snd s)) = Some ((res, None), s3) \<and>
     chunkRows (snd s3) \<noteq> [] \<and>
     (\<forall>c\<in>set (chunkRows (snd s3)). \<exists>v. vector_of (snd s3) (refTable (kSpace k)) (cid c) = Some v \<and> int (length v) = 4)"
proof -
  have srt: "sorts_items (sortByIndex (dCodec small_deps))"
    by (simp add: sorts_items_def demo_codec_def demo_deps_def small_deps_def)
  have up: "db_ok (snd (snd (gooseUp demo_cluster (w0, empty_pg))))" for w0
    by (simp add: demo_cluster_def db_ok_empty)
  have root: "hRoot nat_host 7 = Inr demo_vault" by (simp add: nat_host_def)
  have names: "names_ok demo_vault" by code_simp
  have run: "case demo_open of (Inl _, _) \<Rightarrow> False | (Inr k, s) \<Rightarrow>
     (case Knowledge_Index nat_host k (7, fst (snd s)) of None \<Rightarrow> False
      | Some ((res, err), s3) \<Rightarrow> err = None \<and> chunkRows (snd s3) \<noteq> [] \<and> Dim (embedSpace (kEmbed k)) = 4)"
    by code_simp
  obtain k w' db' log' where o: "demo_open = (Inr k, w', db', log')"
    using run by (metis (no_types, lifting) case_prod_conv prod.exhaust sum.case(1) sum.exhaust)
  from run [unfolded o] obtain res s3 where i: "Knowledge_Index nat_host k (7, db') = Some ((res, None), s3)"
    "chunkRows (snd s3) \<noteq> []" "Dim (embedSpace (kEmbed k)) = 4"
    by (auto split: option.splits prod.splits)
  have "\<forall>c\<in>set (chunkRows (snd s3)). \<exists>v. vector_of (snd s3) (refTable (kSpace k)) (cid c) = Some v \<and> int (length v) = 4"
    using Open_then_Index [OF db_ok_empty srt o [unfolded demo_open_def] up root names i(1)] i(3) unfolding knowledge_Space_def by auto
  with i(1,2) o show ?thesis by (intro exI [of _ k] exI [of _ "(w', db', log')"] exI [of _ res] exI [of _ s3]) simp
qed

end
