(* ===== verification/Reindex.thy ===== *)
theory Reindex
  imports Knowledge "HOL-Library.Multiset"
begin

text \<open>
  Background indexing (\<open>internal/httpapi/reindex.go\<close>): the status of the current or last pass,
  and the goroutines that share it. Requests and passes interleave at the mutex, so the
  model is a step relation whose steps are the critical sections: a request begins a pass
  or is turned away, a pass ends, and a request reads the status in a later step of its own.
\<close>

section \<open>The status\<close>

definition stateIdle :: gostring where "stateIdle = ''idle''"
definition stateRunning :: gostring where "stateRunning = ''running''"
definition stateDone :: gostring where "stateDone = ''done''"
definition stateFailed :: gostring where "stateFailed = ''failed''"

lemmas state_defs = stateIdle_def stateRunning_def stateDone_def stateFailed_def

record indexStatus =
  State :: gostring
  StartedAt :: "int option"
  FinishedAt :: "int option"
  Result :: "IndexResult option"
  Error :: gostring

definition newIndexer :: indexStatus where
  "newIndexer = \<lparr>State = stateIdle, StartedAt = None, FinishedAt = None, Result = None, Error = []\<rparr>"

definition start :: "int \<Rightarrow> indexStatus \<Rightarrow> bool \<times> indexStatus" where
  "start clock st =
     (if State st = stateRunning then (False, st)
      else (True, \<lparr>State = stateRunning, StartedAt = Some clock, FinishedAt = None, Result = None, Error = []\<rparr>))"

text \<open>The end of \<open>run\<close>, once \<open>Index\<close> has returned its result and error.\<close>

definition run_end :: "int \<Rightarrow> IndexResult \<Rightarrow> goerr option \<Rightarrow> indexStatus \<Rightarrow> indexStatus" where
  "run_end clock res err st =
     (let st = st\<lparr>FinishedAt := Some clock, Result := Some res\<rparr>
      in case err of
           Some e \<Rightarrow> st\<lparr>State := stateFailed, Error := err_text e\<rparr>
         | None \<Rightarrow> st\<lparr>State := stateDone\<rparr>)"

definition snapshot :: "indexStatus \<Rightarrow> indexStatus" where
  "snapshot st = st"

section \<open>Requests and passes\<close>

text \<open>
  Besides the status: the passes that run, and the requests to \<open>/reindex\<close> between \<open>start\<close> and
  \<open>snapshot\<close>, each with what \<open>start\<close> told it.
\<close>

record indexing =
  ixStatus :: indexStatus
  ixPasses :: nat
  ixAsked :: "bool multiset"

definition idle_indexing :: indexing where
  "idle_indexing = \<lparr>ixStatus = newIndexer, ixPasses = 0, ixAsked = {#}\<rparr>"

datatype ix_event =
    Begun int
  | TurnedAway
  | Ended int IndexResult "goerr option"
  | Told int indexStatus

text \<open>The two steps of \<open>handleReindex\<close>, as functions: what \<open>start\<close> does, and the answer.\<close>

definition ask_reindex :: "int \<Rightarrow> indexing \<Rightarrow> bool \<times> indexing" where
  "ask_reindex clock ix =
     (case start clock (ixStatus ix) of
        (began, st) \<Rightarrow>
          (began, ix\<lparr>ixStatus := st, ixPasses := ixPasses ix + (if began then 1 else 0),
                     ixAsked := add_mset began (ixAsked ix)\<rparr>))"

definition answer_reindex :: "bool \<Rightarrow> indexing \<Rightarrow> (int \<times> indexStatus) \<times> indexing" where
  "answer_reindex began ix =
     ((if began then 202 else 409, snapshot (ixStatus ix)), ix\<lparr>ixAsked := ixAsked ix - {#began#}\<rparr>)"

inductive ix_step :: "indexing \<Rightarrow> ix_event \<Rightarrow> indexing \<Rightarrow> bool" where
  begin_pass: "ask_reindex clock ix = (True, ix') \<Longrightarrow> ix_step ix (Begun clock) ix'"
| turn_away: "ask_reindex clock ix = (False, ix') \<Longrightarrow> ix_step ix TurnedAway ix'"
| answer: "began \<in># ixAsked ix \<Longrightarrow> answer_reindex began ix = ((code, st), ix') \<Longrightarrow> ix_step ix (Told code st) ix'"
| poll: "ix_step ix (Told 200 (snapshot (ixStatus ix))) ix"
| end_pass: "0 < ixPasses ix \<Longrightarrow>
    ix_step ix (Ended clock res err)
      (ix\<lparr>ixStatus := run_end clock res err (ixStatus ix), ixPasses := ixPasses ix - 1\<rparr>)"

inductive_simps ix_step_simps: "ix_step ix e ix'"

inductive ix_run :: "indexing \<Rightarrow> ix_event list \<Rightarrow> indexing \<Rightarrow> bool" where
  nothing: "ix_run ix [] ix"
| further: "ix_run ix es ix1 \<Longrightarrow> ix_step ix1 e ix2 \<Longrightarrow> ix_run ix (es @ [e]) ix2"

section \<open>What a caller sees\<close>

text \<open>The contract: at most one pass at a time, and every answer shows the phase it is given in.\<close>

datatype phase = Idle | Running int | Over int int IndexResult "goerr option"

fun running :: "phase \<Rightarrow> bool" where
  "running (Running t) = True"
| "running _ = False"

fun shown :: "phase \<Rightarrow> indexStatus" where
  "shown Idle = newIndexer"
| "shown (Running t) = \<lparr>State = stateRunning, StartedAt = Some t, FinishedAt = None, Result = None, Error = []\<rparr>"
| "shown (Over t t' res err) =
     \<lparr>State = (if err = None then stateDone else stateFailed), StartedAt = Some t, FinishedAt = Some t',
      Result = Some res, Error = (case err of None \<Rightarrow> [] | Some e \<Rightarrow> err_text e)\<rparr>"

fun phase_step :: "phase \<Rightarrow> ix_event \<Rightarrow> phase option" where
  "phase_step p (Begun t) = (if running p then None else Some (Running t))"
| "phase_step p TurnedAway = (if running p then Some p else None)"
| "phase_step (Running t) (Ended t' res err) = Some (Over t t' res err)"
| "phase_step p (Ended t' res err) = None"
| "phase_step p (Told code st) = (if st = shown p then Some p else None)"

fun phase_run :: "phase \<Rightarrow> ix_event list \<Rightarrow> phase option" where
  "phase_run p [] = Some p"
| "phase_run p (e # es) = (case phase_step p e of None \<Rightarrow> None | Some p' \<Rightarrow> phase_run p' es)"

lemma phase_run_snoc: "phase_run p es = Some p' \<Longrightarrow> phase_run p (es @ [e]) = phase_step p' e"
  by (induction p es rule: phase_run.induct) (auto split: option.splits)

lemma shown_running: "State (shown p) = stateRunning \<longleftrightarrow> running p"
  by (cases p) (auto simp: newIndexer_def state_defs)

text \<open>One step keeps the status in line with the phase.\<close>

definition in_phase :: "phase \<Rightarrow> indexing \<Rightarrow> bool" where
  "in_phase p ix \<longleftrightarrow> ixStatus ix = shown p \<and> ixPasses ix = (if running p then 1 else 0)"

lemma step_simulated:
  assumes "ix_step ix e ix'" "in_phase p ix"
  shows "\<exists>p'. phase_step p e = Some p' \<and> in_phase p' ix'"
  using assms
proof (cases rule: ix_step.cases)
  case (begin_pass clock)
  then have "\<not> running p" "ix' = ix\<lparr>ixStatus := shown (Running clock), ixPasses := 1, ixAsked := ixAsked ix'\<rparr>"
    using assms(2) shown_running [of p]
    by (auto simp: ask_reindex_def start_def in_phase_def split: if_splits)
  then show ?thesis using begin_pass(1) by (simp add: in_phase_def) (metis indexing.select_convs(1,2) indexing.update_convs(1-3) indexing.surjective)
next
  case (turn_away clock)
  then have "running p" "ixStatus ix' = ixStatus ix" "ixPasses ix' = ixPasses ix"
    using assms(2) shown_running [of p]
    by (auto simp: ask_reindex_def start_def in_phase_def split: if_splits)
  then show ?thesis using turn_away(1) assms(2) by (simp add: in_phase_def)
next
  case (answer began code st)
  then show ?thesis using assms(2) by (auto simp: answer_reindex_def snapshot_def in_phase_def)
next
  case poll
  then show ?thesis using assms(2) by (simp add: snapshot_def in_phase_def)
next
  case (end_pass clock res err)
  then obtain t where "p = Running t" using assms(2) by (cases p) (auto simp: in_phase_def)
  then show ?thesis using end_pass assms(2)
    by (cases err) (simp_all add: in_phase_def run_end_def Let_def)
qed

lemma run_simulated:
  "ix_run ix es ix' \<Longrightarrow> in_phase p ix \<Longrightarrow> \<exists>p'. phase_run p es = Some p' \<and> in_phase p' ix'"
proof (induction rule: ix_run.induct)
  case (further ix es ix1 e ix2)
  then show ?case using step_simulated phase_run_snoc by metis
qed simp

lemma passes_counted:
  "ix_step ix e ix' \<Longrightarrow> ixPasses ix' + (if \<exists>t r x. e = Ended t r x then 1 else 0) =
     ixPasses ix + (if \<exists>t. e = Begun t then 1 else 0)"
  by (cases rule: ix_step.cases) (auto simp: ask_reindex_def answer_reindex_def case_prod_beta)

text \<open>
  C12. However requests and passes interleave, the indexer keeps its contract. The sequence of
  what happens is one the phase automaton allows: a pass begins only when none runs, a
  request is turned away only while one does, only a running pass ends, and every answer,
  of a poll or of a request to reindex, is exactly the status of the phase it is given in,
  with the times and the result of the pass that began last. There are never two passes
  at once, and as many have begun as have ended or still run.
\<close>

theorem reindex_meets_contract:
  assumes "ix_run idle_indexing es ix"
  shows "\<exists>p. phase_run Idle es = Some p \<and> ixStatus ix = shown p \<and> ixPasses ix = (if running p then 1 else 0) \<and>
    length (filter (\<lambda>e. \<exists>t. e = Begun t) es) = length (filter (\<lambda>e. \<exists>t r x. e = Ended t r x) es) + ixPasses ix"
proof -
  have "in_phase Idle idle_indexing" by (simp add: in_phase_def idle_indexing_def)
  from run_simulated [OF assms this] obtain p where p: "phase_run Idle es = Some p" "in_phase p ix" by blast
  have count: "length (filter (\<lambda>e. \<exists>t. e = Begun t) es) = length (filter (\<lambda>e. \<exists>t r x. e = Ended t r x) es) + ixPasses ix"
    using assms
  proof (induction "idle_indexing" es ix rule: ix_run.induct)
    case (further es ix1 e ix2)
    then show ?case using passes_counted [OF further(3)] by (auto split: if_splits)
  qed (simp add: idle_indexing_def)
  with p show ?thesis by (auto simp: in_phase_def)
qed

definition some_result :: IndexResult where
  "some_result = no_result\<lparr>NotesWritten := 3\<rparr>"

text \<open>Two requests: the second is turned away, the pass ends, and only then the second is answered.\<close>

definition late_answer :: "ix_event list" where
  "late_answer = [Begun 10, TurnedAway, Ended 25 some_result None, Told 409 (shown (Over 10 25 some_result None)),
     Told 202 (shown (Over 10 25 some_result None))]"

lemma late_answer_run: "\<exists>ix. ix_run idle_indexing late_answer ix"
proof -
  let ?r = "shown (Running 10)" and ?o = "shown (Over 10 25 some_result None)"
  let ?ix = "\<lambda>st n a. \<lparr>ixStatus = st, ixPasses = n, ixAsked = a\<rparr>"
  have "ix_step idle_indexing (Begun 10) (?ix ?r 1 {#True#})"
    by (rule begin_pass) (simp add: ask_reindex_def start_def idle_indexing_def newIndexer_def state_defs)
  moreover have "ix_step (?ix ?r 1 {#True#}) TurnedAway (?ix ?r 1 {#False, True#})"
    by (rule turn_away [of 11]) (simp add: ask_reindex_def start_def)
  moreover have "ix_step (?ix ?r 1 {#False, True#}) (Ended 25 some_result None) (?ix ?o 0 {#False, True#})"
    using end_pass [of "?ix ?r 1 {#False, True#}" 25 some_result None] by (simp add: run_end_def Let_def)
  moreover have "ix_step (?ix ?o 0 {#False, True#}) (Told 409 ?o) (?ix ?o 0 {#True#})"
    by (rule answer [of False]) (simp_all add: answer_reindex_def snapshot_def)
  moreover have "ix_step (?ix ?o 0 {#True#}) (Told 202 ?o) (?ix ?o 0 {#})"
    by (rule answer [of True]) (simp_all add: answer_reindex_def snapshot_def)
  ultimately have "ix_run idle_indexing ((((([] @ [Begun 10]) @ [TurnedAway]) @ [Ended 25 some_result None]) @
      [Told 409 ?o]) @ [Told 202 ?o]) (?ix ?o 0 {#})"
    by (blast intro: ix_run.intros)
  then show ?thesis by (auto simp: late_answer_def)
qed

lemma reindex_meets_contract_witness:
  "phase_run Idle late_answer = Some (Over 10 25 some_result None) \<and> (\<exists>ix. ix_run idle_indexing late_answer ix \<and> ixPasses ix = 0)"
proof -
  obtain ix where ix: "ix_run idle_indexing late_answer ix" using late_answer_run by blast
  from reindex_meets_contract [OF this] obtain p where
    "phase_run Idle late_answer = Some p" "ixPasses ix = (if running p then 1 else 0)" by blast
  moreover have "phase_run Idle late_answer = Some (Over 10 25 some_result None)" by (simp add: late_answer_def)
  ultimately show ?thesis using ix by auto
qed

text \<open>So a request turned away because a pass runs may be told that the pass is over.\<close>

lemma turned_away_but_done:
  "\<exists>es ix st. ix_run idle_indexing es ix \<and> Told 409 st \<in> set es \<and> State st = stateDone"
  using late_answer_run by (force simp: late_answer_def)

end
