(* ===== verification/Http.thy ===== *)
theory Http
  imports Reindex Json
begin

text \<open>
  What every request passes through (\<open>internal/httpapi\<close>): the response writer with the
  recorder of \<open>middleware.go\<close>, \<open>writeJSON\<close> and \<open>writeError\<close> with the encoding of
  \<open>Json\<close>, the wrappers of \<open>middleware.go\<close>, and the check of \<open>auth.go\<close>. A handler is a
  function of the request, the writer and the state; its first result is the value of a
  panic, if it panics. A connection that breaks while an answer is written is left out, and
  so is the time in a log line.
\<close>

section \<open>Encoding an answer\<close>

text \<open>A field with \<open>omitempty\<close>.\<close>

definition unless_empty :: "gostring \<Rightarrow> gostring \<Rightarrow> (gostring \<times> json) list" where
  "unless_empty key s = (if s = [] then [] else [(key, JStr s)])"

section \<open>Requests and the response writer\<close>

text \<open>
  A request as a handler sees it: \<open>rSegs\<close> are the unescaped segments of its path, \<open>rRedirect\<close> the
  canonical URL when the path is not canonical, \<open>rID\<close> and \<open>rCtx\<close> what its context carries.
\<close>

record 's request =
  rMethod :: gostring
  rPath :: gostring
  rSegs :: "gostring list"
  rRedirect :: "gostring option"
  rHeaders :: "gostring \<Rightarrow> gostring"
  rBytes :: "gostring \<times> goerr option"
  rID :: gostring
  rCtx :: "'s \<Rightarrow> sentinel option"

datatype logline =
    RequestLine gostring gostring gostring int nat
  | PanicLine gostring gostring gostring
  | ErrorLine gostring gostring gostring

text \<open>
  The writer: \<open>wSent\<close> are the headers at the moment the status was sent, \<open>wRec\<close> the recorder's
  status and bytes while one is wrapped around the writer.
\<close>

record writer =
  wHeader :: "(gostring \<times> gostring) list"
  wStatus :: int
  wSent :: "(gostring \<times> gostring) list"
  wBody :: gostring
  wRec :: "(int \<times> nat) option"
  wLog :: "logline list"

definition fresh :: writer where
  "fresh = \<lparr>wHeader = [], wStatus = 0, wSent = [], wBody = [], wRec = None, wLog = []\<rparr>"

type_synonym 's handler = "'s request \<Rightarrow> writer \<Rightarrow> 's \<Rightarrow> gostring option \<times> writer \<times> 's"

definition set_header :: "gostring \<Rightarrow> gostring \<Rightarrow> writer \<Rightarrow> writer" where
  "set_header k v w = w\<lparr>wHeader := filter (\<lambda>kv. fst kv \<noteq> k) (wHeader w) @ [(k, v)]\<rparr>"

definition add_log :: "logline \<Rightarrow> writer \<Rightarrow> writer" where
  "add_log l w = w\<lparr>wLog := wLog w @ [l]\<rparr>"

text \<open>The status goes out once, with the headers as they are; later calls change nothing.\<close>

definition send_status :: "int \<Rightarrow> writer \<Rightarrow> writer" where
  "send_status code w = (if wStatus w = 0 then w\<lparr>wStatus := code, wSent := wHeader w\<rparr> else w)"

definition WriteHeader :: "int \<Rightarrow> writer \<Rightarrow> writer" where
  "WriteHeader code w =
     send_status code
       (w\<lparr>wRec := map_option (\<lambda>(status, n). (if status = 0 then code else status, n)) (wRec w)\<rparr>)"

definition Write :: "gostring \<Rightarrow> writer \<Rightarrow> writer" where
  "Write b w =
     (let w = send_status 200 w
      in w\<lparr>wBody := wBody w @ b,
           wRec := map_option (\<lambda>(status, n). (if status = 0 then 200 else status, n + length b)) (wRec w)\<rparr>)"

text \<open>\<open>http.Error\<close>.\<close>

definition http_Error :: "gostring \<Rightarrow> int \<Rightarrow> writer \<Rightarrow> writer" where
  "http_Error msg code w =
     Write (msg @ [newline])
       (WriteHeader code
         (set_header ''X-Content-Type-Options'' ''nosniff''
           (set_header ''Content-Type'' ''text/plain; charset=utf-8''
             (w\<lparr>wHeader := filter (\<lambda>kv. fst kv \<noteq> ''Content-Length'') (wHeader w)\<rparr>))))"

text \<open>The value to marshal is \<open>None\<close> when \<open>json.Marshal\<close> fails on it.\<close>

definition encode_failed :: gostring where
  "encode_failed = encode (JObj [(''error'', JStr ''failed to encode response'')])"

definition writeJSON :: "int \<Rightarrow> json option \<Rightarrow> writer \<Rightarrow> writer" where
  "writeJSON status v w =
     (case v of
        None \<Rightarrow> http_Error encode_failed 500 w
      | Some v \<Rightarrow>
          Write (encode v) (WriteHeader status (set_header ''Content-Type'' ''application/json; charset=utf-8'' w)))"

definition errorResponse :: "gostring \<Rightarrow> gostring \<Rightarrow> json" where
  "errorResponse msg rid = JObj ((''error'', JStr msg) # unless_empty ''request_id'' rid)"

definition writeError :: "'s request \<Rightarrow> int \<Rightarrow> gostring \<Rightarrow> writer \<Rightarrow> writer" where
  "writeError r status msg w = writeJSON status (Some (errorResponse msg (rID r))) w"

section \<open>The wrappers\<close>

definition RequestID :: "'s request \<Rightarrow> gostring" where
  "RequestID r = rID r"

text \<open>\<open>rand8\<close> is \<open>rand.Read\<close> of eight bytes.\<close>

definition withRequestID :: "('s \<Rightarrow> gostring \<times> 's) \<Rightarrow> 's handler \<Rightarrow> 's handler" where
  "withRequestID rand8 next_handler r w s =
     (let sent = rHeaders r ''X-Request-Id'';
          (rid, s) = (if sent = [] then (case rand8 s of (b, s) \<Rightarrow> (hex_string b, s)) else (sent, s))
      in next_handler (r\<lparr>rID := rid\<rparr>) (set_header ''X-Request-Id'' rid w) s)"

text \<open>A panic leaves before the line is logged: the call is not deferred.\<close>

definition withLogging :: "'s handler \<Rightarrow> 's handler" where
  "withLogging next_handler r w s =
     (case next_handler r (w\<lparr>wRec := Some (0, 0)\<rparr>) s of
        (Some v, w', s) \<Rightarrow> (Some v, w'\<lparr>wRec := wRec w\<rparr>, s)
      | (None, w', s) \<Rightarrow>
          (let (status, n) = (case wRec w' of Some x \<Rightarrow> x | None \<Rightarrow> (0, 0));
               status = (if status = 0 then 200 else status)
           in (None, add_log (RequestLine (RequestID r) (rMethod r) (rPath r) status n) (w'\<lparr>wRec := wRec w\<rparr>), s)))"

definition withRecover :: "'s handler \<Rightarrow> 's handler" where
  "withRecover next_handler r w s =
     (case next_handler r w s of
        (Some v, w, s) \<Rightarrow>
          (None, writeError r 500 ''internal error'' (add_log (PanicLine (RequestID r) (rPath r) v) w), s)
      | (None, w, s) \<Rightarrow> (None, w, s))"

text \<open>\<open>expired d s s'\<close>: between \<open>s\<close> and \<open>s'\<close> the duration \<open>d\<close> has passed.\<close>

definition withTimeout :: "(Duration \<Rightarrow> 's \<Rightarrow> 's \<Rightarrow> bool) \<Rightarrow> Duration \<Rightarrow> 's handler \<Rightarrow> 's handler" where
  "withTimeout expired d next_handler r w s =
     next_handler
       (r\<lparr>rCtx := \<lambda>s'. (case rCtx r s' of
                Some e \<Rightarrow> Some e
              | None \<Rightarrow> if expired d s s' then Some DeadlineExceeded else None)\<rparr>) w s"

section \<open>Authentication\<close>

definition publicPaths :: "gostring \<Rightarrow> bool" where
  "publicPaths p \<longleftrightarrow> p = ''/health''"

definition lower_ascii :: "char \<Rightarrow> nat" where
  "lower_ascii c = (if 65 \<le> byte c \<and> byte c \<le> 90 then byte c + 32 else byte c)"

definition equalFold :: "gostring \<Rightarrow> gostring \<Rightarrow> bool" where
  "equalFold a b \<longleftrightarrow> length a = length b \<and> list_all (\<lambda>(x, y). lower_ascii x = lower_ascii y) (zip a b)"

definition bearer :: "gostring \<Rightarrow> gostring" where
  "bearer header =
     (if length header \<le> 7 \<or> \<not> equalFold (take 7 header) ''Bearer '' then [] else drop 7 header)"

definition withAuth :: "(gostring \<Rightarrow> gostring) \<Rightarrow> gostring \<Rightarrow> 's handler \<Rightarrow> 's handler" where
  "withAuth sha token next_handler =
     (if token = [] then next_handler
      else (\<lambda>r w s.
        if publicPaths (rPath r) then next_handler r w s
        else if sha (bearer (rHeaders r ''Authorization'')) \<noteq> sha token then
          (None, writeError r 401 ''missing or invalid token''
                   (set_header ''WWW-Authenticate'' (''Bearer realm='' @ [dquote] @ ''rag'' @ [dquote]) w), s)
        else next_handler r w s))"

text \<open>The address of a listener: a TCP address with its IP's bytes, or something else.\<close>

datatype net_addr = TCPAddr "nat list" | OtherAddr

text \<open>\<open>net.IP.IsLoopback\<close>: 127.0.0.0/8, also as an IPv4-mapped address, and ::1.\<close>

definition to4 :: "nat list \<Rightarrow> nat list option" where
  "to4 ip =
     (if length ip = 4 then Some ip
      else if length ip = 16 \<and> take 12 ip = replicate 10 0 @ [255, 255] then Some (drop 12 ip)
      else None)"

definition IsLoopback :: "nat list \<Rightarrow> bool" where
  "IsLoopback ip \<longleftrightarrow> (case to4 ip of Some ip4 \<Rightarrow> ip4 ! 0 = 127 | None \<Rightarrow> ip = replicate 15 0 @ [1])"

definition reachableFromNetwork :: "net_addr \<Rightarrow> bool" where
  "reachableFromNetwork addr = (case addr of TCPAddr ip \<Rightarrow> \<not> IsLoopback ip | OtherAddr \<Rightarrow> True)"

end
