(* ===== verification/Body.thy ===== *)
theory Body
  imports Http Unmarshal
begin

text \<open>
  The request bodies of \<open>internal/httpapi/handlers.go\<close>: \<open>decodeBody\<close> decodes the first value of
  the stream under a limit, with unknown fields refused, into the struct of the endpoint.
\<close>

section \<open>The requests\<close>

definition maxRequestBody :: nat where
  "maxRequestBody = 65536"

text \<open>\<open>http.MaxBytesReader\<close>.\<close>

definition max_bytes :: "nat \<Rightarrow> gostring \<times> goerr option \<Rightarrow> gostring \<times> goerr option" where
  "max_bytes n b =
     (if length (fst b) > n then (take n (fst b), Some (Plain ''http: request body too large'')) else b)"

text \<open>\<open>DisallowUnknownFields\<close>; no request has a number with a fraction.\<close>

definition exacting :: decoder where
  "exacting = \<lparr>strict = True, parseFloat32 = \<lambda>n. None\<rparr>"

definition decodeBody ::
  "(gostring \<times> goerr option \<Rightarrow> fault \<Rightarrow> goerr) \<Rightarrow> 't request \<Rightarrow> gotype \<Rightarrow> goval result" where
  "decodeBody wording r t = Decode exacting wording t (max_bytes maxRequestBody (rBytes r))"

definition searchRequest :: gotype where
  "searchRequest = TStruct [(''query'', TString), (''k'', TInt)]"

definition askRequest :: gotype where
  "askRequest = TStruct [(''question'', TString), (''k'', TInt)]"

section \<open>Bodies are read as they are written\<close>

lemma decodeBody_written:
  assumes "rBytes r = (encode (JObj kvs) @ t, e)" "length (encode (JObj kvs)) \<le> maxRequestBody" "writable 0 (JObj kvs)"
  shows "decodeBody wording r ty =
     (case assign exacting ty (cleaned (JObj kvs)) (zero_of ty) None of
        (v, None) \<Rightarrow> Inr v
      | (_, Some f) \<Rightarrow> Inl (wording (max_bytes maxRequestBody (rBytes r)) f))"
proof -
  have "\<exists>t' e'. max_bytes maxRequestBody (rBytes r) = (encode (JObj kvs) @ t', e')"
    using assms(1,2) by (auto simp: max_bytes_def simp del: encode.simps)
  then obtain t' e' where b: "max_bytes maxRequestBody (rBytes r) = (encode (JObj kvs) @ t', e')" by blast
  show ?thesis unfolding decodeBody_def b by (rule Decode_written [OF assms(3)])
qed

text \<open>A request with its text and its number of hits, the fields in either order.\<close>

definition asks :: "gostring \<Rightarrow> gostring \<Rightarrow> int \<Rightarrow> (gostring \<times> json) list \<Rightarrow> bool" where
  "asks name q k kvs \<longleftrightarrow>
     kvs = [(name, JStr q), (''k'', JNum (show_int k))] \<or> kvs = [(''k'', JNum (show_int k)), (name, JStr q)]"

lemma asks_writable: "asks name q k kvs \<Longrightarrow> writable 0 (JObj kvs)"
  by (auto simp: asks_def number_text_show_int maxNestingDepth_def)

lemma request_read:
  assumes "asks name q k kvs" "name = ''query'' \<or> name = ''question''" "int64_range k"
    and "rBytes r = (encode (JObj kvs) @ t, e)" "length (encode (JObj kvs)) \<le> maxRequestBody"
  shows "decodeBody wording r (TStruct [(name, TString), (''k'', TInt)]) =
           Inr (VStruct [(name, VString (to_valid q)), (''k'', VInt k)])"
proof -
  let ?fs = "[(name, TString), (''k'', TInt)]" and ?vs = "[(name, VString (to_valid q)), (''k'', VInt k)]"
  have ascii: "to_valid ''k'' = ''k''" "to_valid name = name" and ne: "name \<noteq> ''k''"
    using assms(2) by (auto intro!: to_valid_ascii)
  have "full exacting (TStruct ?fs) (cleaned (JObj kvs)) (VStruct ?vs)"
    using assms(1) ne full_atoms(1,2) assms(3)
    by (auto simp: asks_def ascii names_fields_def named_def find_field_def typed_fields_def intro!: full_struct)
  from full_zero [OF this] show ?thesis
    unfolding decodeBody_written [OF assms(4,5) asks_writable [OF assms(1)]] by (simp only: prod.case option.case)
qed

lemma unknown_refused:
  assumes "kv \<in> set kvs" "find_field (map fst fs) (to_valid (fst kv)) = None" "writable 0 (JObj kvs)"
    and "rBytes r = (encode (JObj kvs) @ t, e)" "length (encode (JObj kvs)) \<le> maxRequestBody"
  shows "\<exists>err. decodeBody wording r (TStruct fs) = Inl err"
proof -
  have "snd (assign_fields exacting fs (map (\<lambda>kv. (to_valid (fst kv), cleaned (snd kv))) kvs) vals None) \<noteq> None" for vals
    using assms(1,2) by (intro unknown_field_refused [of _ "(to_valid (fst kv), cleaned (snd kv))"]) (auto simp: exacting_def)
  then obtain vs f where "assign_fields exacting fs (map (\<lambda>kv. (to_valid (fst kv), cleaned (snd kv))) kvs)
      (fields_of (zero_of (TStruct fs))) None = (vs, Some f)" by (metis not_None_eq prod.collapse)
  then have "assign exacting (TStruct fs) (cleaned (JObj kvs)) (zero_of (TStruct fs)) None = (VStruct vs, Some f)"
    by (simp del: zero_of.simps)
  then show ?thesis
    unfolding decodeBody_written [OF assms(4,5,3)] by (simp only: prod.case option.case) blast
qed

text \<open>What is accepted has the fields of the struct.\<close>

lemma typed_atoms: "typed TString v \<longleftrightarrow> (\<exists>s. v = VString s)" "typed TInt v \<longleftrightarrow> (\<exists>i. v = VInt i \<and> int64_range i)"
  by (cases v; simp)+

lemma typed_request:
  "typed (TStruct [(name, TString), (''k'', TInt)]) v \<Longrightarrow> \<exists>q k. v = VStruct [(name, VString q), (''k'', VInt k)] \<and> int64_range k"
  unfolding typed_struct typed_fields_def
  by (auto simp: list_all2_Cons1 typed_atoms simp del: typed.simps)

lemma decodeBody_typed:
  "decodeBody wording r (TStruct [(name, TString), (''k'', TInt)]) = Inr v \<Longrightarrow> name \<noteq> ''k'' \<Longrightarrow>
     \<exists>q k. v = VStruct [(name, VString q), (''k'', VInt k)] \<and> int64_range k"
  unfolding decodeBody_def by (rule typed_request, erule Decode_typed) simp

end
