(* ===== verification/Api.thy ===== *)
theory Api
  imports Body
begin

text \<open>
  The endpoints (\<open>internal/httpapi/handlers.go\<close>) over any \<open>Service\<close>, the routing of
  \<open>http.ServeMux\<close> for them, and \<open>Handler\<close> (\<open>server.go\<close>) that wraps them. The state is the one
  the service works on with that of the background indexer. The wording of a fault in
  a body, the text of a number or a time, and randomness are parameters; between the two critical
  sections of a request to reindex the other goroutines may do anything (\<open>aOthers\<close>).
\<close>

section \<open>The service and the endpoints\<close>

datatype 'a run = Returns 'a | Panics gostring

record 's service =
  svStats :: "('s \<Rightarrow> sentinel option) \<Rightarrow> 's \<Rightarrow> Stats result run \<times> 's"
  svSearch :: "('s \<Rightarrow> sentinel option) \<Rightarrow> gostring \<Rightarrow> int \<Rightarrow> 's \<Rightarrow> KHit list result run \<times> 's"
  svAsk :: "('s \<Rightarrow> sentinel option) \<Rightarrow> gostring \<Rightarrow> int \<Rightarrow> 's \<Rightarrow> Answer result run \<times> 's"
  svIndex :: "'s \<Rightarrow> ((IndexResult \<times> goerr option) \<times> 's) option"

record 's api =
  aSvc :: "'s service"
  aClock :: "'s \<Rightarrow> int"
  aOthers :: "'s \<times> indexing \<Rightarrow> 's \<times> indexing"
  aWording :: "gostring \<times> goerr option \<Rightarrow> fault \<Rightarrow> goerr"
  aFloat :: "float64 \<Rightarrow> gostring option"
  aTime :: "int \<Rightarrow> gostring"
  aRand :: "'s \<times> indexing \<Rightarrow> gostring \<times> 's \<times> indexing"
  aExpired :: "Duration \<Rightarrow> 's \<times> indexing \<Rightarrow> 's \<times> indexing \<Rightarrow> bool"
  aSha :: "gostring \<Rightarrow> gostring"

type_synonym 's api_handler = "('s \<times> indexing) handler"

text \<open>The context a call into the service gets.\<close>

definition svc_ctx :: "('s \<times> indexing) request \<Rightarrow> indexing \<Rightarrow> 's \<Rightarrow> sentinel option" where
  "svc_ctx r ix = (\<lambda>s. rCtx r (s, ix))"

definition healthResponse :: "Stats \<Rightarrow> json" where
  "healthResponse st =
     JObj [(''status'', JStr ''ok''), (''space'', JStr (Space_String (stSpace st))),
           (''notes'', JNum (show_nat (stNotes st))), (''chunks'', JNum (show_nat (stChunks st))),
           (''vectors'', JNum (show_nat (stEmbedded st)))]"

definition handleHealth :: "'s api \<Rightarrow> 's api_handler" where
  "handleHealth api r w s =
     (case svStats (aSvc api) (svc_ctx r (snd s)) (fst s) of
        (Panics v, s') \<Rightarrow> (Some v, w, s', snd s)
      | (Returns (Inl e), s') \<Rightarrow> (None, writeError r 503 ''database unavailable'' w, s', snd s)
      | (Returns (Inr st), s') \<Rightarrow> (None, writeJSON 200 (Some (healthResponse st)) w, s', snd s))"

definition hitResponse :: "(float64 \<Rightarrow> gostring option) \<Rightarrow> KHit \<Rightarrow> json option" where
  "hitResponse num h =
     map_option (\<lambda>n. JObj ([(''score'', JNum n), (''note_path'', JStr (hSource h))] @
         unless_empty ''note_name'' (hTitle h) @
         [(''chunk_index'', JNum (show_int (hIndex h))), (''text'', JStr (hText h))]))
       (num (hScore h))"

definition toHits :: "(float64 \<Rightarrow> gostring option) \<Rightarrow> KHit list \<Rightarrow> json option" where
  "toHits num hits = map_option JArr (those (map (hitResponse num) hits))"

definition searchResponse :: "(float64 \<Rightarrow> gostring option) \<Rightarrow> gostring \<Rightarrow> KHit list \<Rightarrow> json option" where
  "searchResponse num space hits =
     map_option (\<lambda>hs. JObj [(''space'', JStr space), (''hits'', hs)]) (toHits num hits)"

text \<open>A list of sources is the nil slice, so \<open>null\<close>, when it is empty.\<close>

definition askResponse :: "(float64 \<Rightarrow> gostring option) \<Rightarrow> gostring \<Rightarrow> Answer \<Rightarrow> json option" where
  "askResponse num space a =
     map_option (\<lambda>n. JObj [(''answer'', JStr (aText a)), (''model'', JStr (aModel a)), (''space'', JStr space),
         (''sources'', if aSources a = [] then JNull else JArr (map JStr (aSources a))), (''top_score'', JNum n)])
       (num (aTopScore a))"

definition clampK :: "int \<Rightarrow> int" where
  "clampK k = (if k \<le> 0 then 5 else if k > 25 then 25 else k)"

definition timed_out :: "('s \<times> indexing) request \<Rightarrow> goerr \<Rightarrow> 's \<times> indexing \<Rightarrow> bool" where
  "timed_out r err s = (case rCtx r s of None \<Rightarrow> False | Some t \<Rightarrow> is_err t err)"

definition respondUpstreamError ::
  "('s \<times> indexing) request \<Rightarrow> gostring \<Rightarrow> goerr \<Rightarrow> writer \<Rightarrow> 's \<times> indexing \<Rightarrow> writer" where
  "respondUpstreamError r msg err w s =
     (if timed_out r err s then writeError r 504 ''request timed out'' w
      else writeError r 502 msg (add_log (ErrorLine msg (RequestID r) (err_text err)) w))"

definition handleSearch :: "'s api \<Rightarrow> gostring \<Rightarrow> 's api_handler" where
  "handleSearch api space r w s =
     (case decodeBody (aWording api) r searchRequest of
        Inl e \<Rightarrow> (None, writeError r 400 (''invalid request body: '' @ err_text e) w, s)
      | Inr req \<Rightarrow>
          (let query = trim_space (text_value (field_of ''query'' req)) in
           if query = [] then (None, writeError r 400 ''query is required'' w, s)
           else (case svSearch (aSvc api) (svc_ctx r (snd s)) query (clampK (int_value (field_of ''k'' req))) (fst s) of
                   (Panics v, s') \<Rightarrow> (Some v, w, s', snd s)
                 | (Returns (Inl e), s') \<Rightarrow> (None, respondUpstreamError r ''search failed'' e w (s', snd s), s', snd s)
                 | (Returns (Inr hits), s') \<Rightarrow>
                     (None, writeJSON 200 (searchResponse (aFloat api) space hits) w, s', snd s))))"

definition handleAsk :: "'s api \<Rightarrow> gostring \<Rightarrow> 's api_handler" where
  "handleAsk api space r w s =
     (case decodeBody (aWording api) r askRequest of
        Inl e \<Rightarrow> (None, writeError r 400 (''invalid request body: '' @ err_text e) w, s)
      | Inr req \<Rightarrow>
          (let question = trim_space (text_value (field_of ''question'' req)) in
           if question = [] then (None, writeError r 400 ''question is required'' w, s)
           else (case svAsk (aSvc api) (svc_ctx r (snd s)) question (clampK (int_value (field_of ''k'' req))) (fst s) of
                   (Panics v, s') \<Rightarrow> (Some v, w, s', snd s)
                 | (Returns (Inl e), s') \<Rightarrow> (None, respondUpstreamError r ''ask failed'' e w (s', snd s), s', snd s)
                 | (Returns (Inr a), s') \<Rightarrow>
                     (None, writeJSON 200 (askResponse (aFloat api) space a) w, s', snd s))))"

definition resultJSON :: "IndexResult \<Rightarrow> json" where
  "resultJSON res =
     JObj [(''notes_written'', JNum (show_nat (NotesWritten res))),
           (''notes_unchanged'', JNum (show_nat (NotesUnchanged res))),
           (''notes_deleted'', JNum (show_int (NotesDeleted res))),
           (''notes_skipped'', JNum (show_nat (NotesSkipped res))),
           (''notes_failed'', JNum (show_nat (NotesFailed res))),
           (''chunks_embedded'', JNum (show_nat (ChunksEmbedded res)))]"

definition statusJSON :: "(int \<Rightarrow> gostring) \<Rightarrow> indexStatus \<Rightarrow> json" where
  "statusJSON clock st =
     JObj ([(''state'', JStr (State st))] @
       (case StartedAt st of None \<Rightarrow> [] | Some t \<Rightarrow> [(''started_at'', JStr (clock t))]) @
       (case FinishedAt st of None \<Rightarrow> [] | Some t \<Rightarrow> [(''finished_at'', JStr (clock t))]) @
       (case Result st of None \<Rightarrow> [] | Some res \<Rightarrow> [(''result'', resultJSON res)]) @
       unless_empty ''error'' (Error st))"

definition handleReindex :: "'s api \<Rightarrow> 's api_handler" where
  "handleReindex api r w s =
     (let (began, ix) = ask_reindex (aClock api (fst s)) (snd s);
          (s', ix) = aOthers api (fst s, ix);
          ((code, st), ix) = answer_reindex began ix
      in (None, writeJSON code (Some (statusJSON (aTime api) st)) w, s', ix))"

definition handleReindexStatus :: "'s api \<Rightarrow> 's api_handler" where
  "handleReindexStatus api r w s =
     (None, writeJSON 200 (Some (statusJSON (aTime api) (snapshot (ixStatus (snd s))))) w, s)"

text \<open>
  The goroutine of a pass: \<open>Index\<close>, and then its critical section on the state of the indexer
  as it is by then. \<open>None\<close> would be a pass without end.
\<close>

definition run_pass :: "'s api \<Rightarrow> 's \<Rightarrow> ((indexing \<Rightarrow> indexing) \<times> 's) option" where
  "run_pass api s =
     (case svIndex (aSvc api) s of
        None \<Rightarrow> None
      | Some ((res, err), s') \<Rightarrow>
          Some (\<lambda>ix. ix\<lparr>ixStatus := run_end (aClock api s') res err (ixStatus ix), ixPasses := ixPasses ix - 1\<rparr>, s'))"

lemma run_pass_step: "run_pass api s = Some (finish, s') \<Longrightarrow> 0 < ixPasses ix \<Longrightarrow>
    \<exists>clock res err. ix_step ix (Ended clock res err) (finish ix)"
  by (auto simp: run_pass_def ix_step_simps split: option.splits)

section \<open>Routing\<close>

definition html_escape :: "gostring \<Rightarrow> gostring" where
  "html_escape s = concat (map (\<lambda>c.
     if c = CHR ''&'' then ''&amp;'' else if c = CHR ''<'' then ''&lt;'' else if c = CHR ''>'' then ''&gt;''
     else if c = dquote then ''&#34;'' else if byte c = 39 then ''&#39;'' else [c]) s)"

text \<open>The redirect of a path that is not canonical, and the two refusals of \<open>ServeMux\<close>.\<close>

definition redirect :: "'s request \<Rightarrow> gostring \<Rightarrow> writer \<Rightarrow> writer" where
  "redirect r url w =
     (let w = set_header ''Location'' url w;
          w = (if rMethod r \<in> {''GET'', ''HEAD''} then set_header ''Content-Type'' ''text/html; charset=utf-8'' w else w);
          w = WriteHeader 307 w
      in if rMethod r = ''GET''
         then Write (''<a href='' @ [dquote] @ html_escape url @ [dquote] @ ''>Temporary Redirect</a>.'' @ [newline, newline]) w
         else w)"

fun endpoint :: "gostring list \<Rightarrow> (gostring \<times> ('s api \<Rightarrow> gostring \<Rightarrow> 's api_handler)) option" where
  "endpoint [a] =
     (if a = ''health'' then Some (''GET'', \<lambda>api space. handleHealth api)
      else if a = ''search'' then Some (''POST'', handleSearch)
      else if a = ''ask'' then Some (''POST'', handleAsk)
      else if a = ''reindex'' then Some (''POST'', \<lambda>api space. handleReindex api)
      else None)"
| "endpoint [a, b] =
     (if a = ''reindex'' \<and> b = ''status'' then Some (''GET'', \<lambda>api space. handleReindexStatus api) else None)"
| "endpoint _ = None"

definition mux :: "'s api \<Rightarrow> gostring \<Rightarrow> 's api_handler" where
  "mux api space r w s =
     (case rRedirect r of
        Some url \<Rightarrow> (None, redirect r url w, s)
      | None \<Rightarrow>
          (case endpoint (rSegs r) of
             None \<Rightarrow> (None, http_Error ''404 page not found'' 404 w, s)
           | Some (verb, h) \<Rightarrow>
               if rMethod r = verb \<or> verb = ''GET'' \<and> rMethod r = ''HEAD'' then h api space r w s
               else (None, http_Error ''Method Not Allowed'' 405
                             (set_header ''Allow'' (if verb = ''GET'' then ''GET, HEAD'' else verb) w), s)))"

record http_config =
  Addr :: gostring
  RequestTimeout :: Duration
  ShutdownGrace :: Duration
  AuthToken :: gostring
  AllowUnauthenticated :: bool

definition DefaultConfig :: http_config where
  "DefaultConfig = \<lparr>Addr = '':8081'', RequestTimeout = 120 * second, ShutdownGrace = 20 * second,
     AuthToken = [], AllowUnauthenticated = False\<rparr>"

definition Handler :: "'s api \<Rightarrow> gostring \<Rightarrow> http_config \<Rightarrow> 's api_handler" where
  "Handler api space cfg =
     withRequestID (aRand api)
       (withRecover (withLogging (withTimeout (aExpired api) (RequestTimeout cfg)
         (withAuth (aSha api) (AuthToken cfg) (mux api space)))))"

section \<open>Every request is answered\<close>

text \<open>
  A writer nothing was written to, and what one answer makes of it. An answer that says it is
  JSON is the text of a value with the property \<open>ok\<close>.
\<close>

abbreviation json_type :: gostring where
  "json_type \<equiv> ''application/json; charset=utf-8''"

definition untouched :: "writer \<Rightarrow> bool" where
  "untouched w \<longleftrightarrow> wStatus w = 0 \<and> wBody w = [] \<and> wRec w = Some (0, 0)"

definition blank :: "writer \<Rightarrow> bool" where
  "blank w \<longleftrightarrow> untouched w \<and> (\<forall>v. (''Content-Type'', v) \<notin> set (wHeader w))"

definition answers :: "(json \<Rightarrow> bool) \<Rightarrow> writer \<Rightarrow> writer \<Rightarrow> bool" where
  "answers ok w w' \<longleftrightarrow> wStatus w' \<noteq> 0 \<and> wRec w' = Some (wStatus w', length (wBody w')) \<and>
     (\<forall>v. (''X-Request-Id'', v) \<in> set (wSent w') \<longleftrightarrow> (''X-Request-Id'', v) \<in> set (wHeader w)) \<and>
     ((''Content-Type'', json_type) \<in> set (wSent w') \<longrightarrow> (\<exists>v. ok v \<and> wBody w' = encode v)) \<and>
     (\<exists>errs. wLog w' = wLog w @ errs \<and> (\<forall>l\<in>set errs. \<exists>m i t. l = ErrorLine m i t))"

lemma untouched_set_header [simp]: "untouched (set_header k v w) = untouched w"
  by (simp add: untouched_def set_header_def)

lemma blank_set_header [simp]: "k \<noteq> ''Content-Type'' \<Longrightarrow> blank (set_header k v w) = blank w"
  by (auto simp: blank_def) (auto simp: set_header_def)

lemma blank_add_log [simp]: "blank (add_log l w) = blank w"
  by (simp add: blank_def untouched_def add_log_def)

lemma set_header_other: "k' \<noteq> k \<Longrightarrow> (k', v') \<in> set (wHeader (set_header k v w)) \<longleftrightarrow> (k', v') \<in> set (wHeader w)"
  by (auto simp: set_header_def)

lemma answers_header: "k \<noteq> ''X-Request-Id'' \<Longrightarrow> answers ok (set_header k v w) w' \<longleftrightarrow> answers ok w w'"
  by (auto simp: answers_def set_header_def)

lemma answers_log: "answers ok (add_log (ErrorLine m i t) w) w' \<Longrightarrow> answers ok w w'"
  by (auto simp: answers_def add_log_def)

lemma written_answers:
  "untouched w \<Longrightarrow> status \<noteq> 0 \<Longrightarrow>
     (''Content-Type'', json_type) \<in> set (wHeader w) \<longrightarrow> (\<exists>v. ok v \<and> b = encode v) \<Longrightarrow>
     answers ok w (Write b (WriteHeader status w))"
  by (simp add: answers_def untouched_def Write_def WriteHeader_def send_status_def)

lemma http_Error_answers: "blank w \<Longrightarrow> status \<noteq> 0 \<Longrightarrow> answers ok w (http_Error msg status w)"
proof -
  assume w: "blank w" "status \<noteq> 0"
  let ?w = "w\<lparr>wHeader := filter (\<lambda>kv. fst kv \<noteq> ''Content-Length'') (wHeader w)\<rparr>"
  let ?h = "set_header ''X-Content-Type-Options'' ''nosniff'' (set_header ''Content-Type'' ''text/plain; charset=utf-8'' ?w)"
  have "untouched ?h" using w by (simp add: blank_def untouched_def set_header_def)
  moreover have "(''Content-Type'', json_type) \<notin> set (wHeader ?h)" by (simp add: set_header_def)
  ultimately have "answers ok ?w (http_Error msg status w)"
    using written_answers [of ?h status ok "msg @ [newline]"] w(2) by (simp add: http_Error_def answers_header)
  then show ?thesis by (auto simp: answers_def)
qed

lemma writeJSON_answers:
  "blank w \<Longrightarrow> status \<noteq> 0 \<Longrightarrow> (\<And>x. v = Some x \<Longrightarrow> ok x) \<Longrightarrow> answers ok w (writeJSON status v w)"
  using written_answers [of "set_header ''Content-Type'' json_type w" status ok]
  by (auto simp: writeJSON_def http_Error_answers answers_header blank_def split: option.splits)

lemma writeError_answers:
  "blank w \<Longrightarrow> status \<noteq> 0 \<Longrightarrow> (\<And>m i. ok (errorResponse m i)) \<Longrightarrow> answers ok w (writeError r status msg w)"
  unfolding writeError_def by (rule writeJSON_answers) auto

lemma redirect_answers: "blank w \<Longrightarrow> answers ok w (redirect r url w)"
  using written_answers [of "set_header ''Content-Type'' ''text/html; charset=utf-8'' (set_header ''Location'' url w)" 307 ok]
  by (auto simp: redirect_def Let_def answers_header answers_def blank_def untouched_def WriteHeader_def send_status_def set_header_def)

lemma writeError_after_header:
  "blank w \<Longrightarrow> status \<noteq> 0 \<Longrightarrow> k \<notin> {''X-Request-Id'', ''Content-Type''} \<Longrightarrow> (\<And>m i. ok (errorResponse m i)) \<Longrightarrow>
     answers ok w (writeError r status msg (set_header k v w))"
  using writeError_answers [of "set_header k v w" status ok r msg] by (simp add: answers_header)

lemma http_Error_after_header:
  "blank w \<Longrightarrow> status \<noteq> 0 \<Longrightarrow> k \<notin> {''X-Request-Id'', ''Content-Type''} \<Longrightarrow>
     answers ok w (http_Error msg status (set_header k v w))"
  using http_Error_answers [of "set_header k v w" status ok msg] by (simp add: answers_header)

text \<open>A value the endpoints write, when the text of a number is a number.\<close>

definition json_out :: "'s api \<Rightarrow> json \<Rightarrow> bool" where
  "json_out api v \<longleftrightarrow> ((\<forall>x n. aFloat api x = Some n \<longrightarrow> number_text n) \<longrightarrow> writable 0 v)"

lemma json_out_error: "json_out api (errorResponse m i)"
  by (simp add: json_out_def errorResponse_def unless_empty_def maxNestingDepth_def)

lemma json_out_health: "json_out api (healthResponse st)"
  by (simp add: json_out_def healthResponse_def maxNestingDepth_def number_text_show_nat)

lemma json_out_search: "searchResponse (aFloat api) space hits = Some v \<Longrightarrow> json_out api v"
proof -
  assume v: "searchResponse (aFloat api) space hits = Some v"
  have "list_all (writable 2) js"
    if "those (map (hitResponse (aFloat api)) hits) = Some js" "\<forall>x n. aFloat api x = Some n \<longrightarrow> number_text n" for js
    using that
  proof (induction hits arbitrary: js)
    case (Cons h hits)
    then show ?case
      by (auto simp: hitResponse_def unless_empty_def maxNestingDepth_def number_text_show_int split: option.splits)
  qed simp
  then show ?thesis using v
    by (auto simp: json_out_def searchResponse_def toHits_def maxNestingDepth_def numeral_2_eq_2)
qed

lemma json_out_ask: "askResponse (aFloat api) space a = Some v \<Longrightarrow> json_out api v"
  by (auto simp: json_out_def askResponse_def maxNestingDepth_def list_all_iff)

lemma json_out_status: "json_out api (statusJSON clock st)"
  by (auto simp: json_out_def statusJSON_def resultJSON_def unless_empty_def maxNestingDepth_def number_text_show_nat
      number_text_show_int split: option.split)

lemma writeJSON_out:
  assumes "blank w" "status \<noteq> 0"
  shows "json_out api v \<Longrightarrow> answers (json_out api) w (writeJSON status (Some v) w)"
    "answers (json_out api) w (writeJSON status (searchResponse (aFloat api) space hits) w)"
    "answers (json_out api) w (writeJSON status (askResponse (aFloat api) space a) w)"
  using assms by (auto intro!: writeJSON_answers dest: json_out_search json_out_ask)

lemmas answer_rules =
  writeJSON_out writeError_answers http_Error_answers redirect_answers writeError_after_header http_Error_after_header
  json_out_error json_out_health json_out_status

lemma respond_answers: "blank w \<Longrightarrow> answers (json_out api) w (respondUpstreamError r msg err w s)"
  unfolding respondUpstreamError_def by (cases "timed_out r err s") (simp_all add: answer_rules answers_log [OF writeError_answers])

text \<open>A handler answers once, or panics before it has written anything.\<close>

definition answers_or_panics :: "(json \<Rightarrow> bool) \<Rightarrow> writer \<Rightarrow> gostring option \<times> writer \<times> 'x \<Rightarrow> bool" where
  "answers_or_panics ok w out \<longleftrightarrow> (case fst out of None \<Rightarrow> answers ok w (fst (snd out)) | Some v \<Rightarrow> fst (snd out) = w)"

lemma answers_or_panics_simps [simp]:
  "answers_or_panics ok w (None, w', s) = answers ok w w'" "answers_or_panics ok w (Some v, w', s) = (w' = w)"
  by (simp_all add: answers_or_panics_def)

lemma handlers_answer:
  assumes "blank w"
  shows "answers_or_panics (json_out api) w (handleHealth api r w s)" "answers_or_panics (json_out api) w (handleSearch api space r w s)"
    "answers_or_panics (json_out api) w (handleAsk api space r w s)" "answers_or_panics (json_out api) w (handleReindex api r w s)"
    "answers_or_panics (json_out api) w (handleReindexStatus api r w s)"
  using assms
  by (simp_all add: handleHealth_def handleSearch_def handleAsk_def handleReindex_def handleReindexStatus_def Let_def
      answer_reindex_def answer_rules respond_answers split: prod.splits run.splits sum.splits)

lemma endpoint_cases:
  assumes "endpoint path = Some (verb, h)"
  obtains "verb = ''GET''" "h = (\<lambda>api space. handleHealth api)" "path = [''health'']"
  | "verb = ''POST''" "h = handleSearch" "path = [''search'']"
  | "verb = ''POST''" "h = handleAsk" "path = [''ask'']"
  | "verb = ''POST''" "h = (\<lambda>api space. handleReindex api)" "path = [''reindex'']"
  | "verb = ''GET''" "h = (\<lambda>api space. handleReindexStatus api)" "path = [''reindex'', ''status'']"
  using assms by (cases path rule: endpoint.cases) (auto split: if_splits)

lemma mux_answers: "blank w \<Longrightarrow> answers_or_panics (json_out api) w (mux api space r w s)"
  unfolding mux_def
  by (cases "rRedirect r"; cases "endpoint (rSegs r) :: (gostring \<times> ('a api \<Rightarrow> gostring \<Rightarrow> 'a api_handler)) option")
    (auto simp: answer_rules handlers_answer elim!: endpoint_cases)

lemma auth_answers: "blank w \<Longrightarrow> answers_or_panics (json_out api) w (withAuth sha token (mux api space) r w s)"
  by (simp add: withAuth_def mux_answers answer_rules)

text \<open>The handler inside the request's id.\<close>

definition inner :: "'s api \<Rightarrow> gostring \<Rightarrow> http_config \<Rightarrow> 's api_handler" where
  "inner api space cfg =
     withTimeout (aExpired api) (RequestTimeout cfg) (withAuth (aSha api) (AuthToken cfg) (mux api space))"

definition tagged :: "'s api \<Rightarrow> ('s \<times> indexing) request \<Rightarrow> 's \<times> indexing \<Rightarrow> gostring \<times> 's \<times> indexing" where
  "tagged api r s =
     (if rHeaders r ''X-Request-Id'' = [] then (case aRand api s of (b, s) \<Rightarrow> (hex_string b, s))
      else (rHeaders r ''X-Request-Id'', s))"

lemma Handler_tagged:
  "Handler api space cfg r w s =
     (case tagged api r s of (rid, s) \<Rightarrow>
        withRecover (withLogging (inner api space cfg)) (r\<lparr>rID := rid\<rparr>) (set_header ''X-Request-Id'' rid w) s)"
  by (simp add: Handler_def withRequestID_def tagged_def inner_def Let_def split: prod.splits)

lemma wrapped_state:
  "snd (snd (withRecover (withLogging h) r w s)) = snd (snd (h r (w\<lparr>wRec := Some (0, 0)\<rparr>) s))"
  by (cases "h r (w\<lparr>wRec := Some (0, 0)\<rparr>) s" rule: prod_cases3; cases "fst (h r (w\<lparr>wRec := Some (0, 0)\<rparr>) s)")
    (simp_all add: withRecover_def withLogging_def case_prod_beta)

lemma inner_answers: "blank w \<Longrightarrow> answers_or_panics (json_out api) w (inner api space cfg r w s)"
  by (simp add: inner_def withTimeout_def auth_answers)

abbreviation started :: "gostring \<Rightarrow> writer" where
  "started rid \<equiv> (set_header ''X-Request-Id'' rid fresh)\<lparr>wRec := Some (0, 0)\<rparr>"

lemma blank_started: "blank (started rid)"
  by (simp add: blank_def untouched_def set_header_def fresh_def)

lemma Handler_answered:
  assumes "tagged api r s = (rid, s1)" "inner api space cfg (r\<lparr>rID := rid\<rparr>) (started rid) s1 = (None, w2, s2)"
    "answers ok w w2"
  shows "Handler api space cfg r fresh s =
    (None, add_log (RequestLine rid (rMethod r) (rPath r) (wStatus w2) (length (wBody w2))) (w2\<lparr>wRec := None\<rparr>), s2)"
proof -
  have "wRec w2 = Some (wStatus w2, length (wBody w2))" "wStatus w2 \<noteq> 0" using assms(3) by (simp_all add: answers_def)
  moreover have "wRec (set_header ''X-Request-Id'' rid fresh) = None" by (simp add: fresh_def set_header_def)
  ultimately show ?thesis
    using assms(2) by (simp add: Handler_tagged assms(1) withRecover_def withLogging_def RequestID_def)
qed

text \<open>
  C14. Every request is answered, exactly once, and its outcome is logged under its id. For any
  service, state and request the handler returns without a panic and with a status sent
  together with an \<open>X-Request-Id\<close>, the client's own if it gave one. Either the log ends
  with one line for the request that has the status and the length of the body, after
  lines for upstream errors only, and an answer that says it is JSON reads back as one value
  with nothing after it, whatever bytes notes, answers and errors hold; or the service panicked, the answer is a 500 with a fixed
  text, and the only line is that of the panic - no line reports the request's status.
\<close>

theorem Handler_answers:
  "\<exists>rid w' s'. Handler api space cfg r fresh s = (None, w', s') \<and>
     (rHeaders r ''X-Request-Id'' \<noteq> [] \<longrightarrow> rid = rHeaders r ''X-Request-Id'') \<and>
     {v. (''X-Request-Id'', v) \<in> set (wSent w')} = {rid} \<and> wStatus w' \<noteq> 0 \<and>
     ((\<exists>errs. wLog w' = errs @ [RequestLine rid (rMethod r) (rPath r) (wStatus w') (length (wBody w'))] \<and>
         (\<forall>l\<in>set errs. \<exists>m i t. l = ErrorLine m i t)) \<and>
       ((\<forall>x n. aFloat api x = Some n \<longrightarrow> number_text n) \<longrightarrow> (''Content-Type'', json_type) \<in> set (wSent w') \<longrightarrow>
         (\<exists>v. json_first (wBody w') = Some (v, []))) \<or>
      (\<exists>v. wLog w' = [PanicLine rid (rPath r) v] \<and> wStatus w' = 500 \<and>
         wBody w' = encode (errorResponse ''internal error'' rid)))"
proof -
  obtain rid s1 where t: "tagged api r s = (rid, s1)" by (rule prod.exhaust)
  let ?r = "r\<lparr>rID := rid\<rparr>" and ?w = "set_header ''X-Request-Id'' rid fresh"
  let ?blank = "?w\<lparr>wRec := Some (0, 0)\<rparr>"
  have fresh: "wHeader ?w = [(''X-Request-Id'', rid)]" "wLog ?w = []" "wStatus ?w = 0" "wBody ?w = []" "wRec ?w = None"
    "?w\<lparr>wRec := None\<rparr> = ?w"
    by (simp_all add: fresh_def set_header_def)
  obtain p w2 s2 where run: "inner api space cfg ?r ?blank s1 = (p, w2, s2)" by (metis prod.exhaust)
  from inner_answers [OF blank_started [of rid], of api space cfg ?r s1] have out: "answers_or_panics (json_out api) ?blank (p, w2, s2)" unfolding run .
  have own: "rHeaders r ''X-Request-Id'' \<noteq> [] \<longrightarrow> rid = rHeaders r ''X-Request-Id''"
    using t by (simp add: tagged_def split: if_splits)
  show ?thesis
  proof (cases p)
    case None
    with out have a: "answers (json_out api) ?blank w2" by simp
    let ?done = "add_log (RequestLine rid (rMethod r) (rPath r) (wStatus w2) (length (wBody w2))) (w2\<lparr>wRec := None\<rparr>)"
    have "Handler api space cfg r fresh s = (None, ?done, s2)"
      using run None a by (intro Handler_answered [OF t]) simp_all
    moreover have "\<exists>v. json_first (wBody w2) = Some (v, [])"
      if "\<forall>x n. aFloat api x = Some n \<longrightarrow> number_text n" "(''Content-Type'', json_type) \<in> set (wSent w2)"
    proof -
      from a that obtain v where v: "writable 0 v" "wBody w2 = encode v" by (auto simp: answers_def json_out_def)
      from written_is_read_back [OF v(1), of "[]"] show ?thesis
        by (simp add: v(2) ends_value_def ends_number_def split: json.split)
    qed
    ultimately show ?thesis using own a fresh
      by (intro exI [of _ rid] exI [of _ ?done] exI [of _ s2]) (auto simp: add_log_def answers_def)
  next
    case (Some v)
    with out have "w2 = ?blank" by simp
    then have "Handler api space cfg r fresh s =
        (None, writeError ?r 500 ''internal error'' (add_log (PanicLine rid (rPath r) v) ?w), s2)"
      using run Some by (simp add: Handler_tagged t withRecover_def withLogging_def RequestID_def fresh)
    then show ?thesis using own fresh
      by (auto simp: writeError_def writeJSON_def Write_def WriteHeader_def send_status_def add_log_def set_header_def Let_def)
  qed
qed

end
