(* ===== verification/Access.thy ===== *)
theory Access
  imports Api Pipeline
begin

text \<open>
  What a request can reach and what an answer can tell: the token in front of the endpoints
  (\<open>auth.go\<close>), the texts of upstream errors (\<open>handlers.go\<close>), and the knowledge base as the
  service behind the handlers, whose requests only read the index. The contract of a
  service that only reads is the locale \<open>reading\<close>.
\<close>

section \<open>The token\<close>

lemma equalFold_length: "equalFold a b \<Longrightarrow> length a = length b"
  by (simp add: equalFold_def)

lemma bearer_iff:
  assumes "token \<noteq> []"
  shows "bearer h = token \<longleftrightarrow> (\<exists>scheme. h = scheme @ token \<and> equalFold scheme ''Bearer '')"
proof
  assume "bearer h = token"
  then have "equalFold (take 7 h) ''Bearer ''" "drop 7 h = token" using assms by (auto simp: bearer_def split: if_splits)
  then show "\<exists>scheme. h = scheme @ token \<and> equalFold scheme ''Bearer ''" by (metis append_take_drop_id)
next
  assume "\<exists>scheme. h = scheme @ token \<and> equalFold scheme ''Bearer ''"
  then obtain scheme where s: "h = scheme @ token" "equalFold scheme ''Bearer ''" by blast
  then have "length scheme = 7" using equalFold_length by force
  then show "bearer h = token" using s assms by (simp add: bearer_def)
qed

lemma join_single: "join [c] xs = s \<Longrightarrow> c \<notin> set s \<Longrightarrow> s \<noteq> [] \<Longrightarrow> xs = [s]"
  by (cases "([c], xs)" rule: join.cases) auto

lemma inner_no_token: "inner api space (cfg\<lparr>AuthToken := []\<rparr>) =
    withTimeout (aExpired api) (RequestTimeout cfg) (mux api space)"
  by (simp add: inner_def withAuth_def)

lemma mux_health:
  assumes "rSegs r = [''health'']" "svStats sv = svStats (aSvc api)"
  shows "mux (api\<lparr>aSvc := sv\<rparr>) space r w s = mux api space r w s \<and> snd (snd (snd (mux api space r w s))) = snd s"
  using assms by (simp add: mux_def handleHealth_def split: option.splits prod.splits run.splits sum.splits)

text \<open>
  C13. Without the token a caller gets at the health report and nothing else. Let a token be
  configured and no digest collide with its own. A request whose \<open>Authorization\<close> is the
  scheme \<open>Bearer\<close>, in any case, and exactly the token is served as if no token were
  required. Any other gets the same answer, state and log whatever the service's \<open>Search\<close>
  and \<open>Ask\<close> would do, and starts no indexing; outside \<open>/health\<close> it is refused with 401 and a
  fixed text before the service is called at all.
\<close>

theorem token_guards:
  fixes api :: "'s api" and r :: "('s \<times> indexing) request" and s :: "'s \<times> indexing" and space :: gostring
  assumes "AuthToken cfg \<noteq> []" "rPath r = ''/'' @ join ''/'' (rSegs r)"
    "aSha api (bearer (rHeaders r ''Authorization'')) = aSha api (AuthToken cfg) \<Longrightarrow>
       bearer (rHeaders r ''Authorization'') = AuthToken cfg"
  defines "out a c \<equiv> Handler a space c r fresh s"
  shows "if \<exists>scheme. rHeaders r ''Authorization'' = scheme @ AuthToken cfg \<and> equalFold scheme ''Bearer ''
    then out api cfg = out api (cfg\<lparr>AuthToken := []\<rparr>)
    else (\<forall>sv. svStats sv = svStats (aSvc api) \<longrightarrow> out (api\<lparr>aSvc := sv\<rparr>) cfg = out api cfg) \<and>
      snd (snd (snd (out api cfg))) = snd (snd (tagged api r s)) \<and>
      (rPath r \<noteq> ''/health'' \<longrightarrow> wStatus (fst (snd (out api cfg))) = 401 \<and> snd (snd (out api cfg)) = snd (tagged api r s) \<and>
         wBody (fst (snd (out api cfg))) = encode (errorResponse ''missing or invalid token'' (fst (tagged api r s))))"
proof (cases "bearer (rHeaders r ''Authorization'') = AuthToken cfg")
  case True
  then have "withAuth (aSha api) (AuthToken cfg) h r' w s = h r' w s"
    if "rHeaders r' = rHeaders r" for h :: "'s api_handler" and r' w s
    using that by (simp add: withAuth_def)
  then have "inner api space cfg r' w s = inner api space (cfg\<lparr>AuthToken := []\<rparr>) r' w s"
    if "rHeaders r' = rHeaders r" for r' w s
    using that by (simp add: inner_no_token) (simp add: inner_def withTimeout_def)
  then have "out api cfg = out api (cfg\<lparr>AuthToken := []\<rparr>)"
    by (simp add: out_def Handler_tagged withRecover_def withLogging_def split: prod.splits)
  then show ?thesis using True bearer_iff [OF assms(1)] by simp
next
  case False
  have no: "\<not> (\<exists>scheme. rHeaders r ''Authorization'' = scheme @ AuthToken cfg \<and> equalFold scheme ''Bearer '')"
    using False bearer_iff [OF assms(1)] by blast
  from False have digest: "aSha api (bearer (rHeaders r ''Authorization'')) \<noteq> aSha api (AuthToken cfg)" using assms(3) by blast
  obtain rid s1 where t: "tagged api r s = (rid, s1)" by (rule prod.exhaust)
  have t': "tagged (api\<lparr>aSvc := sv\<rparr>) r s = (rid, s1)" for sv using t by (auto simp: tagged_def split: if_splits)
  let ?r = "r\<lparr>rID := rid\<rparr>"
  show ?thesis
  proof (cases "rPath r = ''/health''")
    case True
    then have "join ''/'' (rSegs r) = ''health''" using assms(2) by simp
    then have path: "rSegs r = [''health'']" by (rule join_single) simp_all
    have in_health: "inner a space cfg ?r w s = withTimeout (aExpired a) (RequestTimeout cfg) (mux a space) ?r w s"
      for a :: "'s api" and w s
      using True by (simp add: inner_def withTimeout_def withAuth_def publicPaths_def)
    have same: "inner (api\<lparr>aSvc := sv\<rparr>) space cfg ?r w s = inner api space cfg ?r w s" (is ?eq)
      and kept: "snd (snd (snd (inner api space cfg ?r w s))) = snd s" if "svStats sv = svStats (aSvc api)" for sv w s
      unfolding in_health using that path by (simp_all add: withTimeout_def mux_health)
    have "out (api\<lparr>aSvc := sv\<rparr>) cfg = out api cfg" if "svStats sv = svStats (aSvc api)" for sv
      using same [OF that] by (simp add: out_def Handler_tagged t t' withRecover_def withLogging_def)
    moreover have "snd (snd (snd (out api cfg))) = snd s1"
      using kept [OF refl, of "set_header ''X-Request-Id'' rid fresh\<lparr>wRec := Some (0, 0)\<rparr>" s1]
      by (simp add: out_def Handler_tagged t wrapped_state)
    ultimately show ?thesis unfolding if_not_P [OF no] using True t by simp
  next
    case other: False
    let ?refused = "\<lambda>w. writeError ?r 401 ''missing or invalid token''
        (set_header ''WWW-Authenticate'' (''Bearer realm='' @ [dquote] @ ''rag'' @ [dquote]) w)"
    define w1 where "w1 = ?refused (started rid)"
    let ?out = "(None :: gostring option, add_log (RequestLine rid (rMethod r) (rPath r) 401 (length (wBody w1)))
        (w1\<lparr>wRec := None\<rparr>), s1)"
    have w1: "wStatus w1 = 401" "wBody w1 = encode (errorResponse ''missing or invalid token'' rid)"
      by (simp_all add: w1_def writeError_def writeJSON_def Write_def WriteHeader_def send_status_def set_header_def fresh_def)
    have all: "out a cfg = ?out" if "aSha a = aSha api" "tagged a r s = (rid, s1)" for a
    proof -
      have run: "inner a space cfg ?r (started rid) s1 = (None, w1, s1)"
        using other digest assms(1) that(1)
        by (simp add: w1_def inner_def withTimeout_def withAuth_def publicPaths_def writeError_def)
      have "answers (json_out api) (started rid) w1" unfolding w1_def by (rule writeError_after_header [OF blank_started]) (simp_all add: json_out_error)
      from Handler_answered [OF that(2) run this] show ?thesis unfolding out_def w1(1) .
    qed
    have "out api cfg = ?out" "out (api\<lparr>aSvc := sv\<rparr>) cfg = ?out" for sv
      by (rule all; simp add: t t')+
    then show ?thesis unfolding if_not_P [OF no] t by (simp add: w1 add_log_def del: Pair_inject)
  qed
qed

text \<open>A service whose model has no quota left, and a request with the token in its header.\<close>

definition demo_service :: "nat service" where
  "demo_service = \<lparr>svStats = \<lambda>ctx s. (Returns (Inl (Plain ''down'')), s),
     svSearch = \<lambda>ctx q k s. (Returns (Inl (Plain (''key 123 is out of quota''))), s + 1),
     svAsk = \<lambda>ctx q k s. (Panics ''boom'', s + 1), svIndex = \<lambda>s. Some ((no_result, None), s)\<rparr>"

definition demo_api :: "nat api" where
  "demo_api = \<lparr>aSvc = demo_service, aClock = \<lambda>s. int s, aOthers = \<lambda>s. s,
     aWording = \<lambda>b f. Plain ''unreadable'', aFloat = \<lambda>x. Some ''0'', aTime = show_int,
     aRand = \<lambda>s. (''01234567'', s), aExpired = \<lambda>d s s'. False, aSha = \<lambda>t. t\<rparr>"

definition demo_body :: "gostring \<Rightarrow> gostring \<times> goerr option" where
  "demo_body name = (encode (JObj [(name, JStr ''where is it''), (''k'', JNum ''100'')]), None)"

definition demo_request :: "gostring \<Rightarrow> (nat \<times> indexing) request" where
  "demo_request auth = \<lparr>rMethod = ''POST'', rPath = ''/search'', rSegs = [''search''], rRedirect = None,
     rHeaders = (\<lambda>h. if h = ''Authorization'' then auth else []), rBytes = demo_body ''query'', rID = [], rCtx = \<lambda>s. None\<rparr>"

definition panicking :: "(nat \<times> indexing) request" where
  "panicking = (demo_request [])\<lparr>rPath := ''/ask'', rSegs := [''ask''], rBytes := demo_body ''question''\<rparr>"

lemma Handler_answers_witness:
  "fst (Handler demo_api ''sp'' DefaultConfig panicking fresh (0, idle_indexing)) = None \<and>
   wStatus (fst (snd (Handler demo_api ''sp'' DefaultConfig panicking fresh (0, idle_indexing)))) = 500 \<and>
   wLog (fst (snd (Handler demo_api ''sp'' DefaultConfig panicking fresh (0, idle_indexing)))) =
     [PanicLine ''3031323334353637'' ''/ask'' ''boom''] \<and>
   (\<exists>v. json_first (wBody (fst (snd (Handler demo_api ''sp'' DefaultConfig (demo_request []) fresh (0, idle_indexing))))) =
     Some (v, []))"
proof -
  let ?out = "\<lambda>r. Handler demo_api ''sp'' DefaultConfig r fresh (0, idle_indexing)"
  have log: "wLog (fst (snd (?out panicking))) = [PanicLine ''3031323334353637'' ''/ask'' ''boom'']" by code_simp
  have sent: "(''Content-Type'', json_type) \<in> set (wSent (fst (snd (?out (demo_request [])))))"
    "wStatus (fst (snd (?out (demo_request [])))) = 502" by code_simp+
  have float: "\<forall>x n. aFloat demo_api x = Some n \<longrightarrow> number_text n" by (auto simp: demo_api_def) code_simp
  from Handler_answers [of demo_api "''sp''" DefaultConfig panicking "(0, idle_indexing)"]
  have "fst (?out panicking) = None \<and> wStatus (fst (snd (?out panicking))) = 500"
  proof (elim exE conjE, goal_cases)
    case (1 rid w' s')
    have "wLog w' = [PanicLine ''3031323334353637'' ''/ask'' ''boom'']" using log unfolding 1(1) by simp
    then have "wStatus w' = 500" using 1(5) by (elim disjE exE conjE) simp_all
    then show ?case unfolding 1(1) by simp
  qed
  moreover from Handler_answers [of demo_api "''sp''" DefaultConfig "demo_request []" "(0, idle_indexing)"]
  have "\<exists>v. json_first (wBody (fst (snd (?out (demo_request []))))) = Some (v, [])"
  proof (elim exE conjE, goal_cases)
    case (1 rid w' s')
    have "wStatus w' = 502" "(''Content-Type'', json_type) \<in> set (wSent w')" using sent unfolding 1(1) by simp_all
    then have "\<exists>v. json_first (wBody w') = Some (v, [])" using 1(5) float by (elim disjE exE conjE) simp_all
    then show ?case unfolding 1(1) by simp
  qed
  ultimately show ?thesis using log by blast
qed

definition secured :: http_config where
  "secured = DefaultConfig\<lparr>AuthToken := ''s3cret''\<rparr>"

lemma token_guards_witness:
  "Handler demo_api ''sp'' secured (demo_request ''bearer s3cret'') fresh (0, idle_indexing) =
     Handler demo_api ''sp'' (secured\<lparr>AuthToken := []\<rparr>) (demo_request ''bearer s3cret'') fresh (0, idle_indexing) \<and>
   wStatus (fst (snd (Handler demo_api ''sp'' secured (demo_request ''Basic s3cret'') fresh (0, idle_indexing)))) = 401"
proof -
  have token: "AuthToken secured \<noteq> []" by (simp add: secured_def)
  have path: "rPath (demo_request a) = ''/'' @ join ''/'' (rSegs (demo_request a))" for a by (simp add: demo_request_def)
  have sha: "aSha demo_api (bearer (rHeaders (demo_request a) ''Authorization'')) = aSha demo_api (AuthToken secured) \<Longrightarrow>
      bearer (rHeaders (demo_request a) ''Authorization'') = AuthToken secured" for a by (simp add: demo_api_def)
  have yes: "\<exists>scheme. rHeaders (demo_request ''bearer s3cret'') ''Authorization'' = scheme @ AuthToken secured \<and>
      equalFold scheme ''Bearer ''"
    by (rule exI [of _ "''bearer ''"]) code_simp
  have "bearer ''Basic s3cret'' \<noteq> ''s3cret''" by code_simp
  then have no: "\<not> (\<exists>scheme. rHeaders (demo_request ''Basic s3cret'') ''Authorization'' = scheme @ AuthToken secured \<and>
      equalFold scheme ''Bearer '')"
    using bearer_iff [of "''s3cret''"] by (simp add: demo_request_def secured_def)
  have "rPath (demo_request ''Basic s3cret'') \<noteq> ''/health''" by (simp add: demo_request_def)
  then show ?thesis
    using token_guards [OF token path [of "''bearer s3cret''"] sha, where space = "''sp''" and s = "(0, idle_indexing)", unfolded if_P [OF yes]]
      token_guards [OF token path [of "''Basic s3cret''"] sha, where space = "''sp''" and s = "(0, idle_indexing)", unfolded if_not_P [OF no]]
    by blast
qed

section \<open>Requests reach the service as they were written\<close>

text \<open>
  C15. A request body reaches the service as the client wrote it. When the body starts with the
  JSON object of a text and a number of hits, its fields in either order, within the limit of
  64 KiB, \<open>/search\<close> and \<open>/ask\<close> call the service with exactly that text, trimmed, and that number
  brought into range, whatever follows the object, and answer with what the service returned;
  for any JSON object within the limit, a key that names no field, in any case of its letters
  and wherever it stands, is answered by a 400 and the service is not called.
\<close>

theorem requests_reach_the_service:
  assumes "rBytes r = (encode (JObj kvs) @ t, e)" "length (encode (JObj kvs)) \<le> maxRequestBody"
    and "writable 0 (JObj kvs)" "valid_utf8 q" "trim_space q \<noteq> []" "int64_range k"
  shows "(asks ''query'' q k kvs \<longrightarrow>
       handleSearch api space r w s =
         (case svSearch (aSvc api) (svc_ctx r (snd s)) (trim_space q) (clampK k) (fst s) of
            (Panics v, s') \<Rightarrow> (Some v, w, s', snd s)
          | (Returns (Inl e), s') \<Rightarrow> (None, respondUpstreamError r ''search failed'' e w (s', snd s), s', snd s)
          | (Returns (Inr hits), s') \<Rightarrow> (None, writeJSON 200 (searchResponse (aFloat api) space hits) w, s', snd s))) \<and>
     (asks ''question'' q k kvs \<longrightarrow>
       handleAsk api space r w s =
         (case svAsk (aSvc api) (svc_ctx r (snd s)) (trim_space q) (clampK k) (fst s) of
            (Panics v, s') \<Rightarrow> (Some v, w, s', snd s)
          | (Returns (Inl e), s') \<Rightarrow> (None, respondUpstreamError r ''ask failed'' e w (s', snd s), s', snd s)
          | (Returns (Inr a), s') \<Rightarrow> (None, writeJSON 200 (askResponse (aFloat api) space a) w, s', snd s))) \<and>
     ((\<exists>kv\<in>set kvs. find_field [''query'', ''k''] (to_valid (fst kv)) = None) \<longrightarrow>
       (\<exists>err. handleSearch api space r w s = (None, writeError r 400 (''invalid request body: '' @ err_text err) w, s))) \<and>
     ((\<exists>kv\<in>set kvs. find_field [''question'', ''k''] (to_valid (fst kv)) = None) \<longrightarrow>
       (\<exists>err. handleAsk api space r w s = (None, writeError r 400 (''invalid request body: '' @ err_text err) w, s)))"
proof (intro conjI impI)
  note reads = request_read [OF _ _ assms(6,1,2)]
  have q: "to_valid q = q" using assms(4) by (rule to_valid_id)
  have fields: "text_value (field_of name (VStruct [(name, VString q), (''k'', VInt k)])) = q"
    "int_value (field_of ''k'' (VStruct [(name, VString q), (''k'', VInt k)])) = k" if "name \<noteq> ''k''" for name
    using that by (simp_all add: field_of_def fields_of_def text_value_def int_value_def)
  show "handleSearch api space r w s =
      (case svSearch (aSvc api) (svc_ctx r (snd s)) (trim_space q) (clampK k) (fst s) of
            (Panics v, s') \<Rightarrow> (Some v, w, s', snd s)
          | (Returns (Inl e), s') \<Rightarrow> (None, respondUpstreamError r ''search failed'' e w (s', snd s), s', snd s)
          | (Returns (Inr hits), s') \<Rightarrow> (None, writeJSON 200 (searchResponse (aFloat api) space hits) w, s', snd s))"
    if "asks ''query'' q k kvs"
    using reads [OF that] q assms(5) fields [of "''query''"] by (simp add: handleSearch_def searchRequest_def)
  show "handleAsk api space r w s =
      (case svAsk (aSvc api) (svc_ctx r (snd s)) (trim_space q) (clampK k) (fst s) of
            (Panics v, s') \<Rightarrow> (Some v, w, s', snd s)
          | (Returns (Inl e), s') \<Rightarrow> (None, respondUpstreamError r ''ask failed'' e w (s', snd s), s', snd s)
          | (Returns (Inr a), s') \<Rightarrow> (None, writeJSON 200 (askResponse (aFloat api) space a) w, s', snd s))"
    if "asks ''question'' q k kvs"
    using reads [OF that] q assms(5) fields [of "''question''"] by (simp add: handleAsk_def askRequest_def)
  note refused = unknown_refused [OF _ _ assms(3,1,2)]
  show "\<exists>err. handleSearch api space r w s = (None, writeError r 400 (''invalid request body: '' @ err_text err) w, s)"
    if "\<exists>kv\<in>set kvs. find_field [''query'', ''k''] (to_valid (fst kv)) = None"
  proof -
    from that obtain kv where "kv \<in> set kvs" "find_field [''query'', ''k''] (to_valid (fst kv)) = None" by blast
    then have "\<exists>err. decodeBody (aWording api) r searchRequest = Inl err"
      unfolding searchRequest_def by (intro refused [of kv]) simp_all
    then obtain err where "decodeBody (aWording api) r searchRequest = Inl err" by blast
    then show ?thesis by (intro exI [of _ err]) (simp add: handleSearch_def)
  qed
  show "\<exists>err. handleAsk api space r w s = (None, writeError r 400 (''invalid request body: '' @ err_text err) w, s)"
    if "\<exists>kv\<in>set kvs. find_field [''question'', ''k''] (to_valid (fst kv)) = None"
  proof -
    from that obtain kv where "kv \<in> set kvs" "find_field [''question'', ''k''] (to_valid (fst kv)) = None" by blast
    then have "\<exists>err. decodeBody (aWording api) r askRequest = Inl err"
      unfolding askRequest_def by (intro refused [of kv]) simp_all
    then obtain err where "decodeBody (aWording api) r askRequest = Inl err" by blast
    then show ?thesis by (intro exI [of _ err]) (simp add: handleAsk_def)
  qed
qed

lemma requests_reach_the_service_witness:
  "handleSearch demo_api ''sp'' (demo_request []) fresh (0, idle_indexing) =
     (case svSearch demo_service (svc_ctx (demo_request []) idle_indexing) ''where is it'' 25 0 of
        (Panics v, s') \<Rightarrow> (Some v, fresh, s', idle_indexing)
      | (Returns (Inl e), s') \<Rightarrow>
          (None, respondUpstreamError (demo_request []) ''search failed'' e fresh (s', idle_indexing), s', idle_indexing)
      | (Returns (Inr hits), s') \<Rightarrow> (None, writeJSON 200 (searchResponse (aFloat demo_api) ''sp'' hits) fresh, s', idle_indexing))"
proof -
  let ?kvs = "[(''query'', JStr ''where is it''), (''k'', JNum ''100'')]"
  have body: "rBytes (demo_request []) = (encode (JObj ?kvs) @ [], None)" by (simp add: demo_request_def demo_body_def)
  have short: "length (encode (JObj ?kvs)) \<le> maxRequestBody" by code_simp
  have hundred: "show_int 100 = ''100''" by code_simp
  have asks: "asks ''query'' ''where is it'' 100 ?kvs" by (simp add: asks_def hundred)
  have words: "valid_utf8 ''where is it''" "trim_space ''where is it'' = ''where is it''" by code_simp+
  have vals: "clampK 100 = 25" "aSvc demo_api = demo_service" by (simp_all add: clampK_def demo_api_def)
  have "trim_space ''where is it'' \<noteq> []" "int64_range 100" by (simp_all add: words int64_range_def)
  note requests_reach_the_service [OF body short asks_writable [OF asks] words(1) this, of demo_api "''sp''" fresh "(0, idle_indexing)"]
  from mp [OF conjunct1 [OF this] asks] show ?thesis by (simp only: words(2) vals fst_conv snd_conv)
qed

section \<open>What an answer tells of an upstream error\<close>

text \<open>The service with the text of every error replaced, the two of a context apart.\<close>

definition redact :: "goerr \<Rightarrow> goerr" where
  "redact e = (if ctx_sentinel e then e else Plain ''redacted'')"

definition redact_run :: "'a result run \<times> 's \<Rightarrow> 'a result run \<times> 's" where
  "redact_run x = (case x of (Returns (Inl e), s) \<Rightarrow> (Returns (Inl (redact e)), s) | y \<Rightarrow> y)"

definition redacted :: "'s service \<Rightarrow> 's service" where
  "redacted sv =
     \<lparr>svStats = \<lambda>ctx s. redact_run (svStats sv ctx s), svSearch = \<lambda>ctx q k s. redact_run (svSearch sv ctx q k s),
      svAsk = \<lambda>ctx q k s. redact_run (svAsk sv ctx q k s),
      svIndex = \<lambda>s. map_option (\<lambda>((res, err), s). ((res, map_option redact err), s)) (svIndex sv s)\<rparr>"

abbreviation redacted_api :: "'s api \<Rightarrow> 's api" where
  "redacted_api api \<equiv> api\<lparr>aSvc := redacted (aSvc api)\<rparr>"

lemma is_err_redact: "t \<in> {Canceled, DeadlineExceeded} \<Longrightarrow> is_err t (redact e) = is_err t e"
  by (auto simp: redact_def ctx_sentinel_def)

text \<open>
  The one place that keeps such a text is the status of the last pass: two states of the
  server are alike if they differ there at most.
\<close>

definition hushed :: "indexing \<Rightarrow> indexing" where
  "hushed ix = ix\<lparr>ixStatus := (ixStatus ix)\<lparr>Error := []\<rparr>\<rparr>"

definition alike :: "'s \<times> indexing \<Rightarrow> 's \<times> indexing \<Rightarrow> bool" where
  "alike s t \<longleftrightarrow> fst s = fst t \<and> hushed (snd s) = hushed (snd t)"

text \<open>
  Contexts, clocks, the random source and the other goroutines do not look at that text; and a
  context ends with one of its two errors.
\<close>

definition error_blind :: "'s api \<Rightarrow> bool" where
  "error_blind api \<longleftrightarrow>
     (\<forall>s t. alike s t \<longrightarrow> fst (aRand api s) = fst (aRand api t) \<and> alike (snd (aRand api s)) (snd (aRand api t)) \<and>
        alike (aOthers api s) (aOthers api t) \<and>
        (\<forall>d s' t'. alike s' t' \<longrightarrow> aExpired api d s s' = aExpired api d t t'))"

definition same_ctx :: "('s \<times> indexing \<Rightarrow> sentinel option) \<Rightarrow> ('s \<times> indexing \<Rightarrow> sentinel option) \<Rightarrow> bool" where
  "same_ctx c d \<longleftrightarrow> (\<forall>s t. alike s t \<longrightarrow> c s = d t \<and> c s \<in> {None, Some Canceled, Some DeadlineExceeded})"

text \<open>
  Two outcomes a client cannot tell apart, and the exception: two answers to a request about
  indexing that give the same status but for its error.
\<close>

definition bare :: "writer \<Rightarrow> writer" where
  "bare w = w\<lparr>wLog := [], wRec := None\<rparr>"

definition told_status :: "(int \<Rightarrow> gostring) \<Rightarrow> writer \<Rightarrow> writer \<Rightarrow> bool" where
  "told_status clock a b \<longleftrightarrow>
     (\<exists>x y. x\<lparr>Error := []\<rparr> = y\<lparr>Error := []\<rparr> \<and> wBody a = encode (statusJSON clock x) \<and>
        bare b = (bare a)\<lparr>wBody := encode (statusJSON clock y)\<rparr>)"

definition indistinct ::
  "(int \<Rightarrow> gostring) \<Rightarrow> gostring list \<Rightarrow> gostring option \<times> writer \<times> 's \<times> indexing \<Rightarrow>
   gostring option \<times> writer \<times> 's \<times> indexing \<Rightarrow> bool" where
  "indistinct clock path a b \<longleftrightarrow> fst a = fst b \<and> alike (snd (snd a)) (snd (snd b)) \<and>
     (bare (fst (snd a)) = bare (fst (snd b)) \<or>
      path \<in> {[''reindex''], [''reindex'', ''status'']} \<and> fst a = None \<and> told_status clock (fst (snd a)) (fst (snd b)))"

lemma alike_refl [simp]: "alike s s"
  by (simp add: alike_def)

lemma alike_pair [simp]: "alike (x, i) (y, j) \<longleftrightarrow> x = y \<and> hushed i = hushed j"
  by (simp add: alike_def)

lemma indistinct_refl: "alike s t \<Longrightarrow> indistinct clock path (v, w, s) (v, w, t)"
  by (simp add: indistinct_def)

lemma add_log_bare [simp]: "bare (add_log l w) = bare w"
  by (simp add: bare_def add_log_def)

lemma writeError_bare: "bare w = bare w' \<Longrightarrow> bare (writeError r status msg w) = bare (writeError r status msg w')"
  by (cases w; cases w')
    (simp add: bare_def writeError_def writeJSON_def Write_def WriteHeader_def send_status_def set_header_def)

lemma same_ctxD: "same_ctx c d \<Longrightarrow> alike s t \<Longrightarrow> c s = d t \<and> c s \<in> {None, Some Canceled, Some DeadlineExceeded}"
  unfolding same_ctx_def by blast

lemma svc_ctx_alike: "same_ctx (rCtx r) c \<Longrightarrow> hushed i = hushed j \<Longrightarrow> svc_ctx (r\<lparr>rCtx := c\<rparr>) j = svc_ctx r i"
  unfolding svc_ctx_def same_ctx_def by (intro ext) simp

lemma respond_redacted:
  assumes "same_ctx (rCtx r) c" "alike s t"
  shows "bare (respondUpstreamError (r\<lparr>rCtx := c\<rparr>) msg (redact e) w t) = bare (respondUpstreamError r msg e w s)"
proof -
  note ctx = same_ctxD [OF assms]
  have "timed_out (r\<lparr>rCtx := c\<rparr>) (redact e) t = timed_out r e s"
  proof (cases "c t")
    case (Some x)
    then have "rCtx r s = Some x" "x \<in> {Canceled, DeadlineExceeded}" using ctx by auto
    then show ?thesis using Some is_err_redact [of x e] by (simp add: timed_out_def)
  qed (use ctx in \<open>simp add: timed_out_def\<close>)
  moreover have "writeError (r\<lparr>rCtx := c\<rparr>) status m w' = writeError r status m w'" for status m w' by (simp add: writeError_def)
  ultimately show ?thesis by (cases "timed_out r e s") (auto simp: respondUpstreamError_def intro!: writeError_bare)
qed

text \<open>The endpoints.\<close>

lemma reading_redacted:
  assumes "same_ctx (rCtx r) c" "alike s t"
  shows "indistinct clock path (handleHealth api r w s) (handleHealth (redacted_api api) (r\<lparr>rCtx := c\<rparr>) w t)"
    "indistinct clock path (handleSearch api space r w s) (handleSearch (redacted_api api) space (r\<lparr>rCtx := c\<rparr>) w t)"
    "indistinct clock path (handleAsk api space r w s) (handleAsk (redacted_api api) space (r\<lparr>rCtx := c\<rparr>) w t)"
proof -
  have s: "fst t = fst s" "hushed (snd s) = hushed (snd t)" using assms(2) by (simp_all add: alike_def)
  have err: "bare (respondUpstreamError r msg e w (x, snd s)) = bare (respondUpstreamError (r\<lparr>rCtx := c\<rparr>) msg (redact e) w (x, snd t))"
    for msg e x by (rule respond_redacted [OF assms(1), symmetric]) (simp add: s(2))
  have body: "decodeBody f (r\<lparr>rCtx := c\<rparr>) q = decodeBody f r q" for f q by (simp add: decodeBody_def)
  have refusal: "writeError (r\<lparr>rCtx := c\<rparr>) status m w' = writeError r status m w'" for status m w' by (simp add: writeError_def)
  note defs = redacted_def redact_run_def indistinct_def svc_ctx_alike [OF assms(1) s(2)] s err body refusal Let_def
  show "indistinct clock path (handleHealth api r w s) (handleHealth (redacted_api api) (r\<lparr>rCtx := c\<rparr>) w t)"
    by (simp add: handleHealth_def defs split: prod.splits run.splits sum.splits)
  show "indistinct clock path (handleSearch api space r w s) (handleSearch (redacted_api api) space (r\<lparr>rCtx := c\<rparr>) w t)"
    using assms(2) by (simp add: handleSearch_def defs split: prod.splits run.splits sum.splits)
  show "indistinct clock path (handleAsk api space r w s) (handleAsk (redacted_api api) space (r\<lparr>rCtx := c\<rparr>) w t)"
    using assms(2) by (simp add: handleAsk_def defs split: prod.splits run.splits sum.splits)
qed

lemma hushed_iff: "hushed i = hushed j \<longleftrightarrow> (ixStatus i)\<lparr>Error := []\<rparr> = (ixStatus j)\<lparr>Error := []\<rparr> \<and>
    ixPasses i = ixPasses j \<and> ixAsked i = ixAsked j"
  by (cases i; cases j) (simp add: hushed_def)

lemma status_iff: "x\<lparr>Error := []\<rparr> = y\<lparr>Error := []\<rparr> \<longleftrightarrow> State x = State y \<and> StartedAt x = StartedAt y \<and>
    FinishedAt x = FinishedAt y \<and> Result x = Result y"
  for x y :: indexStatus
  by (cases x; cases y) simp

lemma told_writeJSON:
  "wBody w = [] \<Longrightarrow> x\<lparr>Error := []\<rparr> = y\<lparr>Error := []\<rparr> \<Longrightarrow>
     told_status clock (writeJSON status (Some (statusJSON clock x)) w) (writeJSON status (Some (statusJSON clock y)) w)"
  unfolding told_status_def
  by (intro exI [of _ x] exI [of _ y])
    (simp add: writeJSON_def Write_def WriteHeader_def send_status_def set_header_def bare_def)

lemma indexing_redacted:
  assumes "error_blind api" "alike s t" "wBody w = []"
  shows "indistinct (aTime api) [''reindex''] (handleReindex api r w s) (handleReindex (redacted_api api) (r\<lparr>rCtx := c\<rparr>) w t)"
    "indistinct (aTime api) [''reindex'', ''status''] (handleReindexStatus api r w s)
       (handleReindexStatus (redacted_api api) (r\<lparr>rCtx := c\<rparr>) w t)"
proof -
  obtain x i j where st: "s = (x, i)" "t = (x, j)" and ij: "hushed i = hushed j"
    using assms(2) by (cases s; cases t) simp
  obtain b i1 where aski: "ask_reindex (aClock api x) i = (b, i1)" by (rule prod.exhaust)
  obtain b' j1 where askj: "ask_reindex (aClock api x) j = (b', j1)" by (rule prod.exhaust)
  have ij1: "b' = b" "hushed i1 = hushed j1"
    using ij aski askj by (auto simp: ask_reindex_def start_def hushed_iff status_iff split: if_splits)
  note ask = aski askj [unfolded ij1(1)]
  have "alike (aOthers api (x, i1)) (aOthers api (x, j1))"
    using assms(1) ij1(2) unfolding error_blind_def by (metis alike_pair)
  then obtain y i2 j2 where others: "aOthers api (x, i1) = (y, i2)" "aOthers api (x, j1) = (y, j2)" and ij2: "hushed i2 = hushed j2"
    by (cases "aOthers api (x, i1)"; cases "aOthers api (x, j1)") simp
  show "indistinct (aTime api) [''reindex''] (handleReindex api r w s) (handleReindex (redacted_api api) (r\<lparr>rCtx := c\<rparr>) w t)"
    using told_writeJSON [OF assms(3)] ij2
    by (simp add: handleReindex_def st ask others answer_reindex_def snapshot_def indistinct_def hushed_iff)
  show "indistinct (aTime api) [''reindex'', ''status''] (handleReindexStatus api r w s)
       (handleReindexStatus (redacted_api api) (r\<lparr>rCtx := c\<rparr>) w t)"
    using told_writeJSON [OF assms(3)] ij
    by (simp add: handleReindexStatus_def st snapshot_def indistinct_def hushed_iff)
qed

lemma mux_redacted:
  assumes "same_ctx (rCtx r) c" "error_blind api" "alike s t" "wBody w = []"
  shows "indistinct (aTime api) (rSegs r) (mux api space r w s) (mux (redacted_api api) space (r\<lparr>rCtx := c\<rparr>) w t)"
  using indexing_redacted [OF assms(2-4)] reading_redacted [OF assms(1,3)] assms(3)
  by (cases "rRedirect r"; cases "endpoint (rSegs r) :: (gostring \<times> ('a api \<Rightarrow> gostring \<Rightarrow> 'a api_handler)) option")
    (auto simp: mux_def redirect_def Let_def intro!: indistinct_refl elim!: endpoint_cases)

lemma same_ctx_timeout:
  assumes "same_ctx (rCtx r) c" "error_blind api" "alike s t"
  shows "same_ctx (\<lambda>s'. case rCtx r s' of Some e \<Rightarrow> Some e | None \<Rightarrow> if aExpired api d s s' then Some DeadlineExceeded else None)
    (\<lambda>t'. case c t' of Some e \<Rightarrow> Some e | None \<Rightarrow> if aExpired api d t t' then Some DeadlineExceeded else None)"
  unfolding same_ctx_def
proof (intro allI impI)
  fix s' t' :: "'a \<times> indexing"
  assume st: "alike s' t'"
  have "aExpired api d s s' = aExpired api d t t'" using assms(2,3) st unfolding error_blind_def by blast
  with same_ctxD [OF assms(1) st]
  show "(case rCtx r s' of Some e \<Rightarrow> Some e | None \<Rightarrow> if aExpired api d s s' then Some DeadlineExceeded else None) =
      (case c t' of Some e \<Rightarrow> Some e | None \<Rightarrow> if aExpired api d t t' then Some DeadlineExceeded else None) \<and>
    (case rCtx r s' of Some e \<Rightarrow> Some e | None \<Rightarrow> if aExpired api d s s' then Some DeadlineExceeded else None) \<in>
      {None, Some Canceled, Some DeadlineExceeded}"
    by (auto split: option.split)
qed

lemma inner_redacted:
  assumes "same_ctx (rCtx r) (rCtx r)" "error_blind api" "alike s t" "wBody w = []"
  shows "indistinct (aTime api) (rSegs r) (inner api space cfg r w s) (inner (redacted_api api) space cfg r w t)"
proof -
  let ?ctx = "\<lambda>s s'. (case rCtx r s' of Some e \<Rightarrow> Some e
      | None \<Rightarrow> if aExpired api (RequestTimeout cfg) s s' then Some DeadlineExceeded else None)"
  have "same_ctx (rCtx (r\<lparr>rCtx := ?ctx s\<rparr>)) (?ctx t)"
    using same_ctx_timeout [OF assms(1-3)] by simp
  from mux_redacted [OF this assms(2-4), of space]
  have "indistinct (aTime api) (rSegs r) (mux api space (r\<lparr>rCtx := ?ctx s\<rparr>) w s)
      (mux (redacted_api api) space (r\<lparr>rCtx := ?ctx t\<rparr>) w t)" by simp
  then show ?thesis using assms(3)
    by (auto simp: inner_def withTimeout_def withAuth_def writeError_def intro!: indistinct_refl)
qed

text \<open>The wrappers around.\<close>

lemma wrapped_indistinct:
  assumes "indistinct clock path (h r (w\<lparr>wRec := Some (0, 0)\<rparr>) s) (h' r (w\<lparr>wRec := Some (0, 0)\<rparr>) t)"
  shows "indistinct clock path (withRecover (withLogging h) r w s) (withRecover (withLogging h') r w t)"
proof -
  obtain p w1 s1 p' w2 t1 where runs: "h r (w\<lparr>wRec := Some (0, 0)\<rparr>) s = (p, w1, s1)"
    "h' r (w\<lparr>wRec := Some (0, 0)\<rparr>) t = (p', w2, t1)" by (metis prod.exhaust)
  have reset: "bare (x\<lparr>wRec := y\<rparr>) = bare x" "wBody (x\<lparr>wRec := y\<rparr>) = wBody x" "wBody (add_log l x) = wBody x" for x y l
    by (simp_all add: bare_def add_log_def)
  show ?thesis
  proof (cases p)
    case None
    then show ?thesis using assms
      by (simp add: runs withRecover_def withLogging_def indistinct_def told_status_def reset case_prod_beta Let_def)
  next
    case (Some v)
    then have "p' = Some v" "bare w1 = bare w2" "alike s1 t1" using assms by (simp_all add: runs indistinct_def)
    then show ?thesis using Some
      by (auto simp: runs withRecover_def withLogging_def indistinct_def reset intro!: writeError_bare)
  qed
qed

lemma Handler_redacted:
  assumes "same_ctx (rCtx r) (rCtx r)" "error_blind api" "alike s t"
  shows "indistinct (aTime api) (rSegs r) (Handler api space cfg r fresh s) (Handler (redacted_api api) space cfg r fresh t)"
proof -
  obtain rid s1 where a: "tagged api r s = (rid, s1)" by (rule prod.exhaust)
  have "fst (aRand api s) = fst (aRand api t) \<and> alike (snd (aRand api s)) (snd (aRand api t))"
    using assms(2,3) unfolding error_blind_def by blast
  then obtain t1 where b: "tagged (redacted_api api) r t = (rid, t1)" "alike s1 t1"
    using a assms(3) by (auto simp: tagged_def case_prod_beta split: if_splits)
  have "wBody (set_header ''X-Request-Id'' rid fresh\<lparr>wRec := Some (0, 0)\<rparr>) = []" by (simp add: set_header_def fresh_def)
  from inner_redacted [OF _ assms(2) b(2) this, of "r\<lparr>rID := rid\<rparr>" space cfg] assms(1)
  show ?thesis by (simp add: Handler_tagged a b(1) wrapped_indistinct)
qed

text \<open>The end of a pass, and a server's history: requests, with passes that end in between.\<close>

lemma pass_redacted:
  assumes "run_pass api x = Some (f, x')"
  obtains g where "run_pass (redacted_api api) x = Some (g, x')" "\<And>i j. hushed i = hushed j \<Longrightarrow> hushed (f i) = hushed (g j)"
proof -
  from assms obtain res err where r: "svIndex (aSvc api) x = Some ((res, err), x')"
    and f: "f = (\<lambda>ix. ix\<lparr>ixStatus := run_end (aClock api x') res err (ixStatus ix), ixPasses := ixPasses ix - 1\<rparr>)"
    by (auto simp: run_pass_def split: option.splits)
  let ?g = "\<lambda>ix. ix\<lparr>ixStatus := run_end (aClock api x') res (map_option redact err) (ixStatus ix), ixPasses := ixPasses ix - 1\<rparr>"
  have "run_pass (redacted_api api) x = Some (?g, x')" by (simp add: run_pass_def redacted_def r)
  moreover have "hushed (f i) = hushed (?g j)" if "hushed i = hushed j" for i j
    using that by (cases err) (simp_all add: f hushed_iff status_iff run_end_def Let_def)
  ultimately show ?thesis using that by blast
qed

lemma pass_redacted_None: "run_pass api x = None \<Longrightarrow> run_pass (redacted_api api) x = None"
  by (auto simp: run_pass_def redacted_def split: option.splits)

datatype 's happening = Asked "('s \<times> indexing) request" | PassEnds

fun history ::
  "'s api \<Rightarrow> gostring \<Rightarrow> http_config \<Rightarrow> 's happening list \<Rightarrow> 's \<times> indexing \<Rightarrow>
   (gostring list \<times> gostring option \<times> writer \<times> 's \<times> indexing) list" where
  "history api space cfg [] s = []"
| "history api space cfg (Asked r # es) s =
     (case Handler api space cfg r fresh s of (p, w, s') \<Rightarrow> (rSegs r, p, w, s') # history api space cfg es s')"
| "history api space cfg (PassEnds # es) s =
     (case run_pass api (fst s) of
        None \<Rightarrow> []
      | Some (finish, x) \<Rightarrow> history api space cfg es (x, finish (snd s)))"


text \<open>A pass that fails, and four requests around it.\<close>

definition failing_api :: "nat api" where
  "failing_api = demo_api\<lparr>aSvc := demo_service\<lparr>svIndex := \<lambda>s. Some ((no_result, Some (Plain ''key 123 is out of quota'')), s)\<rparr>\<rparr>"

definition demo_history :: "nat happening list" where
  "demo_history =
     [Asked ((demo_request [])\<lparr>rSegs := [''reindex'']\<rparr>), PassEnds,
      Asked ((demo_request [])\<lparr>rMethod := ''GET'', rSegs := [''reindex'', ''status'']\<rparr>), Asked (demo_request [])]"

definition demo_answers :: "nat api \<Rightarrow> (int \<times> gostring) list" where
  "demo_answers api = map (\<lambda>(path, p, w, s). (wStatus w, wBody w)) (history api ''sp'' DefaultConfig demo_history (0, idle_indexing))"


section \<open>Requests only read\<close>

text \<open>A service none of whose calls changes what \<open>view\<close> shows of the state.\<close>

locale reading =
  fixes sv :: "'s service" and view :: "'s \<Rightarrow> 'v"
  assumes stats_reads: "svStats sv ctx s = (x, s') \<Longrightarrow> view s' = view s"
    and search_reads: "svSearch sv ctx q k s = (y, s') \<Longrightarrow> view s' = view s"
    and ask_reads: "svAsk sv ctx q k s = (z, s') \<Longrightarrow> view s' = view s"
begin

lemma mux_reads:
  assumes "aSvc api = sv" "\<And>x. view (fst (aOthers api x)) = view (fst x)"
  shows "view (fst (snd (snd (mux api space r w s)))) = view (fst s)"
proof -
  have "view (fst (snd (snd (handleHealth api r w s)))) = view (fst s)"
    "view (fst (snd (snd (handleSearch api space r w s)))) = view (fst s)"
    "view (fst (snd (snd (handleAsk api space r w s)))) = view (fst s)"
    using assms(1) stats_reads search_reads ask_reads
    by (auto simp: handleHealth_def handleSearch_def handleAsk_def Let_def split: prod.splits run.splits sum.splits)
  moreover have "view (fst (snd (snd (handleReindex api r w s)))) = view (fst s)"
    using assms(2) [of "(fst s, snd (ask_reindex (aClock api (fst s)) (snd s)))"]
    by (simp add: handleReindex_def Let_def case_prod_beta)
  moreover have "view (fst (snd (snd (handleReindexStatus api r w s)))) = view (fst s)"
    by (simp add: handleReindexStatus_def)
  ultimately show ?thesis
    by (cases "rRedirect r"; cases "endpoint (rSegs r) :: (gostring \<times> ('s api \<Rightarrow> gostring \<Rightarrow> 's api_handler)) option")
      (auto simp: mux_def elim!: endpoint_cases)
qed

lemma Handler_reads:
  assumes "aSvc api = sv" "\<And>x. view (fst (aOthers api x)) = view (fst x)"
    "\<And>x. view (fst (snd (aRand api x))) = view (fst x)"
  shows "view (fst (snd (snd (Handler api space cfg r w s)))) = view (fst s)"
proof -
  obtain rid s1 where t: "tagged api r s = (rid, s1)" by (rule prod.exhaust)
  have "view (fst s1) = view (fst s)" using t assms(3) [of s] by (auto simp: tagged_def split: if_splits prod.splits)
  moreover have "view (fst (snd (snd (inner api space cfg r' w' s')))) = view (fst s')" for r' w' s'
    using mux_reads [OF assms(1,2)] by (simp add: inner_def withTimeout_def withAuth_def)
  ultimately show ?thesis by (simp add: Handler_tagged t wrapped_state)
qed

end

text \<open>The knowledge base as the service. The context of a request is part of its world.\<close>

definition kb_service :: "'w host \<Rightarrow> 'w knowledge \<Rightarrow> ('w \<times> pg) service" where
  "kb_service h k =
     \<lparr>svStats = \<lambda>ctx s. (case Knowledge_Stats h k s of (r, s) \<Rightarrow> (Returns r, s)),
      svSearch = \<lambda>ctx q n s. (case Knowledge_Search h k q n s of (r, s) \<Rightarrow> (Returns r, s)),
      svAsk = \<lambda>ctx q n s. (case Knowledge_Ask h k q n s of (r, s) \<Rightarrow> (Returns r, s)),
      svIndex = Knowledge_Index h k\<rparr>"

lemma exec_reads: "(\<And>db. snd (stmt db) = db) \<Longrightarrow> snd (snd (exec env stmt s)) = snd s"
  using exec_state [of env stmt s] by metis

lemma storage_reads:
  "snd (snd (storage_Stats env ref s)) = snd s" "snd (snd (storage_Search env pv ref v n s)) = snd s"
  by (simp_all add: storage_Stats_def storage_Search_def Let_def exec_reads)

lemma Knowledge_reads:
  shows Stats_reads: "snd (snd (Knowledge_Stats h k s)) = snd s"
    and Search_reads: "snd (snd (Knowledge_Search h k q n s)) = snd s"
    and Ask_reads: "snd (snd (Knowledge_Ask h k q n s)) = snd s"
proof -
  show "snd (snd (Knowledge_Stats h k s)) = snd s"
    using storage_reads(1) [of "hDb h" "kSpace k" s]
    by (cases "storage_Stats (hDb h) (kSpace k) s"; cases "fst (storage_Stats (hDb h) (kSpace k) s)")
      (simp_all add: Knowledge_Stats_def)
  have search: "snd (snd (Knowledge_Search h k q n s)) = snd s"
  proof -
    obtain r w where e: "Embed (kEmbed k) [q] KindQuery (fst s) = (r, w)" by (rule prod.exhaust)
    obtain f s2 where f: "storage_Search (hDb h) (hVec h) (kSpace k) (projr r ! 0) n (w, snd s) = (f, s2)" by (rule prod.exhaust)
    then have "snd s2 = snd s" using storage_reads(2) [of "hDb h" "hVec h" "kSpace k" "projr r ! 0" n "(w, snd s)"] by simp
    then show ?thesis using e f by (cases r; cases f) (simp_all add: Knowledge_Search_def)
  qed
  then show "snd (snd (Knowledge_Search h k q n s)) = snd s" .
  obtain r s1 where r: "Knowledge_Search h k q n s = (r, s1)" by (rule prod.exhaust)
  then have "snd s1 = snd s" using search by simp
  then show "snd (snd (Knowledge_Ask h k q n s)) = snd s" using r
    by (cases "kLlm k"; cases r) (simp_all add: Knowledge_Ask_def Let_def split: prod.splits sum.splits)
qed

interpretation kb: reading "kb_service h k" snd for h k
proof
  fix ctx s x s' q n y z
  show "svStats (kb_service h k) ctx s = (x, s') \<Longrightarrow> snd s' = snd s"
    using Stats_reads [of h k s] by (auto simp: kb_service_def case_prod_beta)
  show "svSearch (kb_service h k) ctx q n s = (y, s') \<Longrightarrow> snd s' = snd s"
    using Search_reads [of h k q n s] by (auto simp: kb_service_def case_prod_beta)
  show "svAsk (kb_service h k) ctx q n s = (z, s') \<Longrightarrow> snd s' = snd s"
    using Ask_reads [of h k q n s] by (auto simp: kb_service_def case_prod_beta)
qed

text \<open>
  No request changes the index. With the knowledge base behind the handlers, whatever a
  request asks for - malformed, unauthorised, a search, a question, a report or a new
  indexing pass - and however the providers and the server answer it, the database after
  it is the one before it; only the background pass writes, which runs elsewhere.
\<close>

theorem requests_keep_index:
  assumes "aSvc api = kb_service h k" "\<And>x. snd (fst (aOthers api x)) = snd (fst x)"
    "\<And>x. snd (fst (snd (aRand api x))) = snd (fst x)"
  shows "snd (fst (snd (snd (Handler api space cfg r w s)))) = snd (fst s)"
  using assms by (rule kb.Handler_reads)

definition kb_api :: "(unit \<times> pg) api" where
  "kb_api = \<lparr>aSvc = kb_service demo_host demo_kb, aClock = \<lambda>s. 0, aOthers = \<lambda>s. s,
     aWording = \<lambda>b f. Plain ''unreadable'', aFloat = \<lambda>x. Some ''0'', aTime = show_int,
     aRand = \<lambda>s. (''01234567'', s), aExpired = \<lambda>d s s'. False, aSha = \<lambda>t. t\<rparr>"

definition kb_request :: "((unit \<times> pg) \<times> indexing) request" where
  "kb_request = \<lparr>rMethod = ''POST'', rPath = ''/search'', rSegs = [''search''], rRedirect = None,
     rHeaders = (\<lambda>h. []), rBytes = demo_body ''query'', rID = [], rCtx = \<lambda>s. None\<rparr>"

lemma requests_keep_index_witness:
  "wStatus (fst (snd (Handler kb_api ''sp'' DefaultConfig kb_request fresh (((), demo_pg), idle_indexing)))) = 200 \<and>
   snd (fst (snd (snd (Handler kb_api ''sp'' DefaultConfig kb_request fresh (((), demo_pg), idle_indexing))))) = demo_pg"
proof -
  have "aSvc kb_api = kb_service demo_host demo_kb" "snd (fst (aOthers kb_api x)) = snd (fst x)"
    "snd (fst (snd (aRand kb_api x))) = snd (fst x)" for x by (simp_all add: kb_api_def)
  from requests_keep_index [OF this, of "''sp''" DefaultConfig kb_request fresh "(((), demo_pg), idle_indexing)"]
  have "snd (fst (snd (snd (Handler kb_api ''sp'' DefaultConfig kb_request fresh (((), demo_pg), idle_indexing))))) = demo_pg"
    by simp
  moreover have "wStatus (fst (snd (Handler kb_api ''sp'' DefaultConfig kb_request fresh (((), demo_pg), idle_indexing)))) = 200"
    by code_simp
  ultimately show ?thesis by blast
qed

text \<open>The pass in the background always ends, on a consistent database, and leaves one.\<close>

lemma kb_pass_ends:
  assumes "aSvc api = kb_service h k" "db_ok (snd s)"
  shows "\<exists>finish s'. run_pass api s = Some (finish, s') \<and> db_ok (snd s')"
  using Index_ends [OF assms(2), of h k] assms(1) by (auto simp: run_pass_def kb_service_def)

end
