(* ===== verification/Commands.thy ===== *)
theory Commands
  imports Opening Access
begin

text \<open>
  The commands \<open>ingest\<close> (\<open>cmd/ingest/main.go\<close>) and \<open>ask\<close> (\<open>cmd/ask/main.go\<close>): what they open, call,
  print and return. The flags are arguments (\<open>Mains\<close> reads them), and the text of a number with three
  decimals is a parameter. \<open>Index\<close> is a partial function, so a command that calls it is one.
\<close>

section \<open>What the commands print\<close>

definition t_space :: gostring where
  "t_space = of_runes [0x41F, 0x440, 0x43E, 0x441, 0x442, 0x440, 0x430, 0x43D, 0x441, 0x442, 0x432, 0x43E, 0x20]"
definition t_notes :: gostring where
  "t_notes = of_runes [0x3A, 0x20, 0x437, 0x430, 0x43C, 0x435, 0x442, 0x43E, 0x43A, 0x20]"
definition t_chunks :: gostring where
  "t_chunks = of_runes [0x2C, 0x20, 0x447, 0x430, 0x43D, 0x43A, 0x43E, 0x432, 0x20]"
definition t_vectors :: gostring where
  "t_vectors = of_runes [0x2C, 0x20, 0x432, 0x435, 0x43A, 0x442, 0x43E, 0x440, 0x43E, 0x432, 0x20]"
definition t_written :: gostring where
  "t_written = of_runes [0xA, 0x417, 0x430, 0x43C, 0x435, 0x442, 0x43A, 0x438, 0x3A, 0x20, 0x437, 0x430, 0x43F, 0x438,
    0x441, 0x430, 0x43D, 0x43E, 0x20]"
definition t_unchanged :: gostring where
  "t_unchanged = of_runes [0x2C, 0x20, 0x431, 0x435, 0x437, 0x20, 0x438, 0x437, 0x43C, 0x435, 0x43D, 0x435, 0x43D, 0x438,
    0x439, 0x20]"
definition t_deleted :: gostring where
  "t_deleted = of_runes [0x2C, 0x20, 0x443, 0x434, 0x430, 0x43B, 0x435, 0x43D, 0x43E, 0x20]"
definition t_failed :: gostring where
  "t_failed = of_runes [0x2C, 0x20, 0x441, 0x20, 0x43E, 0x448, 0x438, 0x431, 0x43A, 0x430, 0x43C, 0x438, 0x20]"
definition t_embedded :: gostring where
  "t_embedded = of_runes [0x412, 0x435, 0x43A, 0x442, 0x43E, 0x440, 0x43E, 0x432, 0x20, 0x43F, 0x43E, 0x441, 0x447,
    0x438, 0x442, 0x430, 0x43D, 0x43E, 0x3A, 0x20]"
definition t_total :: gostring where
  "t_total = of_runes [0xA, 0x418, 0x442, 0x43E, 0x433, 0x3A, 0x20, 0x437, 0x430, 0x43C, 0x435, 0x442, 0x43E, 0x43A,
    0x20]"
definition t_in :: gostring where
  "t_in = of_runes [0x20, 0x432, 0x20, 0x43F, 0x440, 0x43E, 0x441, 0x442, 0x440, 0x430, 0x43D, 0x441, 0x442, 0x432,
    0x435, 0x20]"
definition t_no_question :: gostring where
  "t_no_question = of_runes [0x43D, 0x435, 0x20, 0x437, 0x430, 0x434, 0x430, 0x43D, 0x20, 0x432, 0x43E, 0x43F, 0x440, 0x43E,
    0x441]"
definition t_nothing :: gostring where
  "t_nothing = of_runes [0x41D, 0x438, 0x447, 0x435, 0x433, 0x43E, 0x20, 0x43D, 0x435, 0x20, 0x43D, 0x430, 0x439, 0x434,
    0x435, 0x43D, 0x43E, 0x2E, 0x20, 0x418, 0x43D, 0x434, 0x435, 0x43A, 0x441, 0x20, 0x43F, 0x443, 0x441,
    0x442, 0x3F, 0x20, 0x417, 0x430, 0x43F, 0x443, 0x441, 0x442, 0x438, 0x3A, 0x20, 0x67, 0x6F, 0x20, 0x72,
    0x75, 0x6E, 0x20, 0x2E, 0x2F, 0x63, 0x6D, 0x64, 0x2F, 0x69, 0x6E, 0x67, 0x65, 0x73, 0x74, 0xA]"
definition t_spaces :: gostring where
  "t_spaces = of_runes [0x41F, 0x440, 0x43E, 0x441, 0x442, 0x440, 0x430, 0x43D, 0x441, 0x442, 0x432, 0x43E, 0x3A, 0x20]"
definition t_untitled :: gostring where
  "t_untitled = of_runes [0x28, 0x431, 0x435, 0x437, 0x20, 0x437, 0x430, 0x433, 0x43E, 0x43B, 0x43E, 0x432, 0x43A, 0x430,
    0x29]"
definition t_shown :: gostring where
  "t_shown = of_runes [0xA, 0x41F, 0x43E, 0x43A, 0x430, 0x437, 0x430, 0x43D, 0x43E, 0x20, 0x43C, 0x43E, 0x434, 0x435,
    0x43B, 0x438, 0x3A, 0xA]"
definition t_model :: gostring where
  "t_model = of_runes [0xA, 0x28, 0x43C, 0x43E, 0x434, 0x435, 0x43B, 0x44C, 0x3A, 0x20]"
definition t_model_space :: gostring where
  "t_model_space = of_runes [0x2C, 0x20, 0x43F, 0x440, 0x43E, 0x441, 0x442, 0x440, 0x430, 0x43D, 0x441, 0x442, 0x432, 0x43E,
    0x3A, 0x20]"
definition t_parts :: gostring where
  "t_parts = of_runes [0x2C, 0x20, 0x444, 0x440, 0x430, 0x433, 0x43C, 0x435, 0x43D, 0x442, 0x43E, 0x432, 0x3A, 0x20]"
definition t_best :: gostring where
  "t_best = of_runes [0x2C, 0x20, 0x43B, 0x443, 0x447, 0x448, 0x430, 0x44F, 0x20, 0x431, 0x43B, 0x438, 0x437, 0x43E,
    0x441, 0x442, 0x44C, 0x3A, 0x20]"
definition t_dash :: gostring where
  "t_dash = of_runes [0x20, 0x2014, 0x20]"

text \<open>A call on the database of an open knowledge base.\<close>

definition on_db :: "('w \<times> pg \<Rightarrow> 'a \<times> 'w \<times> pg) \<Rightarrow> 'w pooled \<Rightarrow> 'a \<times> 'w pooled" where
  "on_db f s = (case f (fst s, fst (snd s)) of (r, w, db) \<Rightarrow> (r, w, db, snd (snd s)))"

definition counts_text :: "Stats \<Rightarrow> gostring" where
  "counts_text st = show_nat (stNotes st) @ t_chunks @ show_nat (stChunks st) @ t_vectors @ show_nat (stEmbedded st)"

definition before_text :: "Stats \<Rightarrow> gostring" where
  "before_text st = t_space @ Space_String (stSpace st) @ t_notes @ counts_text st @ [newline]"

definition result_text :: "IndexResult \<Rightarrow> gostring" where
  "result_text res =
     t_written @ show_nat (NotesWritten res) @ t_unchanged @ show_nat (NotesUnchanged res) @
     t_deleted @ show_int (NotesDeleted res) @ t_failed @ show_nat (NotesFailed res) @ [newline] @
     t_embedded @ show_nat (ChunksEmbedded res) @ [newline]"

definition after_text :: "Stats \<Rightarrow> gostring" where
  "after_text st = t_total @ counts_text st @ t_in @ Space_String (stSpace st) @ [newline]"

section \<open>ingest\<close>

text \<open>The output, the error, and the state; \<open>None\<close> would be a pass without end.\<close>

definition ingest_open :: "'w host \<Rightarrow> 'w knowledge \<Rightarrow> 'w pooled \<Rightarrow> ((gostring \<times> goerr option) \<times> 'w pooled) option" where
  "ingest_open h kb s =
     (case on_db (Knowledge_Stats h kb) s of
        (Inl e, s) \<Rightarrow> Some (([], Some e), s)
      | (Inr before, s) \<Rightarrow>
          (case Knowledge_Index h kb (fst s, fst (snd s)) of
             None \<Rightarrow> None
           | Some ((res, indexErr), w, db) \<Rightarrow>
               (case on_db (Knowledge_Stats h kb) (w, db, snd (snd s)) of
                  (Inl e, s) \<Rightarrow> Some ((before_text before @ result_text res, Some e), s)
                | (Inr after, s) \<Rightarrow>
                    Some ((before_text before @ result_text res @ after_text after, indexErr), s))))"

definition ingest_run ::
  "parsing \<Rightarrow> (rune \<Rightarrow> rune) \<Rightarrow> environment \<Rightarrow> 'w host \<Rightarrow> 'w deps \<Rightarrow> 'w cluster \<Rightarrow> 'w pooled \<Rightarrow>
   ((gostring \<times> goerr option) \<times> 'w pooled) option" where
  "ingest_run ps ul env h d cl s =
     (case knowledge_ConfigFromEnv ps ul env of
        Inl e \<Rightarrow> Some (([], Some e), s)
      | Inr cfg \<Rightarrow>
          if cVaultPath cfg = [] then Some (([], Some (Plain ''VAULT_PATH is not set'')), s)
          else
            (case Open h d cl (cfg\<lparr>cGenerator := None\<rparr>) s of
               (Inl e, s) \<Rightarrow> Some (([], Some e), s)
             | (Inr kb, s) \<Rightarrow>
                 (case ingest_open h kb s of
                    None \<Rightarrow> None
                  | Some (r, s) \<Rightarrow> Some (r, Close s))))"

section \<open>ask\<close>

text \<open>\<open>strings.Fields\<close> and the text of a hit in one line.\<close>

definition strings_Fields :: "gostring \<Rightarrow> gostring list" where
  "strings_Fields s = fields_func is_space (segs s) []"

definition preview :: "gostring \<Rightarrow> nat \<Rightarrow> gostring" where
  "preview s limit =
     (let s = join '' '' (strings_Fields s); rs = runes s
      in if length rs \<le> limit then s else of_runes (take limit rs) @ ellipsis)"

fun hits_text :: "(float64 \<Rightarrow> gostring) \<Rightarrow> nat \<Rightarrow> KHit list \<Rightarrow> gostring" where
  "hits_text fmt3 i [] = []"
| "hits_text fmt3 i (h # hs) =
     (let heading = (if hTitle h = [] then t_untitled else hTitle h)
      in show_nat (i + 1) @ ''. ['' @ fmt3 (hScore h) @ ''] '' @ heading @ t_dash @ hSource h @ '' #'' @
         show_int (hIndex h) @ [newline] @ ''   '' @ preview (hText h) 240 @ [newline, newline]) @
     hits_text fmt3 (i + 1) hs"

definition printSearch ::
  "(float64 \<Rightarrow> gostring) \<Rightarrow> 'w host \<Rightarrow> 'w knowledge \<Rightarrow> gostring \<Rightarrow> int \<Rightarrow> 'w pooled \<Rightarrow> (gostring \<times> goerr option) \<times> 'w pooled" where
  "printSearch fmt3 h kb question topK s =
     (case on_db (Knowledge_Search h kb question topK) s of
        (Inl e, s) \<Rightarrow> (([], Some e), s)
      | (Inr hits, s) \<Rightarrow>
          if hits = [] then ((t_nothing, None), s)
          else ((t_spaces @ Space_String (knowledge_Space kb) @ [newline, newline] @ hits_text fmt3 0 hits, None), s))"

definition answer_text :: "(float64 \<Rightarrow> gostring) \<Rightarrow> Space \<Rightarrow> Answer \<Rightarrow> gostring" where
  "answer_text fmt3 space a =
     aText a @ [newline] @
     (if aSources a = [] then [] else t_shown @ concat (map (\<lambda>p. ''  - '' @ p @ [newline]) (aSources a))) @
     t_model @ aModel a @ t_model_space @ Space_String space @ t_parts @ show_nat (length (aHits a)) @
     t_best @ fmt3 (aTopScore a) @ '')'' @ [newline]"

definition printAnswer ::
  "(float64 \<Rightarrow> gostring) \<Rightarrow> 'w host \<Rightarrow> 'w knowledge \<Rightarrow> gostring \<Rightarrow> int \<Rightarrow> 'w pooled \<Rightarrow> (gostring \<times> goerr option) \<times> 'w pooled" where
  "printAnswer fmt3 h kb question topK s =
     (case on_db (Knowledge_Ask h kb question topK) s of
        (Inl e, s) \<Rightarrow> (([], Some e), s)
      | (Inr a, s) \<Rightarrow> ((answer_text fmt3 (knowledge_Space kb) a, None), s))"

definition ask_run ::
  "(float64 \<Rightarrow> gostring) \<Rightarrow> parsing \<Rightarrow> (rune \<Rightarrow> rune) \<Rightarrow> environment \<Rightarrow> 'w host \<Rightarrow> 'w deps \<Rightarrow> 'w cluster \<Rightarrow>
   int \<Rightarrow> bool \<Rightarrow> gostring list \<Rightarrow> 'w pooled \<Rightarrow> (gostring \<times> goerr option) \<times> 'w pooled" where
  "ask_run fmt3 ps ul env h d cl topK searchOnly args s =
     (let question = trim_space (join '' '' args) in
      if question = [] then (([], Some (Plain t_no_question)), s)
      else
        (case knowledge_ConfigFromEnv ps ul env of
           Inl e \<Rightarrow> (([], Some e), s)
         | Inr cfg \<Rightarrow>
             (case Open h d cl (if searchOnly then cfg\<lparr>cGenerator := None\<rparr> else cfg) s of
                (Inl e, s) \<Rightarrow> (([], Some e), s)
              | (Inr kb, s) \<Rightarrow>
                  (case (if searchOnly then printSearch fmt3 h kb question topK s
                         else printAnswer fmt3 h kb question topK s) of
                     (r, s) \<Rightarrow> (r, Close s)))))"

section \<open>How the commands end\<close>

lemma on_db_log: "on_db f s = (r, s') \<Longrightarrow> snd (snd s') = snd (snd s)"
  by (auto simp: on_db_def split: prod.splits)

lemma ingest_open_log: "ingest_open h kb s = Some (r, s') \<Longrightarrow> snd (snd s') = snd (snd s)"
  by (auto simp: ingest_open_def dest!: on_db_log split: prod.splits sum.splits option.splits)

lemma Open_pool: "Open h d cl cfg (w, db, []) = (Inr kb, s1) \<Longrightarrow> snd (snd s2) = snd (snd s1) \<Longrightarrow>
    held [] (snd (snd (Close s2))) = Some []"
  using Open_held [of h d cl cfg w db "Inr kb" s1] by (cases s2) (simp add: Close_def held_append)

text \<open>
  Both commands give back what they took, however they end, and the only thing \<open>ask\<close> can do to
  the database is what opening does.
\<close>

lemma commands_release:
  "ingest_run ps ul env h d cl (w, db, []) = Some (r, s') \<Longrightarrow> held [] (snd (snd s')) = Some []"
  "ask_run fmt3 ps ul env h d cl topK searchOnly args (w, db, []) = (r', s2) \<Longrightarrow> held [] (snd (snd s2)) = Some []"
proof -
  assume run: "ingest_run ps ul env h d cl (w, db, []) = Some (r, s')"
  show "held [] (snd (snd s')) = Some []"
  proof (cases "knowledge_ConfigFromEnv ps ul env")
    case (Inr cfg)
    obtain k s1 where op: "Open h d cl (cfg\<lparr>cGenerator := None\<rparr>) (w, db, []) = (k, s1)" by (rule prod.exhaust)
    show ?thesis using run Inr op Open_held [OF op]
      by (cases k) (auto simp: ingest_run_def Close_def held_append dest!: ingest_open_log split: if_splits option.splits)
  qed (use run in \<open>auto simp: ingest_run_def\<close>)
next
  assume run: "ask_run fmt3 ps ul env h d cl topK searchOnly args (w, db, []) = (r', s2)"
  show "held [] (snd (snd s2)) = Some []"
  proof (cases "trim_space (join '' '' args) = [] \<or> isl (knowledge_ConfigFromEnv ps ul env)")
    case True
    then show ?thesis using run by (auto simp: ask_run_def Let_def split: if_splits sum.splits)
  next
    case False
    then obtain cfg where cfg: "knowledge_ConfigFromEnv ps ul env = Inr cfg"
      by (cases "knowledge_ConfigFromEnv ps ul env") auto
    let ?cfg = "if searchOnly then cfg\<lparr>cGenerator := None\<rparr> else cfg"
    obtain k s1 where op: "Open h d cl ?cfg (w, db, []) = (k, s1)" by (rule prod.exhaust)
    show ?thesis
    proof (cases k)
      case (Inl e)
      then show ?thesis using run False cfg op Open_held [OF op] by (simp add: ask_run_def Let_def)
    next
      case (Inr kb)
      let ?q = "trim_space (join '' '' args)"
      obtain x s3 where p: "(if searchOnly then printSearch fmt3 h kb ?q topK s1 else printAnswer fmt3 h kb ?q topK s1) = (x, s3)"
        by (rule prod.exhaust)
      then have "snd (snd s3) = snd (snd s1)"
        by (auto simp: printSearch_def printAnswer_def dest!: on_db_log split: if_splits prod.splits sum.splits)
      moreover have "s2 = Close s3" using run False cfg op Inr p by (simp add: ask_run_def Let_def)
      ultimately show ?thesis using Open_pool op Inr by metis
    qed
  qed
qed

text \<open>
  A command that generates nothing still fails on the generator's settings: \<open>ConfigFromEnv\<close>
  reads them before the command can leave the generator out.
\<close>

lemma generator_settings_fail_commands:
  assumes "llm_ConfigFromEnv ps ul env = Inl e"
  shows "\<exists>x. ingest_run ps ul env h d cl s = Some (([], Some x), s)"
    "\<exists>x. ask_run fmt3 ps ul env h d cl topK True args s = (([], Some x), s)"
proof -
  have "isl (knowledge_ConfigFromEnv ps ul env)"
    using assms by (simp add: knowledge_ConfigFromEnv_def split: sum.splits)
  then obtain x where "knowledge_ConfigFromEnv ps ul env = Inl x" by (cases "knowledge_ConfigFromEnv ps ul env") auto
  then show "\<exists>x. ingest_run ps ul env h d cl s = Some (([], Some x), s)"
    "\<exists>x. ask_run fmt3 ps ul env h d cl topK True args s = (([], Some x), s)"
    by (simp_all add: ingest_run_def ask_run_def Let_def)
qed

end
