(* ===== verification/Server.thy ===== *)
theory Server
  imports Opening Access
begin

text \<open>
  Serving: \<open>Run\<close> and \<open>Serve\<close> (\<open>internal/httpapi/server.go\<close>) and the command \<open>server\<close>
  (\<open>cmd/server/main.go\<close>). The listener, the loop of \<open>http.Server\<close>, its shutdown and the signal
  are parameters: which of them ends first, and with what.
\<close>

section \<open>Serve and Run\<close>

text \<open>
  What \<open>net.Listen\<close> gives, an address and its text; the error \<open>srv.Serve\<close> ends with; whether the
  signal comes before it; and what \<open>srv.Shutdown\<close> says.
\<close>

record serving =
  netListen :: "gostring \<Rightarrow> (net_addr \<times> gostring) result"
  srvServe :: "goerr option"
  signalFirst :: bool
  srvShutdown :: "goerr option"

text \<open>What the goroutine sends on \<open>errCh\<close>.\<close>

definition serve_outcome :: "serving \<Rightarrow> gostring \<Rightarrow> goerr option" where
  "serve_outcome sv addr =
     (case srvServe sv of
        None \<Rightarrow> None
      | Some e \<Rightarrow> if is_err ErrServerClosed e then None else Some (wrap (''serve on '' @ addr) e))"

text \<open>The first result is the address and configuration requests are served with, if any are.\<close>

definition Serve :: "serving \<Rightarrow> http_config \<Rightarrow> net_addr \<times> gostring \<Rightarrow> (net_addr \<times> http_config) option \<times> goerr option" where
  "Serve sv cfg ln =
     (if AuthToken cfg = [] \<and> \<not> AllowUnauthenticated cfg \<and> reachableFromNetwork (fst ln) then
        (None, Some (Plain (''refusing to serve '' @ snd ln @ '' without authentication: set Config.AuthToken, '' @
           ''bind to 127.0.0.1, or set Config.AllowUnauthenticated if something in front of '' @
           ''this server authenticates callers'')))
      else
        (Some (fst ln, cfg),
         if \<not> signalFirst sv then serve_outcome sv (snd ln)
         else (case srvShutdown sv of
                 Some e \<Rightarrow> Some (wrap ''graceful shutdown'' e)
               | None \<Rightarrow> serve_outcome sv (snd ln))))"

definition Run :: "serving \<Rightarrow> http_config \<Rightarrow> (net_addr \<times> http_config) option \<times> goerr option" where
  "Run sv cfg =
     (case netListen sv (Addr cfg) of
        Inl e \<Rightarrow> (None, Some (wrap (''listen on '' @ Addr cfg) e))
      | Inr ln \<Rightarrow> Serve sv cfg ln)"

section \<open>The command\<close>

definition server_run ::
  "parsing \<Rightarrow> (rune \<Rightarrow> rune) \<Rightarrow> environment \<Rightarrow> 'w host \<Rightarrow> 'w deps \<Rightarrow> 'w cluster \<Rightarrow> serving \<Rightarrow> 'w pooled \<Rightarrow>
   ((net_addr \<times> http_config) option \<times> goerr option) \<times> 'w pooled" where
  "server_run ps ul env h d cl sv s =
     (case knowledge_ConfigFromEnv ps ul env of
        Inl e \<Rightarrow> ((None, Some e), s)
      | Inr cfg \<Rightarrow>
          (case Open h d cl cfg s of
             (Inl e, s) \<Rightarrow> ((None, Some e), s)
           | (Inr kb, s) \<Rightarrow>
               (let httpCfg = DefaultConfig\<lparr>Addr := config_String env ''HTTP_ADDR'' (Addr DefaultConfig),
                                AuthToken := config_String env ''RAG_API_TOKEN'' []\<rparr>
                in case config_Bool ps env ''RAG_ALLOW_UNAUTHENTICATED'' False of
                     Inl e \<Rightarrow> ((None, Some e), Close s)
                   | Inr allowOpen \<Rightarrow> (Run sv (httpCfg\<lparr>AllowUnauthenticated := allowOpen\<rparr>), Close s))))"

section \<open>The door is not open\<close>

lemma Serve_guarded: "Serve sv cfg ln = (Some (addr, cfg'), err) \<Longrightarrow>
    cfg' = cfg \<and> addr = fst ln \<and> (reachableFromNetwork addr \<longrightarrow> AuthToken cfg \<noteq> [] \<or> AllowUnauthenticated cfg)"
  by (auto simp: Serve_def split: if_splits)

lemma Run_guarded: "Run sv cfg = (Some (addr, cfg'), err) \<Longrightarrow>
    cfg' = cfg \<and> (reachableFromNetwork addr \<longrightarrow> AuthToken cfg \<noteq> [] \<or> AllowUnauthenticated cfg)"
  by (auto simp: Run_def split: sum.splits dest: Serve_guarded)

lemma Run_refused: "Run sv cfg = (None, err) \<Longrightarrow> err \<noteq> None"
  by (auto simp: Run_def Serve_def split: sum.splits if_splits)

text \<open>
  C17. The command never opens the knowledge base to the network by default. If it serves
  requests at an address that is reachable from outside the machine, then either the
  environment sets \<open>RAG_API_TOKEN\<close>, and exactly that token, trimmed, is required, or it sets
  \<open>RAG_ALLOW_UNAUTHENTICATED\<close> to a value that reads as true. If it serves nothing it reports an
  error; and however it ends the pool it opened is given back.
\<close>

theorem server_never_open:
  assumes "server_run ps ul env h d cl sv (w, db, []) = ((served, err), s')"
  shows "held [] (snd (snd s')) = Some [] \<and> (served = None \<longrightarrow> err \<noteq> None) \<and>
    (\<forall>addr cfg. served = Some (addr, cfg) \<longrightarrow>
       AuthToken cfg = trim_space (env ''RAG_API_TOKEN'') \<and>
       (reachableFromNetwork addr \<longrightarrow>
          AuthToken cfg \<noteq> [] \<or> parse_bool (trim_space (env ''RAG_ALLOW_UNAUTHENTICATED'')) = Some True))"
proof (cases "knowledge_ConfigFromEnv ps ul env")
  case (Inl e)
  then show ?thesis using assms by (auto simp: server_run_def)
next
  case (Inr cfg)
  obtain r s1 where op: "Open h d cl cfg (w, db, []) = (r, s1)" by (rule prod.exhaust)
  note held = Open_held [OF op]
  show ?thesis
  proof (cases r)
    case (Inl e)
    then show ?thesis using assms Inr op held by (auto simp: server_run_def)
  next
    case kb: (Inr kb)
    let ?cfg = "DefaultConfig\<lparr>Addr := config_String env ''HTTP_ADDR'' (Addr DefaultConfig),
        AuthToken := config_String env ''RAG_API_TOKEN'' []\<rparr>"
    have token: "AuthToken (?cfg\<lparr>AllowUnauthenticated := b\<rparr>) = trim_space (env ''RAG_API_TOKEN'')" for b
      by (simp add: config_String_def Let_def)
    show ?thesis
    proof (cases "config_Bool ps env ''RAG_ALLOW_UNAUTHENTICATED'' False")
      case (Inl e)
      then show ?thesis using assms Inr op kb held by (auto simp: server_run_def Let_def)
    next
      case allow: (Inr b)
      have true: "b \<Longrightarrow> parse_bool (trim_space (env ''RAG_ALLOW_UNAUTHENTICATED'')) = Some True"
        using allow by (auto simp: config_Bool_def Let_def split: if_splits option.splits)
      have run: "Run sv (?cfg\<lparr>AllowUnauthenticated := b\<rparr>) = (served, err)" "s' = Close s1"
        using assms Inr op kb allow by (simp_all add: server_run_def Let_def)
      have "served = None \<longrightarrow> err \<noteq> None" using Run_refused run(1) by blast
      moreover have "AuthToken cfg = trim_space (env ''RAG_API_TOKEN'') \<and>
         (reachableFromNetwork addr \<longrightarrow>
            AuthToken cfg \<noteq> [] \<or> parse_bool (trim_space (env ''RAG_ALLOW_UNAUTHENTICATED'')) = Some True)"
        if "served = Some (addr, cfg)" for addr cfg
        using Run_guarded [OF run(1) [unfolded that]] token [of b] true by auto
      ultimately show ?thesis using held run(2) kb by blast
    qed
  qed
qed

text \<open>An environment with everything the command needs, and a listener on every interface.\<close>

definition demo_env :: "(gostring \<times> gostring) list \<Rightarrow> environment" where
  "demo_env extra key =
     (case map_of (extra @ [(''POSTGRES_DB'', ''rag''), (''POSTGRES_HOST'', ''db''), (''POSTGRES_PASSWORD'', ''p''),
        (''POSTGRES_PORT'', ''5432''), (''POSTGRES_USER'', ''u''), (''EMBED_PROVIDER'', ''fake''), (''EMBED_DIM'', ''4''),
        (''VAULT_PATH'', ''/v'')]) key of
        Some v \<Rightarrow> v | None \<Rightarrow> [])"

definition demo_serving :: serving where
  "demo_serving = \<lparr>netListen = \<lambda>a. Inr (TCPAddr (replicate 16 0), a), srvServe = Some (Sentinel ErrServerClosed),
     signalFirst = True, srvShutdown = None\<rparr>"

definition demo_parsing :: parsing where
  "demo_parsing = \<lparr>parseFloat = \<lambda>s. None, printable = \<lambda>r. True\<rparr>"

abbreviation demo_server :: "(gostring \<times> gostring) list \<Rightarrow> ((net_addr \<times> http_config) option \<times> goerr option) \<times> nat pooled" where
  "demo_server extra \<equiv>
     server_run demo_parsing (\<lambda>r. r) (demo_env extra) nat_host small_deps demo_cluster demo_serving (0, empty_pg, [])"

lemma server_never_open_witness:
  "fst (fst (demo_server [])) = None \<and> snd (fst (demo_server [])) \<noteq> None \<and>
   (\<exists>addr cfg. fst (fst (demo_server [(''RAG_API_TOKEN'', '' t0k '')])) = Some (addr, cfg) \<and>
      reachableFromNetwork addr \<and> AuthToken cfg = ''t0k'')"
proof -
  obtain served err s' where closed: "demo_server [] = ((served, err), s')" by (metis prod.exhaust)
  have none: "fst (fst (demo_server [])) = None" by code_simp
  obtain served' err' s2 where op: "demo_server [(''RAG_API_TOKEN'', '' t0k '')] = ((served', err'), s2)" by (metis prod.exhaust)
  have "case fst (fst (demo_server [(''RAG_API_TOKEN'', '' t0k '')])) of None \<Rightarrow> False | Some (addr, cfg) \<Rightarrow> reachableFromNetwork addr"
    by code_simp
  then obtain addr cfg where some: "served' = Some (addr, cfg)" "reachableFromNetwork addr"
    unfolding op by (auto split: option.splits)
  have "trim_space (demo_env [(''RAG_API_TOKEN'', '' t0k '')] ''RAG_API_TOKEN'') = ''t0k''" by code_simp
  with server_never_open [OF op] some have "AuthToken cfg = ''t0k''" by simp
  moreover have "err \<noteq> None" using server_never_open [OF closed] none closed by simp
  ultimately show ?thesis using none closed op some by simp
qed

end
