(* ===== verification/Mains.thy ===== *)
theory Mains
  imports Commands Server
begin

text \<open>
  The three programs from their arguments to their exit status: \<open>main\<close> of \<open>cmd/ask\<close>,
  \<open>cmd/ingest\<close> and \<open>cmd/server\<close>, and the flags \<open>ask\<close> reads with the package \<open>flag\<close>. What the
  package prints about a bad flag or as help is left out; that it ends the program, and with
  which status, is not.
\<close>

section \<open>Numbers of a flag\<close>

text \<open>\<open>strconv.ParseInt\<close> with base 0: a prefix chooses the base and underscores may separate digits.\<close>

definition digit_of :: "char \<Rightarrow> nat option" where
  "digit_of c =
     (if is_digit c then Some (byte c - 48)
      else if 97 \<le> byte c \<and> byte c \<le> 122 then Some (byte c - 87)
      else if 65 \<le> byte c \<and> byte c \<le> 90 then Some (byte c - 55)
      else None)"

fun digits_in :: "nat \<Rightarrow> gostring \<Rightarrow> nat \<Rightarrow> nat option" where
  "digits_in base [] n = Some n"
| "digits_in base (c # s) n =
     (if c = CHR ''_'' then digits_in base s n
      else (case digit_of c of
              Some d \<Rightarrow> if d < base then digits_in base s (n * base + d) else None
            | None \<Rightarrow> None))"

definition base_of :: "char \<Rightarrow> nat option" where
  "base_of c = (if c \<in> set ''bB'' then Some 2 else if c \<in> set ''oO'' then Some 8 else if c \<in> set ''xX'' then Some 16 else None)"

definition split_base :: "gostring \<Rightarrow> nat \<times> gostring" where
  "split_base s =
     (if s \<noteq> [] \<and> hd s = CHR ''0'' then
        (case (if 3 \<le> length s then base_of (s ! 1) else None) of
           Some b \<Rightarrow> (b, drop 2 s)
         | None \<Rightarrow> (8, tl s))
      else (10, s))"

text \<open>The character before: none, a digit or prefix, an underscore, another one.\<close>

datatype before = Edge | Digit | Underscore | Another

fun separated :: "bool \<Rightarrow> before \<Rightarrow> gostring \<Rightarrow> bool" where
  "separated hex i [] \<longleftrightarrow> i \<noteq> Underscore"
| "separated hex i (c # s) \<longleftrightarrow>
     (if is_digit c \<or> hex \<and> (97 \<le> byte c \<and> byte c \<le> 102 \<or> 65 \<le> byte c \<and> byte c \<le> 70) then separated hex Digit s
      else if c = CHR ''_'' then i = Digit \<and> separated hex Underscore s
      else i \<noteq> Underscore \<and> separated hex Another s)"

definition underscoreOK :: "gostring \<Rightarrow> bool" where
  "underscoreOK s =
     (if 2 \<le> length s \<and> hd s = CHR ''0'' \<and> base_of (s ! 1) \<noteq> None
      then separated (base_of (s ! 1) = Some 16) Digit (drop 2 s)
      else separated False Edge s)"

definition parse_int0 :: "gostring \<Rightarrow> int option" where
  "parse_int0 s =
     (let neg = (s \<noteq> [] \<and> hd s = CHR ''-'');
          u = (if s \<noteq> [] \<and> (hd s = CHR ''-'' \<or> hd s = CHR ''+'') then tl s else s)
      in if u = [] then None
         else (case digits_in (fst (split_base u)) (snd (split_base u)) 0 of
                 None \<Rightarrow> None
               | Some n \<Rightarrow>
                   (let v = (if neg then - int n else int n)
                    in if int64_range v \<and> (CHR ''_'' \<in> set u \<longrightarrow> underscoreOK u) then Some v else None)))"

section \<open>The flags of \<open>ask\<close>\<close>

text \<open>What \<open>flag.Parse\<close> leaves: the values and the other words, or the status it exits with.\<close>

datatype flags = Parsed int bool "gostring list" | Exits nat

fun parse_flags :: "gostring list \<Rightarrow> int \<Rightarrow> bool \<Rightarrow> flags" where
  "parse_flags [] topK searchOnly = Parsed topK searchOnly []"
| "parse_flags (s # args) topK searchOnly =
     (if length s < 2 \<or> hd s \<noteq> CHR ''-'' then Parsed topK searchOnly (s # args)
      else if s = ''--'' then Parsed topK searchOnly args
      else
        (let name = (if s ! 1 = CHR ''-'' then drop 2 s else tl s) in
         if name = [] \<or> hd name = CHR ''-'' \<or> hd name = CHR ''='' then Exits 2
         else (case cut_at CHR ''='' name of
             (name, val, hasValue) \<Rightarrow>
               if name = ''k'' then
                 (if hasValue then
                    (case parse_int0 val of None \<Rightarrow> Exits 2 | Some v \<Rightarrow> parse_flags args v searchOnly)
                  else (case args of
                          [] \<Rightarrow> Exits 2
                        | val # args \<Rightarrow>
                            (case parse_int0 val of None \<Rightarrow> Exits 2 | Some v \<Rightarrow> parse_flags args v searchOnly)))
               else if name = ''search'' then
                 (if hasValue then
                    (case parse_bool val of None \<Rightarrow> Exits 2 | Some b \<Rightarrow> parse_flags args topK b)
                  else parse_flags args topK True)
               else if name = ''help'' \<or> name = ''h'' then Exits 0
               else Exits 2)))"

section \<open>The programs\<close>

text \<open>The status of a \<open>main\<close> whose \<open>run\<close> has returned: \<open>log.Fatalf\<close> exits with 1.\<close>

definition exit_status :: "goerr option \<Rightarrow> nat" where
  "exit_status err = (case err of None \<Rightarrow> 0 | Some e \<Rightarrow> 1)"

definition ask_main ::
  "(float64 \<Rightarrow> gostring) \<Rightarrow> parsing \<Rightarrow> (rune \<Rightarrow> rune) \<Rightarrow> environment \<Rightarrow> 'w host \<Rightarrow> 'w deps \<Rightarrow> 'w cluster \<Rightarrow>
   gostring list \<Rightarrow> 'w pooled \<Rightarrow> (gostring \<times> nat) \<times> 'w pooled" where
  "ask_main fmt3 ps ul env h d cl args s =
     (case parse_flags args 5 False of
        Exits code \<Rightarrow> (([], code), s)
      | Parsed topK searchOnly words \<Rightarrow>
          (case ask_run fmt3 ps ul env h d cl topK searchOnly words s of
             ((out, err), s) \<Rightarrow> ((out, exit_status err), s)))"

definition ingest_main ::
  "parsing \<Rightarrow> (rune \<Rightarrow> rune) \<Rightarrow> environment \<Rightarrow> 'w host \<Rightarrow> 'w deps \<Rightarrow> 'w cluster \<Rightarrow> 'w pooled \<Rightarrow>
   ((gostring \<times> nat) \<times> 'w pooled) option" where
  "ingest_main ps ul env h d cl s =
     (case ingest_run ps ul env h d cl s of
        None \<Rightarrow> None
      | Some ((out, err), s) \<Rightarrow> Some ((out, exit_status err), s))"

definition server_main ::
  "parsing \<Rightarrow> (rune \<Rightarrow> rune) \<Rightarrow> environment \<Rightarrow> 'w host \<Rightarrow> 'w deps \<Rightarrow> 'w cluster \<Rightarrow> serving \<Rightarrow> 'w pooled \<Rightarrow> nat \<times> 'w pooled" where
  "server_main ps ul env h d cl sv s =
     (case server_run ps ul env h d cl sv s of ((served, err), s) \<Rightarrow> (exit_status err, s))"

section \<open>A number is read as it is written\<close>

lemma digits_in_digits:
  "list_all is_digit s \<Longrightarrow> digits_in 10 s n = Some (foldl (\<lambda>n c. n * 10 + (byte c - 48)) n s)"
proof (induction s arbitrary: n)
  case (Cons c s)
  then have "c \<noteq> CHR ''_''" "digit_of c = Some (byte c - 48)" "byte c - 48 < 10"
    by (auto simp: is_digit_def digit_of_def)
  then show ?case using Cons by simp
qed simp

lemma parse_int0_show_int: "int64_range v \<Longrightarrow> parse_int0 (show_int v) = Some v"
proof -
  assume range: "int64_range v"
  have nat_part: "digits_in (fst (split_base (show_nat n))) (snd (split_base (show_nat n))) 0 = Some n"
    "CHR ''_'' \<notin> set (show_nat n)" for n
  proof -
    have ds: "list_all is_digit (show_nat n)" using show_nat_digits by (auto simp: list_all_iff)
    show "digits_in (fst (split_base (show_nat n))) (snd (split_base (show_nat n))) 0 = Some n"
    proof (cases "n = 0")
      case True
      have "digits_in (fst (split_base (show_nat 0))) (snd (split_base (show_nat 0))) 0 = Some 0" by code_simp
      then show ?thesis using True by simp
    next
      case False
      then have "split_base (show_nat n) = (10, show_nat n)" using show_nat_head by (auto simp: split_base_def)
      then show ?thesis using digits_in_digits [OF ds, of 0] digits_value_show_nat [of n] by (simp add: digits_value_def)
    qed
    show "CHR ''_'' \<notin> set (show_nat n)" using ds by (auto simp: list_all_iff is_digit_def)
  qed
  show ?thesis using range show_nat_no_sign nat_part
    by (auto simp: parse_int0_def show_int_def Let_def)
qed

section \<open>What \<open>ask\<close> makes of its arguments\<close>

text \<open>The flags end at the first word of the question; what looks like a flag after it is asked.\<close>

lemma words_end_flags: "word = [] \<or> hd word \<noteq> CHR ''-'' \<Longrightarrow> parse_flags (word # args) k b = Parsed k b (word # args)"
  by auto

lemma flags_before_words:
  assumes "int64_range n" "words = [] \<or> hd words = [] \<or> hd (hd words) \<noteq> CHR ''-''"
  shows "parse_flags (''-k'' # show_int n # (if b then [''-search''] else []) @ words) k False = Parsed n b words"
    "parse_flags ((''-k='' @ show_int n) # [''-search='' @ (if b then ''true'' else ''false'')] @ words) k b' = Parsed n b words"
proof -
  have rest: "parse_flags words k b = Parsed k b words" for k b using assms(2) by (cases words) auto
  show "parse_flags (''-k'' # show_int n # (if b then [''-search''] else []) @ words) k False = Parsed n b words"
    using parse_int0_show_int [OF assms(1)] rest by (simp add: cut_at_def)
  show "parse_flags ((''-k='' @ show_int n) # [''-search='' @ (if b then ''true'' else ''false'')] @ words) k b' = Parsed n b words"
    using parse_int0_show_int [OF assms(1)] rest by (simp add: cut_at_def parse_bool_def)
qed

text \<open>
  However a program ends, by a status of 0, 1 or 2, it has given back what it took, and it
  exits with 0 only if nothing failed. A bad flag or a call for help costs nothing.
\<close>

lemma programs_release:
  "ask_main fmt3 ps ul env h d cl args (w, db, []) = ((out, code), s) \<Longrightarrow>
     held [] (snd (snd s)) = Some [] \<and> code \<le> 2 \<and>
     (case parse_flags args 5 False of
        Exits c \<Rightarrow> s = (w, db, []) \<and> code = c
      | Parsed k b words \<Rightarrow> code = 0 \<longleftrightarrow> snd (fst (ask_run fmt3 ps ul env h d cl k b words (w, db, []))) = None)"
  "ingest_main ps ul env h d cl (w, db, []) = Some ((out', code'), s') \<Longrightarrow> held [] (snd (snd s')) = Some [] \<and> code' \<le> 1"
  "server_main ps ul env h d cl sv (w, db, []) = (code'', s'') \<Longrightarrow> code'' \<le> 1"
proof -
  have two: "parse_flags args k b = Exits c \<Longrightarrow> c \<le> 2" for args k b c
    by (induction args k b rule: parse_flags.induct) (auto simp: Let_def split: if_splits prod.splits option.splits list.splits)
  have small: "exit_status e \<le> 1" "exit_status e = 0 \<longleftrightarrow> e = None" for e by (simp_all add: exit_status_def split: option.splits)
  { assume run: "ask_main fmt3 ps ul env h d cl args (w, db, []) = ((out, code), s)"
    show "held [] (snd (snd s)) = Some [] \<and> code \<le> 2 \<and>
     (case parse_flags args 5 False of
        Exits c \<Rightarrow> s = (w, db, []) \<and> code = c
      | Parsed k b words \<Rightarrow> code = 0 \<longleftrightarrow> snd (fst (ask_run fmt3 ps ul env h d cl k b words (w, db, []))) = None)"
    proof (cases "parse_flags args 5 False")
      case (Exits c)
      then show ?thesis using run two by (auto simp: ask_main_def)
    next
      case (Parsed k b words)
      obtain o1 e1 s1 where r: "ask_run fmt3 ps ul env h d cl k b words (w, db, []) = ((o1, e1), s1)" by (metis prod.exhaust)
      then show ?thesis using run Parsed small(1) [of e1] small(2) [of e1] commands_release(2) [OF r]
        by (auto simp: ask_main_def)
    qed }
  { assume "ingest_main ps ul env h d cl (w, db, []) = Some ((out', code'), s')"
    then obtain o1 e1 where r: "ingest_run ps ul env h d cl (w, db, []) = Some ((o1, e1), s')" "code' = exit_status e1"
      by (auto simp: ingest_main_def split: option.splits prod.splits)
    show "held [] (snd (snd s')) = Some [] \<and> code' \<le> 1" using commands_release(1) [OF r(1)] small(1) [of e1] r(2) by simp }
  { assume "server_main ps ul env h d cl sv (w, db, []) = (code'', s'')"
    then show "code'' \<le> 1" using small(1) by (auto simp: server_main_def split: prod.splits) }
qed

end
