(* ===== verification/Concurrent.thy ===== *)
theory Concurrent
  imports Pipeline
begin

text \<open>
  Passes of \<open>Index\<close> (\<open>knowledge/knowledge.go\<close>) that run at the same time on one database: the
  requests of one server, several servers, the command \<open>ingest\<close> beside them. A pass is cut at
  its calls: one call to the store or to the provider is one step, and between two steps
  anything may happen. A call to the store is one step because the server makes it one: it is
  a single statement, or the transaction of \<open>SaveNoteWithChunks\<close>, whose first statement locks
  the row of its path. \<open>pass_step\<close> is the code of \<open>Index\<close> and \<open>embedPending\<close> at this grain; a
  pass that is left alone is exactly \<open>Knowledge_Index\<close>.
\<close>

section \<open>A pass in steps\<close>

text \<open>Where a pass is, with its local variables.\<close>

datatype pass =
    Beginning
  | Saving "Note list" IndexResult "goerr list" "gostring list"
  | Pruning IndexResult "gostring list"
  | Claiming IndexResult "goerr list" nat
  | Embedding IndexResult "goerr list" nat "(int \<times> gostring) list" nat
  | Storing IndexResult "goerr list" nat "(int \<times> gostring) list" nat "Vector list"
  | Finished IndexResult "goerr option"

definition part_at :: "'w knowledge \<Rightarrow> (int \<times> gostring) list \<Rightarrow> nat \<Rightarrow> (int \<times> gostring) list" where
  "part_at k claimed start = take (nat (batch_size (kEmbed k))) (drop start claimed)"

fun pass_step :: "'w host \<Rightarrow> 'w knowledge \<Rightarrow> pass \<Rightarrow> 'w \<times> pg \<Rightarrow> pass \<times> 'w \<times> pg" where
  "pass_step h k Beginning s =
     (if VaultPath k = [] then (Finished no_result (Some (Plain ''knowledge: Index needs Config.VaultPath'')), s)
      else if scan_fatal (scan_now h k (fst s))
      then (Finished no_result (Some (wrap (''scan vault '' @ VaultPath k) (the (snd (scan_now h k (fst s)))))), s)
      else (let scan = fst (scan_now h k (fst s))
            in (Saving (Notes scan) (no_result\<lparr>NotesSkipped := length (Skipped scan)\<rparr>) [] (Skipped scan), s)))"
| "pass_step h k (Saving [] res noteErrs paths) s =
     (if noteErrs = [] then Pruning res paths else Claiming res noteErrs 0, s)"
| "pass_step h k (Saving (note # notes) res noteErrs paths) s =
     (case hCtx h (fst s) of
        Some e \<Rightarrow> (Finished res (Some e), s)
      | None \<Rightarrow>
          (case SaveNoteWithChunks (hDb h) note (Cut (noteText note) (chunkN k)) s of
             (Inl e, s) \<Rightarrow>
               (Saving notes (res\<lparr>NotesFailed := NotesFailed res + 1\<rparr>)
                  (noteErrs @ [wrap (''note '' @ notePath note) e]) (paths @ [notePath note]), s)
           | (Inr (_, written), s) \<Rightarrow>
               (Saving notes
                  (if written then res\<lparr>NotesWritten := NotesWritten res + 1\<rparr>
                   else res\<lparr>NotesUnchanged := NotesUnchanged res + 1\<rparr>)
                  noteErrs (paths @ [notePath note]), s)))"
| "pass_step h k (Pruning res paths) s =
     (case DeleteMissingNotes (hDb h) paths s of
        (Inl e, s) \<Rightarrow> (Finished res (Some e), s)
      | (Inr n, s) \<Rightarrow> (Claiming (res\<lparr>NotesDeleted := n\<rparr>) [] 0, s))"
| "pass_step h k (Claiming res noteErrs n) s =
     (case PendingChunks (hDb h) (kSpace k) pendingBatch s of
        (Inl e, s) \<Rightarrow> (Finished (res\<lparr>ChunksEmbedded := n\<rparr>) (Some e), s)
      | (Inr claimed, s) \<Rightarrow>
          if claimed = [] then (Finished (res\<lparr>ChunksEmbedded := n\<rparr>) (join_errs noteErrs), s)
          else (Embedding res noteErrs n claimed 0, s))"
| "pass_step h k (Embedding res noteErrs n claimed start) s =
     (if start < length claimed then
        (case Batched (kEmbed k) (map snd (part_at k claimed start)) KindDocument (fst s) of
           (Inl e, w) \<Rightarrow>
             (Finished (res\<lparr>ChunksEmbedded := n\<rparr>)
                (Some (wrap (embed_text (length (part_at k claimed start)) n) e)), w, snd s)
         | (Inr vectors, w) \<Rightarrow> (Storing res noteErrs n claimed start vectors, w, snd s))
      else (Claiming res noteErrs n, s))"
| "pass_step h k (Storing res noteErrs n claimed start vectors) s =
     (case SaveEmbeddings (hDb h) (kSpace k) (chunk_vectors (part_at k claimed start) vectors) s of
        (Inl e, s) \<Rightarrow> (Finished (res\<lparr>ChunksEmbedded := n\<rparr>) (Some e), s)
      | (Inr _, s) \<Rightarrow>
          (Embedding res noteErrs (n + length (part_at k claimed start)) claimed
             (start + nat (batch_size (kEmbed k))), s))"
| "pass_step h k (Finished res err) s = (Finished res err, s)"

definition pass_run :: "'w host \<Rightarrow> 'w knowledge \<Rightarrow> nat \<Rightarrow> pass \<times> 'w \<times> pg \<Rightarrow> pass \<times> 'w \<times> pg" where
  "pass_run h k n = (\<lambda>(pc, s). pass_step h k pc s) ^^ n"

section \<open>Alone, it is \<open>Index\<close>\<close>

text \<open>What is left of a pass, in the words of \<open>Knowledge_Index\<close>.\<close>

definition rounds_of ::
  "IndexResult \<Rightarrow> goerr list \<Rightarrow> ((nat \<times> goerr option) \<times> 'w \<times> pg) option \<Rightarrow>
   ((IndexResult \<times> goerr option) \<times> 'w \<times> pg) option" where
  "rounds_of res noteErrs y =
     (case y of None \<Rightarrow> None
      | Some ((n, err), s) \<Rightarrow>
          Some ((res\<lparr>ChunksEmbedded := n\<rparr>, case err of Some e \<Rightarrow> Some e | None \<Rightarrow> join_errs noteErrs), s))"

abbreviation rounds :: "'w host \<Rightarrow> 'w knowledge \<Rightarrow> nat \<Rightarrow> 'w \<times> pg \<Rightarrow> ((nat \<times> goerr option) \<times> 'w \<times> pg) option" where
  "rounds h k \<equiv> embed_rounds (kEmbed k) (PendingChunks (hDb h) (kSpace k)) (SaveEmbeddings (hDb h) (kSpace k))"

abbreviation parts ::
  "'w host \<Rightarrow> 'w knowledge \<Rightarrow> (int \<times> gostring) list \<Rightarrow> nat \<Rightarrow> nat \<Rightarrow> 'w \<times> pg \<Rightarrow> (nat \<times> goerr option) \<times> 'w \<times> pg" where
  "parts h k \<equiv> embed_parts (kEmbed k) (SaveEmbeddings (hDb h) (kSpace k))"

definition after_parts ::
  "'w host \<Rightarrow> 'w knowledge \<Rightarrow> (nat \<times> goerr option) \<times> 'w \<times> pg \<Rightarrow> ((nat \<times> goerr option) \<times> 'w \<times> pg) option" where
  "after_parts h k y = (case y of ((n, Some e), s) \<Rightarrow> Some ((n, Some e), s) | ((n, None), s) \<Rightarrow> rounds h k n s)"

definition after_notes ::
  "'w host \<Rightarrow> 'w knowledge \<Rightarrow> (IndexResult \<times> goerr list \<times> gostring list) \<times> goerr option \<times> 'w \<times> pg \<Rightarrow>
   ((IndexResult \<times> goerr option) \<times> 'w \<times> pg) option" where
  "after_notes h k y =
     (case y of
        ((res, noteErrs, paths), Some e, s) \<Rightarrow> Some ((res, Some e), s)
      | ((res, noteErrs, paths), None, s) \<Rightarrow>
          if noteErrs = [] then
            (case DeleteMissingNotes (hDb h) paths s of
               (Inl e, s) \<Rightarrow> Some ((res, Some e), s)
             | (Inr n, s) \<Rightarrow> rounds_of (res\<lparr>NotesDeleted := n\<rparr>) [] (rounds h k 0 s))
          else rounds_of res noteErrs (rounds h k 0 s))"

fun rest_of_pass ::
  "'w host \<Rightarrow> 'w knowledge \<Rightarrow> pass \<Rightarrow> 'w \<times> pg \<Rightarrow> ((IndexResult \<times> goerr option) \<times> 'w \<times> pg) option" where
  "rest_of_pass h k Beginning s = Knowledge_Index h k s"
| "rest_of_pass h k (Saving notes res noteErrs paths) s = after_notes h k (note_loop h k notes (res, noteErrs, paths) s)"
| "rest_of_pass h k (Pruning res paths) s = after_notes h k ((res, [], paths), None, s)"
| "rest_of_pass h k (Claiming res noteErrs n) s = rounds_of res noteErrs (rounds h k n s)"
| "rest_of_pass h k (Embedding res noteErrs n claimed start) s =
     rounds_of res noteErrs (after_parts h k (parts h k claimed start n s))"
| "rest_of_pass h k (Storing res noteErrs n claimed start vectors) s =
     (case SaveEmbeddings (hDb h) (kSpace k) (chunk_vectors (part_at k claimed start) vectors) s of
        (Inl e, s) \<Rightarrow> Some ((res\<lparr>ChunksEmbedded := n\<rparr>, Some e), s)
      | (Inr _, s) \<Rightarrow>
          rounds_of res noteErrs (after_parts h k
            (parts h k claimed (start + nat (batch_size (kEmbed k))) (n + length (part_at k claimed start)) s)))"
| "rest_of_pass h k (Finished res err) s = Some ((res, err), s)"

lemma rounds_of_simps [simp]:
  "rounds_of res noteErrs None = None"
  "rounds_of res noteErrs (Some ((n, Some e), s)) = Some ((res\<lparr>ChunksEmbedded := n\<rparr>, Some e), s)"
  "rounds_of res noteErrs (Some ((n, None), s)) = Some ((res\<lparr>ChunksEmbedded := n\<rparr>, join_errs noteErrs), s)"
  by (simp_all add: rounds_of_def)

lemma after_parts_simps [simp]:
  "after_parts h k ((n, Some e), s) = Some ((n, Some e), s)"
  "after_parts h k ((n, None), s) = rounds h k n s"
  by (simp_all add: after_parts_def)

lemma index_notes_rest:
  "index_notes h k scan s =
     after_notes h k (note_loop h k (Notes scan) (no_result\<lparr>NotesSkipped := length (Skipped scan)\<rparr>, [], Skipped scan) s)"
  by (simp add: index_notes_def after_notes_def index_finish_def embedPending_def rounds_of_def
      split: prod.splits option.splits sum.splits)

lemma rounds_unfold:
  "rounds h k n s = (case PendingChunks (hDb h) (kSpace k) pendingBatch s of
     (Inl e, s) \<Rightarrow> Some ((n, Some e), s)
   | (Inr claimed, s) \<Rightarrow> if claimed = [] then Some ((n, None), s) else after_parts h k (parts h k claimed 0 n s))"
  unfolding embed_rounds.simps [of "kEmbed k" _ _ n s] after_parts_def by (rule refl)

lemma parts_unfold:
  "parts h k claimed start n s =
     (if start < length claimed then
        (case Batched (kEmbed k) (map snd (part_at k claimed start)) KindDocument (fst s) of
           (Inl e, w) \<Rightarrow> ((n, Some (wrap (embed_text (length (part_at k claimed start)) n) e)), w, snd s)
         | (Inr vectors, w) \<Rightarrow>
             (case SaveEmbeddings (hDb h) (kSpace k) (chunk_vectors (part_at k claimed start) vectors) (w, snd s) of
                (Inl e, s) \<Rightarrow> ((n, Some e), s)
              | (Inr _, s) \<Rightarrow> parts h k claimed (start + nat (batch_size (kEmbed k)))
                    (n + length (part_at k claimed start)) s))
      else ((n, None), s))"
  unfolding embed_parts.simps [of "kEmbed k" _ claimed start n s] part_at_def Let_def by (rule refl)

text \<open>A step leaves what is left to do as it was.\<close>

lemma rest_of_step: "rest_of_pass h k pc s = (case pass_step h k pc s of (pc', s') \<Rightarrow> rest_of_pass h k pc' s')"
proof (cases pc)
  case Beginning
  then show ?thesis by (simp add: Index_unfold index_notes_rest Let_def)
next
  case (Saving ns res noteErrs paths)
  then show ?thesis
    by (cases ns) (auto simp: after_notes_def split: option.splits prod.splits sum.splits)
next
  case (Pruning res paths)
  then show ?thesis by (auto simp: after_notes_def split: prod.splits sum.splits)
next
  case (Claiming res noteErrs n)
  then show ?thesis
    by (simp add: rounds_unfold [of k h n s] split: prod.splits sum.splits)
next
  case (Embedding res noteErrs n claimed start)
  then show ?thesis
    by (simp add: parts_unfold [of k h claimed start n s] split: prod.splits sum.splits)
qed (auto split: prod.splits sum.splits)

text \<open>A run has ended when it is \<open>Finished\<close>; it ends exactly if \<open>Knowledge_Index\<close> returns.\<close>

definition ends :: "'w host \<Rightarrow> 'w knowledge \<Rightarrow> pass \<Rightarrow> 'w \<times> pg \<Rightarrow> bool" where
  "ends h k pc s \<longleftrightarrow> (\<exists>n res err s'. pass_run h k n (pc, s) = (Finished res err, s'))"

lemma pass_run_Suc: "pass_run h k (Suc n) (pc, s) = pass_run h k n (pass_step h k pc s)"
  by (simp add: pass_run_def funpow_Suc_right del: funpow.simps)

lemma pass_run_0 [simp]: "pass_run h k 0 x = x"
  by (simp add: pass_run_def)

lemma ends_Finished [simp]: "ends h k (Finished res err) s"
  unfolding ends_def by (metis pass_run_0)

lemma ends_step: "pass_step h k pc s = (pc', s') \<Longrightarrow> ends h k pc' s' \<Longrightarrow> ends h k pc s"
  unfolding ends_def by (metis pass_run_Suc)

lemma rest_of_next: "pass_step h k pc s = (pc', s') \<Longrightarrow> rest_of_pass h k pc' s' = rest_of_pass h k pc s"
  using rest_of_step [of h k pc s] by simp

lemma run_rest: "pass_run h k n (pc, s) = (pc', s') \<Longrightarrow> rest_of_pass h k pc s = rest_of_pass h k pc' s'"
proof (induction n arbitrary: pc s)
  case (Suc n)
  obtain pc1 s1 where "pass_step h k pc s = (pc1, s1)" by (rule prod.exhaust)
  then show ?case using Suc rest_of_next by (metis pass_run_Suc)
qed simp

lemma parts_end:
  assumes "\<And>n' s'. parts h k claimed start n s = ((n', None), s') \<Longrightarrow> ends h k (Claiming res noteErrs n') s'"
  shows "ends h k (Embedding res noteErrs n claimed start) s"
  using assms
proof (induction "length claimed - start" arbitrary: start n s rule: less_induct)
  case less
  let ?part = "part_at k claimed start"
  note unf = parts_unfold [of k h claimed start n s]
  show ?case
  proof (cases "start < length claimed")
    case False
    then have "ends h k (Claiming res noteErrs n) s" using less.prems unf by simp
    then show ?thesis by (rule ends_step [rotated]) (use False in simp)
  next
    case True
    obtain r w where b: "Batched (kEmbed k) (map snd ?part) KindDocument (fst s) = (r, w)" by (rule prod.exhaust)
    show ?thesis
    proof (cases r)
      case (Inl e)
      show ?thesis by (rule ends_step [OF _ ends_Finished]) (use True b Inl in simp)
    next
      case (Inr vectors)
      obtain r2 s2 where sv: "SaveEmbeddings (hDb h) (kSpace k) (chunk_vectors ?part vectors) (w, snd s) = (r2, s2)"
        by (rule prod.exhaust)
      have "ends h k (Storing res noteErrs n claimed start vectors) (w, snd s)"
      proof (cases r2)
        case (Inl e)
        show ?thesis by (rule ends_step [OF _ ends_Finished]) (use sv Inl in simp)
      next
        case r2: (Inr u)
        let ?start = "start + nat (batch_size (kEmbed k))"
        have "0 < nat (batch_size (kEmbed k))" by (simp add: batch_size_def)
        then have m: "length claimed - ?start < length claimed - start" using True by linarith
        have same: "parts h k claimed ?start (n + length ?part) s2 = parts h k claimed start n s"
          unfolding unf using True b Inr sv r2 by simp
        have "ends h k (Embedding res noteErrs (n + length ?part) claimed ?start) s2"
          using less.hyps [OF m] less.prems same by metis
        then show ?thesis by (rule ends_step [rotated]) (use sv r2 in simp)
      qed
      then show ?thesis by (rule ends_step [rotated]) (use True b Inr in simp)
    qed
  qed
qed

lemma rounds_end: "rounds h k n s = Some y \<Longrightarrow> ends h k (Claiming res noteErrs n) s"
proof -
  have "p = kEmbed k \<and> claim = PendingChunks (hDb h) (kSpace k) \<and> save = SaveEmbeddings (hDb h) (kSpace k) \<longrightarrow>
      ends h k (Claiming res noteErrs n) s"
    if "embed_rounds p claim save n s = Some y" for p claim save
  proof (rule embed_rounds.raw_induct [OF _ that], intro impI, elim conjE)
    fix go p claim save n s y
    assume IH: "\<And>p claim save n s y. go p claim save n s = Some y \<Longrightarrow>
        p = kEmbed k \<and> claim = PendingChunks (hDb h) (kSpace k) \<and> save = SaveEmbeddings (hDb h) (kSpace k) \<longrightarrow>
        ends h k (Claiming res noteErrs n) s"
      and run: "(case claim pendingBatch s of
          (Inl e, s) \<Rightarrow> Some ((n, Some e), s)
        | (Inr claimed, s) \<Rightarrow>
            if claimed = [] then Some ((n, None), s)
            else (case embed_parts p save claimed 0 n s of
                 ((n, Some e), s) \<Rightarrow> Some ((n, Some e), s)
               | ((n, None), s) \<Rightarrow> go p claim save n s)) = Some y"
      and eqs: "p = kEmbed k" "claim = PendingChunks (hDb h) (kSpace k)" "save = SaveEmbeddings (hDb h) (kSpace k)"
    obtain c s1 where c: "PendingChunks (hDb h) (kSpace k) pendingBatch s = (c, s1)" by (rule prod.exhaust)
    show "ends h k (Claiming res noteErrs n) s"
    proof (cases "\<exists>claimed. c = Inr claimed \<and> claimed \<noteq> []")
      case False
      then obtain res' err where "pass_step h k (Claiming res noteErrs n) s = (Finished res' err, s1)"
        using c by (cases c) auto
      then show ?thesis by (rule ends_step) simp
    next
      case True
      then obtain claimed where cl: "c = Inr claimed" "claimed \<noteq> []" by blast
      have "ends h k (Claiming res noteErrs n') s'" if "parts h k claimed 0 n s1 = ((n', None), s')" for n' s'
        using IH [of p claim save n' s' y] run eqs c cl that by simp
      then have "ends h k (Embedding res noteErrs n claimed 0) s1" by (rule parts_end)
      then show ?thesis by (rule ends_step [rotated]) (use c cl in simp)
    qed
  qed
  then show "rounds h k n s = Some y \<Longrightarrow> ends h k (Claiming res noteErrs n) s" by blast
qed

lemma Claiming_ends: "rest_of_pass h k (Claiming res noteErrs n) s \<noteq> None \<Longrightarrow> ends h k (Claiming res noteErrs n) s"
  using rounds_end [of k h n s] by (cases "rounds h k n s") auto

lemma Pruning_ends: "rest_of_pass h k (Pruning res paths) s \<noteq> None \<Longrightarrow> ends h k (Pruning res paths) s"
proof -
  assume left: "rest_of_pass h k (Pruning res paths) s \<noteq> None"
  obtain r s' where d: "DeleteMissingNotes (hDb h) paths s = (r, s')" by (rule prod.exhaust)
  then obtain pc' where step: "pass_step h k (Pruning res paths) s = (pc', s')"
    "(\<exists>e. pc' = Finished res (Some e)) \<or> (\<exists>res'. pc' = Claiming res' [] 0)"
    by (cases r) auto
  have "rest_of_pass h k pc' s' \<noteq> None" using left unfolding rest_of_next [OF step(1)] .
  then have "ends h k pc' s'" using step(2) Claiming_ends ends_Finished by metis
  with step(1) show ?thesis by (rule ends_step)
qed

lemma Saving_ends: "rest_of_pass h k (Saving ns res noteErrs paths) s \<noteq> None \<Longrightarrow> ends h k (Saving ns res noteErrs paths) s"
proof (induction ns arbitrary: res noteErrs paths s)
  case Nil
  have step: "pass_step h k (Saving [] res noteErrs paths) s =
      (if noteErrs = [] then Pruning res paths else Claiming res noteErrs 0, s)" by simp
  show ?case
  proof (cases "noteErrs = []")
    case True
    then have "pass_step h k (Saving [] res noteErrs paths) s = (Pruning res paths, s)" by simp
    from ends_step [OF this] Nil [folded rest_of_next [OF this]] Pruning_ends show ?thesis by blast
  next
    case False
    then have "pass_step h k (Saving [] res noteErrs paths) s = (Claiming res noteErrs 0, s)" by simp
    from ends_step [OF this] Nil [folded rest_of_next [OF this]] Claiming_ends show ?thesis by blast
  qed
next
  case (Cons nt ns)
  obtain pc' s' where step: "pass_step h k (Saving (nt # ns) res noteErrs paths) s = (pc', s')" by (rule prod.exhaust)
  then have pc': "(\<exists>r e. pc' = Finished r e) \<or> (\<exists>r es ps. pc' = Saving ns r es ps)"
    by (auto split: option.splits prod.splits sum.splits)
  have "rest_of_pass h k pc' s' \<noteq> None" using Cons.prems unfolding rest_of_next [OF step] .
  then have "ends h k pc' s'" using pc' Cons.IH ends_Finished by metis
  with step show ?case by (rule ends_step)
qed

lemma Index_run: "Knowledge_Index h k s = Some ((res, err), s') \<longleftrightarrow> (\<exists>n. pass_run h k n (Beginning, s) = (Finished res err, s'))"
proof
  assume "\<exists>n. pass_run h k n (Beginning, s) = (Finished res err, s')"
  then show "Knowledge_Index h k s = Some ((res, err), s')" using run_rest by fastforce
next
  assume done_: "Knowledge_Index h k s = Some ((res, err), s')"
  obtain pc' s1 where step: "pass_step h k Beginning s = (pc', s1)" by (rule prod.exhaust)
  then have pc': "(\<exists>r e. pc' = Finished r e) \<or> (\<exists>ns r es ps. pc' = Saving ns r es ps)"
    by (auto simp: Let_def split: if_splits)
  have "rest_of_pass h k pc' s1 \<noteq> None" unfolding rest_of_next [OF step] using done_ by simp
  then have "ends h k pc' s1" using pc' Saving_ends ends_Finished by metis
  with step have "ends h k Beginning s" by (rule ends_step)
  then obtain n res' err' s'' where run: "pass_run h k n (Beginning, s) = (Finished res' err', s'')"
    unfolding ends_def by blast
  with done_ run_rest [OF run] show "\<exists>n. pass_run h k n (Beginning, s) = (Finished res err, s')" by auto
qed

section \<open>Many passes on one database\<close>

text \<open>
  A pass takes its turn for one step; a process is killed, or starts a pass after the last
  one, at any moment; what is outside the database changes as it likes; and some process
  opens the database for a space.
\<close>

inductive race ::
  "('w host \<times> 'w knowledge) list \<Rightarrow> pass list \<times> 'w \<times> pg \<Rightarrow> pass list \<times> 'w \<times> pg \<Rightarrow> bool" for jobs where
  turn: "i < length ps \<Longrightarrow> pass_step (fst (jobs ! i)) (snd (jobs ! i)) (ps ! i) s = (pc, s') \<Longrightarrow>
    race jobs (ps, s) (ps[i := pc], s')"
| restart: "i < length ps \<Longrightarrow> race jobs (ps, s) (ps[i := Beginning], s)"
| outside: "race jobs (ps, w, db) (ps, w', db)"
| opens: "EnsureSpace env sha ul space s = (r, s') \<Longrightarrow> race jobs (ps, s) (ps, s')"

inductive_cases race_elim [consumes 1, case_names turn restart outside opens]: "race jobs (ps, s) (ps', s')"

inductive race_run ::
  "('w host \<times> 'w knowledge) list \<Rightarrow> pass list \<times> 'w \<times> pg \<Rightarrow> pass list \<times> 'w \<times> pg \<Rightarrow> bool" for jobs where
  none: "race_run jobs c c"
| more: "race_run jobs c c1 \<Longrightarrow> race jobs c1 c2 \<Longrightarrow> race_run jobs c c2"

text \<open>What a pass may rely on: the chunks it has claimed still have the texts it read, if they are there.\<close>

definition claims_true :: "pg \<Rightarrow> (int \<times> gostring) list \<Rightarrow> bool" where
  "claims_true db claimed \<longleftrightarrow>
     (\<forall>(c, t)\<in>set claimed. c < chunkSeq db \<and> (\<forall>r\<in>set (chunkRows db). cid r = c \<longrightarrow> ctext r = t))"

lemma claims_later:
  assumes "later db db'" "claims_true db claimed"
  shows "claims_true db' claimed"
  unfolding claims_true_def
proof (clarify, intro conjI ballI impI)
  fix c t assume "(c, t) \<in> set claimed"
  with assms(2) have c: "c < chunkSeq db" "\<forall>r\<in>set (chunkRows db). cid r = c \<longrightarrow> ctext r = t"
    unfolding claims_true_def by blast+
  then show "c < chunkSeq db'" using assms(1) by (simp add: later_def)
  fix r assume r: "r \<in> set (chunkRows db')" "cid r = c"
  then have "r \<in> set (chunkRows db)" using assms(1) c(1) by (auto simp: later_def)
  then show "ctext r = t" using c(2) r(2) by blast
qed

lemma claims_waiting: "db_ok db \<Longrightarrow> claims_true db (take n (waiting ref db))"
proof -
  assume ok: "db_ok db"
  then have inj: "inj_on cid (set (chunkRows db))" by (simp add: db_ok_def chunks_ok_def distinct_map)
  have "c < chunkSeq db \<and> (\<forall>r\<in>set (chunkRows db). cid r = c \<longrightarrow> ctext r = t)" if "(c, t) \<in> set (waiting ref db)" for c t
  proof -
    from that obtain r where r: "r \<in> set (chunkRows db)" "cid r = c" "ctext r = t"
      by (auto simp: waiting_def pending_def pending_rows_def split: option.splits)
    then have "c < chunkSeq db" using ok by (auto simp: db_ok_def chunks_ok_def)
    moreover have "ctext r' = t" if "r' \<in> set (chunkRows db)" "cid r' = c" for r'
      using inj_onD [OF inj, of r' r] r that by simp
    ultimately show ?thesis by blast
  qed
  then show ?thesis unfolding claims_true_def by (auto dest: in_set_takeD)
qed

fun pass_ok :: "(gostring \<Rightarrow> Vector \<Rightarrow> bool) \<Rightarrow> 'w knowledge \<Rightarrow> pg \<Rightarrow> pass \<Rightarrow> bool" where
  "pass_ok R k db (Embedding res noteErrs n claimed start) \<longleftrightarrow> claims_true db claimed"
| "pass_ok R k db (Storing res noteErrs n claimed start vectors) \<longleftrightarrow>
     claims_true db claimed \<and> list_all2 R (map snd (part_at k claimed start)) vectors"
| "pass_ok R k db _ \<longleftrightarrow> True"

lemma pass_ok_later: "later db db' \<Longrightarrow> pass_ok R k db pc \<Longrightarrow> pass_ok R k db' pc"
  by (cases pc) (auto intro: claims_later)

text \<open>Opening a space adds at most an empty table.\<close>

definition unread :: "pg \<Rightarrow> pg \<Rightarrow> bool" where
  "unread db db' \<longleftrightarrow> noteRows db' = noteRows db \<and> chunkRows db' = chunkRows db \<and> chunkSeq db' = chunkSeq db \<and>
     (\<forall>name c v. vector_of db' name c = Some v \<longrightarrow> vector_of db name c = Some v)"

lemma unread_refl [simp]: "unread db db"
  by (simp add: unread_def)

lemma unread_trans: "unread a b \<Longrightarrow> unread b c \<Longrightarrow> unread a c"
  unfolding unread_def by metis

lemma unread_exec: "(\<And>db. unread db (snd (stmt db))) \<Longrightarrow> exec env stmt s = (r, s') \<Longrightarrow> unread (snd s) (snd s')"
  using exec_state [of env stmt s] by (metis snd_conv unread_refl)

lemma vector_of_rows: "vecTables db' = vecTables db \<Longrightarrow> vector_of db' = vector_of db"
  by (rule vector_of_cong)

lemma unread_statements:
  "unread db (snd (register_space viol created space slug db))" "unread db (snd (create_table name dim db))"
  "unread db (snd (create_index viol m name db))"
proof -
  have "vecTables (snd (register_space viol created space slug db)) = vecTables db"
    by (auto simp: register_space_def Let_def split: option.splits)
  from vector_of_rows [OF this] show "unread db (snd (register_space viol created space slug db))"
    by (auto simp: unread_def register_space_def Let_def split: option.splits)
  have fresh: "find p (ts @ [t]) = (case find p ts of None \<Rightarrow> if p t then Some t else None | Some x \<Rightarrow> Some x)"
    for p :: "vec_table \<Rightarrow> bool" and ts t by (induction ts) auto
  show "unread db (snd (create_table name dim db))"
    by (auto simp: unread_def create_table_def vector_of_def table_of_def fresh split: option.splits if_splits)
qed simp

lemma unread_Ensure:
  assumes "EnsureSpace env sha ul space s = (r, s')"
  shows "unread (snd s) (snd s')"
proof (cases "Validate space")
  case None
  have steps: "unread (snd s1) (snd s3)" if "ensure_body env pre sp slug s1 = (q, s3)" for pre sp slug q s1 s3
  proof -
    obtain r1 t1 where 1: "exec env (\<lambda>db. (Inr (), db)) s1 = (r1, t1)" by (rule prod.exhaust)
    obtain r2 t2 where 2: "exec env (register_space (violation env) (now env (fst t1)) sp slug) t1 = (r2, t2)"
      by (rule prod.exhaust)
    obtain r3 t3 where 3: "exec env (create_table (snd (projr r2)) (Dim sp)) t2 = (r3, t3)" by (rule prod.exhaust)
    obtain r4 t4 where 4: "exec env (create_index (violation env) (hnsw_max env) (snd (projr r2))) t3 = (r4, t4)"
      by (rule prod.exhaust)
    have u: "unread (snd s1) (snd t1)" "unread (snd t1) (snd t2)" "unread (snd t2) (snd t3)" "unread (snd t3) (snd t4)"
      using unread_exec [OF _ 1] unread_exec [OF unread_statements(1) 2] unread_exec [OF unread_statements(2) 3]
        unread_exec [OF unread_statements(3) 4] by simp_all
    have "s3 = t1 \<or> s3 = t2 \<or> s3 = t3 \<or> s3 = t4"
      using that 1 2 3 4 by (cases r1; cases r2; cases r3; cases r4) (auto simp: ensure_body_def split: prod.splits)
    then show ?thesis using u unread_trans by metis
  qed
  let ?pre = "''ensure space '' @ Space_String space @ '': ''"
  have "in_tx env (?pre @ ''begin'') (\<lambda>_. ?pre @ ''commit'') (ensure_body env ?pre space (Slug sha ul space)) s = (r, s')"
    using assms None by (simp add: EnsureSpace_def Let_def)
  then show ?thesis
  proof (cases rule: in_tx_cases)
    case (rolled_back s1 e s1')
    then show ?thesis using steps [OF rolled_back(2)] vector_of_rows [of "rollback (snd s) (snd s1')" "snd s"]
      by (simp add: unread_def rollback_def)
  next
    case (committed s1 a s1')
    then show ?thesis using steps [OF committed(2)] by simp
  qed simp_all
qed (use assms in \<open>simp add: EnsureSpace_def\<close>)

section \<open>What a step may do to the database\<close>

text \<open>Every vector is one that was there before, or one \<open>R\<close> allows, in the pass's own table.\<close>

definition adds_vectors :: "(gostring \<Rightarrow> Vector \<Rightarrow> bool) \<Rightarrow> SpaceRef \<Rightarrow> pg \<Rightarrow> pg \<Rightarrow> bool" where
  "adds_vectors R ref db db' \<longleftrightarrow>
     (\<forall>name. \<forall>c\<in>set (chunkRows db'). \<forall>v. vector_of db' name (cid c) = Some v \<longrightarrow>
        c \<in> set (chunkRows db) \<and> vector_of db name (cid c) = Some v \<or> name = refTable ref \<and> R (ctext c) v)"

lemma adds_inherits: "inherits db db' \<Longrightarrow> adds_vectors R ref db db'"
  unfolding adds_vectors_def inherits_def by blast

lemma SaveEmbeddings_other:
  assumes "SaveEmbeddings env ref batch s = (r, s')" "name \<noteq> refTable ref"
  shows "vector_of (snd s') name = vector_of (snd s) name"
proof -
  have one: "vector_of (snd (insert_vectors viol (refTable ref) rows db)) name = vector_of db name" for viol rows db
  proof -
    have "find (\<lambda>t. tname t = name) (map (\<lambda>t. if tname t = refTable ref then t\<lparr>trows := f (trows t)\<rparr> else t) ts) =
        find (\<lambda>t. tname t = name) ts" for f and ts :: "vec_table list"
      using assms(2) by (induction ts) auto
    then have "table_of (snd (insert_vectors viol (refTable ref) rows db)) name = table_of db name"
      by (simp add: insert_vectors_def table_of_def split: option.splits)
    then show ?thesis by (simp add: vector_of_def fun_eq_iff)
  qed
  have "snd (snd (exec env (insert_vectors viol (refTable ref) rows) s)) = snd s \<or>
      snd (snd (exec env (insert_vectors viol (refTable ref) rows) s)) = snd (insert_vectors viol (refTable ref) rows (snd s))"
    for viol rows by (rule exec_state)
  then show ?thesis using assms(1) one
    by (auto simp: SaveEmbeddings_def split: if_splits sum.splits prod.splits) (metis snd_conv snd_map_err)+
qed

lemma batch_rows_zip: "length xs = length vs \<Longrightarrow> batch_rows (chunk_vectors xs vs) = zip (map fst xs) vs"
  by (induction xs vs rule: list_induct2) (simp_all add: batch_rows_def chunk_vectors_def)

lemma Storing_adds:
  assumes "db_ok (snd s)" "SaveEmbeddings env ref (chunk_vectors xs vs) s = (r, s')"
    "claims_true (snd s) xs" "list_all2 R (map snd xs) vs"
  shows "adds_vectors R ref (snd s) (snd s')"
  unfolding adds_vectors_def
proof (intro allI ballI impI)
  fix name c v
  assume c: "c \<in> set (chunkRows (snd s'))" and v: "vector_of (snd s') name (cid c) = Some v"
  have rows: "chunkRows (snd s') = chunkRows (snd s)" using SaveEmbeddings_rows [OF assms(2)] by (simp add: rest_of_def)
  have len: "length xs = length vs" using list_all2_lengthD [OF assms(4)] by simp
  show "c \<in> set (chunkRows (snd s)) \<and> vector_of (snd s) name (cid c) = Some v \<or> name = refTable ref \<and> R (ctext c) v"
  proof (cases "name = refTable ref \<and> vector_of (snd s) name (cid c) \<noteq> Some v")
    case False
    then have "vector_of (snd s) name (cid c) = Some v" using SaveEmbeddings_other [OF assms(2), of name] v by metis
    then show ?thesis using c rows by simp
  next
    case True
    then have "vector_of (snd s') name = vector_of (snd s) name ++ map_of (zip (map fst xs) vs)"
      using SaveEmbeddings_cases [OF assms(1,2)] v by (auto simp: batch_rows_zip [OF len] Let_def split: sum.splits)
    then have "(cid c, v) \<in> set (zip (map fst xs) vs)" using v True by (auto dest: map_of_SomeD)
    then obtain i where i: "i < length xs" "cid c = fst (xs ! i)" "v = vs ! i" by (auto simp: set_zip)
    then have "(cid c, snd (xs ! i)) \<in> set xs" by (metis nth_mem prod.collapse)
    then have "ctext c = snd (xs ! i)" using assms(3) c unfolding claims_true_def rows by blast
    moreover have "R (snd (xs ! i)) v" using list_all2_nthD2 [OF assms(4), of i] i len by simp
    ultimately show ?thesis using True by simp
  qed
qed

text \<open>The index changes by one note a pass wrote whole, or by a prune.\<close>

definition moves_index :: "'w knowledge \<Rightarrow> pass \<Rightarrow> pg \<Rightarrow> pg \<Rightarrow> bool" where
  "moves_index k pc db db' \<longleftrightarrow> index_of db' = index_of db \<or>
     (\<exists>note cs. Cut (noteText note) (chunkN k) = Inr cs \<and> index_of db' = (index_of db)(notePath note \<mapsto> new_doc note cs)) \<or>
     (\<exists>res paths. pc = Pruning res paths \<and> paths \<noteq> [] \<and> index_of db' = (index_of db) |` set paths)"

lemma Save_moves:
  assumes "db_ok (snd s)" "SaveNoteWithChunks env note (Cut (noteText note) (chunkN k)) s = (r, s')"
  shows "moves_index k pc (snd s) (snd s')"
  using Save_cases [OF assms] unfolding moves_index_def
  by (auto split: sum.splits prod.splits bool.splits)

lemma Delete_moves:
  assumes "db_ok (snd s)" "DeleteMissingNotes env paths s = (r, s')"
  shows "moves_index k (Pruning res paths) (snd s) (snd s')"
  using Delete_cases [OF assms] unfolding moves_index_def by (auto split: sum.splits if_splits)

lemma later_cong: "chunkRows db' = chunkRows db \<Longrightarrow> chunkSeq db \<le> chunkSeq db' \<Longrightarrow> later db db'"
  by (auto simp: later_def)

lemma pass_step_moves:
  assumes "db_ok (snd s)" "pass_step h k pc s = (pc', s')"
  shows "db_ok (snd s') \<and> moves_index k pc (snd s) (snd s')"
proof (cases pc)
  case (Saving ns res errs paths)
  show ?thesis
  proof (cases "ns = [] \<or> hCtx h (fst s) \<noteq> None")
    case True
    then have "s' = s" using assms(2) Saving by (cases ns) auto
    then show ?thesis using assms(1) by (simp add: moves_index_def)
  next
    case False
    then obtain nt rest where ns: "ns = nt # rest" "hCtx h (fst s) = None" by (cases ns) auto
    obtain r s1 where sv: "SaveNoteWithChunks (hDb h) nt (Cut (noteText nt) (chunkN k)) s = (r, s1)" by (rule prod.exhaust)
    then have "s' = s1" using assms(2) Saving ns by (auto split: sum.splits prod.splits)
    then show ?thesis using Save_cases [OF assms(1) sv] Save_moves [OF assms(1) sv] by simp
  qed
next
  case (Pruning res paths)
  obtain r s1 where del: "DeleteMissingNotes (hDb h) paths s = (r, s1)" by (rule prod.exhaust)
  then have "s' = s1" using assms(2) Pruning by (auto split: sum.splits)
  then show ?thesis using Delete_cases [OF assms(1) del] Delete_moves [OF assms(1) del] Pruning by simp
next
  case (Claiming res errs n)
  obtain r s1 where cl: "PendingChunks (hDb h) (kSpace k) pendingBatch s = (r, s1)" by (rule prod.exhaust)
  then have "snd s' = snd s" using assms(2) Claiming Pending_keeps [OF cl] by (auto split: sum.splits if_splits)
  then show ?thesis using assms(1) by (simp add: moves_index_def)
next
  case (Storing res errs n claimed start vs)
  obtain r s1 where sv: "SaveEmbeddings (hDb h) (kSpace k) (chunk_vectors (part_at k claimed start) vs) s = (r, s1)"
    by (rule prod.exhaust)
  then have "s' = s1" using assms(2) Storing by (auto split: sum.splits)
  then show ?thesis using SaveEmbeddings_cases [OF assms(1) sv] by (simp add: moves_index_def)
qed (use assms in \<open>auto simp: moves_index_def Let_def split: prod.splits sum.splits if_splits\<close>)

definition step_keeps :: "(gostring \<Rightarrow> Vector \<Rightarrow> bool) \<Rightarrow> 'w knowledge \<Rightarrow> pass \<Rightarrow> pg \<Rightarrow> pg \<Rightarrow> bool" where
  "step_keeps R k pc' db db' \<longleftrightarrow> later db db' \<and> adds_vectors R (kSpace k) db db' \<and> pass_ok R k db' pc'"

lemma step_keeps_same: "pass_ok R k db pc' \<Longrightarrow> step_keeps R k pc' db db"
  by (simp add: step_keeps_def aging.same adds_inherits)

lemma claims_part: "claims_true db claimed \<Longrightarrow> claims_true db (part_at k claimed start)"
  unfolding claims_true_def part_at_def by (auto dest!: in_set_takeD in_set_dropD)

lemma pass_step_keeps:
  assumes "db_ok (snd s)" "pass_ok (R KindDocument) k (snd s) pc" "embedding (Embed (kEmbed k)) R"
    "pass_step h k pc s = (pc', s')"
  shows "step_keeps (R KindDocument) k pc' (snd s) (snd s')"
proof (cases pc)
  case Beginning
  then have "snd s' = snd s" "pass_ok (R KindDocument) k (snd s) pc'" using assms(4) by (auto simp: Let_def split: if_splits)
  then show ?thesis using step_keeps_same by metis
next
  case (Saving ns res errs paths)
  show ?thesis
  proof (cases "ns = [] \<or> hCtx h (fst s) \<noteq> None")
    case True
    then have "snd s' = snd s" "pass_ok (R KindDocument) k (snd s) pc'" using assms(4) Saving by (cases ns; auto split: if_splits)+
    then show ?thesis using step_keeps_same by metis
  next
    case False
    then obtain nt rest where ns: "ns = nt # rest" "hCtx h (fst s) = None" by (cases ns) auto
    obtain r s1 where sv: "SaveNoteWithChunks (hDb h) nt (Cut (noteText nt) (chunkN k)) s = (r, s1)" by (rule prod.exhaust)
    then have "s' = s1" "pass_ok (R KindDocument) k (snd s1) pc'" using assms(4) Saving ns by (auto split: sum.splits prod.splits)
    then show ?thesis
      using aging.Save [OF sv assms(1)] inherits_Save [OF sv assms(1)] by (simp add: step_keeps_def adds_inherits)
  qed
next
  case (Pruning res paths)
  obtain r s1 where del: "DeleteMissingNotes (hDb h) paths s = (r, s1)" by (rule prod.exhaust)
  then have "s' = s1" "pass_ok (R KindDocument) k (snd s1) pc'" using assms(4) Pruning by (auto split: sum.splits)
  then show ?thesis
    using aging.Delete [OF del assms(1)] inherits_Delete [OF del assms(1)] by (simp add: step_keeps_def adds_inherits)
next
  case (Claiming res errs n)
  obtain r s1 where cl: "PendingChunks (hDb h) (kSpace k) pendingBatch s = (r, s1)" by (rule prod.exhaust)
  then have s': "s' = s1" "snd s1 = snd s" using assms(4) Claiming Pending_keeps [OF cl] by (auto split: sum.splits if_splits)
  have "claims_true (snd s) xs" if "r = Inr xs" for xs
    using Pending_first [OF cl [unfolded that]] claims_waiting [OF assms(1)] by simp
  then have "pass_ok (R KindDocument) k (snd s) pc'"
    using assms(4) Claiming cl by (auto split: sum.splits if_splits)
  then show ?thesis using step_keeps_same s' by metis
next
  case (Embedding res errs n claimed start)
  obtain r w where b: "Batched (kEmbed k) (map snd (part_at k claimed start)) KindDocument (fst s) = (r, w)"
    by (rule prod.exhaust)
  have "snd s' = snd s" using assms(4) Embedding b by (auto split: sum.splits if_splits)
  moreover have "pass_ok (R KindDocument) k (snd s) pc'"
    using assms(2,4) Embedding b embedding.batched_ok [OF assms(3) refl, of "map snd (part_at k claimed start)"]
    by (auto split: sum.splits if_splits)
  ultimately show ?thesis using step_keeps_same by metis
next
  case (Storing res errs n claimed start vs)
  obtain r s1 where sv: "SaveEmbeddings (hDb h) (kSpace k) (chunk_vectors (part_at k claimed start) vs) s = (r, s1)"
    by (rule prod.exhaust)
  have s': "s' = s1" using assms(4) Storing sv by (auto split: sum.splits)
  have aged: "later (snd s) (snd s')"
    using ok_stepD [OF SaveEmbeddings_step sv assms(1)] SaveEmbeddings_rows [OF sv] s'
    by (auto simp: rest_of_def seq_le_def intro: later_cong)
  have claims: "claims_true (snd s) claimed" using assms(2) Storing by simp
  have "adds_vectors (R KindDocument) (kSpace k) (snd s) (snd s')"
    using Storing_adds [OF assms(1) sv claims_part [OF claims]] assms(2) Storing s' by simp
  moreover have "pass_ok (R KindDocument) k (snd s') pc'"
    using assms(4) Storing sv claims_later [OF aged claims] s' by (auto split: sum.splits)
  ultimately show ?thesis using aged by (simp add: step_keeps_def)
next
  case (Finished res err)
  then show ?thesis using assms(4) step_keeps_same [of "R KindDocument" k "snd s" pc'] by auto
qed

section \<open>What holds in every race\<close>

text \<open>Every chunk that has a vector in some table has one \<open>V\<close> allows for its text in that table.\<close>

definition vectors_true :: "(gostring \<Rightarrow> Kind \<Rightarrow> gostring \<Rightarrow> Vector \<Rightarrow> bool) \<Rightarrow> pg \<Rightarrow> bool" where
  "vectors_true V db \<longleftrightarrow>
     (\<forall>name. \<forall>c\<in>set (chunkRows db). \<forall>v. vector_of db name (cid c) = Some v \<longrightarrow> V name KindDocument (ctext c) v)"

text \<open>Every document of the index has the chunks of its own text, all of them.\<close>

definition whole_docs :: "int set \<Rightarrow> pg \<Rightarrow> bool" where
  "whole_docs sizes db \<longleftrightarrow>
     (\<forall>p d. index_of db p = Some d \<longrightarrow> (\<exists>n\<in>sizes. Cut (docText d) n = Inr (docChunks d)))"

definition providers_keep :: "(gostring \<Rightarrow> Kind \<Rightarrow> gostring \<Rightarrow> Vector \<Rightarrow> bool) \<Rightarrow> ('w host \<times> 'w knowledge) list \<Rightarrow> bool" where
  "providers_keep V jobs \<longleftrightarrow> list_all (\<lambda>(h, k). embedding (Embed (kEmbed k)) (V (refTable (kSpace k)))) jobs"

definition chunk_sizes :: "('w host \<times> 'w knowledge) list \<Rightarrow> int set" where
  "chunk_sizes jobs = (\<lambda>j. chunkN (snd j)) ` set jobs"

definition passes_ok ::
  "(gostring \<Rightarrow> Kind \<Rightarrow> gostring \<Rightarrow> Vector \<Rightarrow> bool) \<Rightarrow> ('w host \<times> 'w knowledge) list \<Rightarrow> pass list \<Rightarrow> pg \<Rightarrow> bool" where
  "passes_ok V jobs ps db \<longleftrightarrow>
     length ps = length jobs \<and>
     (\<forall>i<length ps. pass_ok (V (refTable (kSpace (snd (jobs ! i)))) KindDocument) (snd (jobs ! i)) db (ps ! i))"

lemma passes_ok_start: "passes_ok V jobs (replicate (length jobs) Beginning) db"
  by (simp add: passes_ok_def)

lemma passes_ok_later: "passes_ok V jobs ps db \<Longrightarrow> later db db' \<Longrightarrow> passes_ok V jobs ps db'"
  using pass_ok_later unfolding passes_ok_def by blast

lemma passes_ok_update:
  assumes "passes_ok V jobs ps db" "later db db'"
    "pass_ok (V (refTable (kSpace (snd (jobs ! i)))) KindDocument) (snd (jobs ! i)) db' pc"
  shows "passes_ok V jobs (ps[i := pc]) db'"
  using assms pass_ok_later [OF assms(2)] unfolding passes_ok_def
  by (metis length_list_update nth_list_update_eq nth_list_update_neq)

lemma vectors_true_step: "vectors_true V db \<Longrightarrow> adds_vectors (V (refTable ref) KindDocument) ref db db' \<Longrightarrow> vectors_true V db'"
  unfolding vectors_true_def adds_vectors_def by blast

lemma whole_docs_step:
  assumes "whole_docs sizes db" "moves_index k pc db db'" "chunkN k \<in> sizes"
  shows "whole_docs sizes db'"
  unfolding whole_docs_def
proof (intro allI impI)
  fix p d assume d: "index_of db' p = Some d"
  have "index_of db p = Some d \<or> Cut (docText d) (chunkN k) = Inr (docChunks d)"
    using assms(2) d unfolding moves_index_def by (auto simp: new_doc_def restrict_map_def split: if_splits)
  then show "\<exists>n\<in>sizes. Cut (docText d) n = Inr (docChunks d)" using assms(1,3) unfolding whole_docs_def by blast
qed

lemma race_keeps:
  assumes "race jobs (ps, s) (ps', s')" "db_ok (snd s)" "providers_keep V jobs" "passes_ok V jobs ps (snd s)"
    "vectors_true V (snd s)" "whole_docs (chunk_sizes jobs) (snd s)"
  shows "db_ok (snd s') \<and> passes_ok V jobs ps' (snd s') \<and> vectors_true V (snd s') \<and>
    whole_docs (chunk_sizes jobs) (snd s')"
  using assms(1)
proof (cases rule: race_elim)
  case (turn i pc)
  let ?k = "snd (jobs ! i)"
  have i: "i < length jobs" "jobs ! i \<in> set jobs" using turn(2) assms(4) by (auto simp: passes_ok_def)
  have emb: "embedding (Embed (kEmbed ?k)) (V (refTable (kSpace ?k)))"
    using assms(3) i(2) unfolding providers_keep_def list_all_iff by (auto simp: case_prod_beta)
  have "pass_ok (V (refTable (kSpace ?k)) KindDocument) ?k (snd s) (ps ! i)"
    using assms(4) turn(2) by (simp add: passes_ok_def)
  from pass_step_keeps [OF assms(2) this emb turn(3)]
  have step: "step_keeps (V (refTable (kSpace ?k)) KindDocument) ?k pc (snd s) (snd s')" .
  have "chunkN ?k \<in> chunk_sizes jobs" using i(2) by (simp add: chunk_sizes_def)
  then show ?thesis
    using step pass_step_moves [OF assms(2) turn(3)] turn(1) assms(4-6) passes_ok_update vectors_true_step whole_docs_step
    unfolding step_keeps_def by metis
next
  case (restart i)
  then show ?thesis using assms passes_ok_update [OF assms(4) aging.same, of i Beginning] by simp
next
  case (outside w db w')
  then show ?thesis using assms by simp
next
  case (opens env sha ul space r)
  note u = unread_Ensure [OF opens(2)] and ok = ok_stepD [OF Ensure_step opens(2) assms(2)]
  have "later (snd s) (snd s')" using u by (intro later_cong) (simp_all add: unread_def)
  moreover have "index_of (snd s') = index_of (snd s)" using u by (intro index_of_cong) (simp_all add: unread_def)
  moreover have "vectors_true V (snd s')" using u assms(5) unfolding unread_def vectors_true_def by simp
  ultimately show ?thesis using ok opens(1) assms(4,6) passes_ok_later [of V jobs ps "snd s" "snd s'"]
    by (simp add: whole_docs_def)
qed

lemma race_run_keeps:
  assumes "race_run jobs c c'" "db_ok (snd (snd c))" "providers_keep V jobs" "passes_ok V jobs (fst c) (snd (snd c))"
    "vectors_true V (snd (snd c))" "whole_docs (chunk_sizes jobs) (snd (snd c))"
  shows "db_ok (snd (snd c')) \<and> passes_ok V jobs (fst c') (snd (snd c')) \<and> vectors_true V (snd (snd c')) \<and>
    whole_docs (chunk_sizes jobs) (snd (snd c'))"
  using assms
proof (induction rule: race_run.induct)
  case (more c c1 c2)
  then have "race jobs (fst c1, snd c1) (fst c2, snd c2)" by simp
  from race_keeps [OF this] more show ?case by blast
qed simp

text \<open>A note whose file every scan finds or skips.\<close>

definition always_there :: "gostring \<Rightarrow> ('w host \<times> 'w knowledge) list \<Rightarrow> bool" where
  "always_there p jobs \<longleftrightarrow>
     (\<forall>(h, k)\<in>set jobs. \<forall>w. p \<in> set (Skipped (fst (scan_now h k w))) \<union> notePath ` set (Notes (fst (scan_now h k w))))"

fun lists_path :: "gostring \<Rightarrow> pass \<Rightarrow> bool" where
  "lists_path p (Saving ns res noteErrs paths) \<longleftrightarrow> p \<in> set paths \<union> notePath ` set ns"
| "lists_path p (Pruning res paths) \<longleftrightarrow> p \<in> set paths"
| "lists_path p _ \<longleftrightarrow> True"

lemma pass_step_lists:
  assumes "pass_step h k pc s = (pc', s')" "lists_path p pc"
    "p \<in> set (Skipped (fst (scan_now h k (fst s)))) \<union> notePath ` set (Notes (fst (scan_now h k (fst s))))"
  shows "lists_path p pc'"
proof (cases pc)
  case (Saving ns res errs paths)
  then show ?thesis using assms(1,2) by (cases ns) (auto split: option.splits sum.splits prod.splits if_splits)
qed (use assms in \<open>auto simp: Let_def split: sum.splits prod.splits if_splits\<close>)

lemma race_lists:
  assumes "race jobs (ps, s) (ps', s')" "always_there p jobs" "length ps = length jobs" "\<forall>pc\<in>set ps. lists_path p pc"
    "db_ok (snd s)" "index_of (snd s) p \<noteq> None"
  shows "length ps' = length jobs \<and> (\<forall>pc\<in>set ps'. lists_path p pc) \<and> db_ok (snd s') \<and> index_of (snd s') p \<noteq> None"
  using assms(1)
proof (cases rule: race_elim)
  case (turn i pc)
  let ?h = "fst (jobs ! i)" and ?k = "snd (jobs ! i)"
  have "(?h, ?k) \<in> set jobs" using turn(2) assms(3) by simp
  then have "p \<in> set (Skipped (fst (scan_now ?h ?k (fst s)))) \<union> notePath ` set (Notes (fst (scan_now ?h ?k (fst s))))"
    using assms(2) unfolding always_there_def by blast
  moreover have old: "lists_path p (ps ! i)" using assms(4) turn(2) by simp
  ultimately have new: "lists_path p pc" using pass_step_lists [OF turn(3)] by blast
  have keep: "db_ok (snd s') \<and> moves_index ?k (ps ! i) (snd s) (snd s')"
    using pass_step_moves [OF assms(5) turn(3)] .
  then have "index_of (snd s') p \<noteq> None" using assms(6) old unfolding moves_index_def by auto
  then show ?thesis using keep new assms(3,4) turn(1) set_update_subset_insert [of ps i pc] by auto
next
  case (restart i)
  then show ?thesis using assms set_update_subset_insert [of ps i Beginning] by auto
next
  case (outside w db w')
  then show ?thesis using assms by simp
next
  case (opens env sha ul space r)
  have "index_of (snd s') = index_of (snd s)" using unread_Ensure [OF opens(2)]
    by (intro index_of_cong) (simp_all add: unread_def)
  then show ?thesis using opens ok_stepD [OF Ensure_step opens(2) assms(5)] assms by simp
qed

lemma race_run_lists:
  assumes "race_run jobs c c'" "always_there p jobs" "length (fst c) = length jobs" "\<forall>pc\<in>set (fst c). lists_path p pc"
    "db_ok (snd (snd c))" "index_of (snd (snd c)) p \<noteq> None"
  shows "length (fst c') = length jobs \<and> (\<forall>pc\<in>set (fst c'). lists_path p pc) \<and> db_ok (snd (snd c')) \<and>
    index_of (snd (snd c')) p \<noteq> None"
  using assms
proof (induction rule: race_run.induct)
  case (more c c1 c2)
  then have "race jobs (fst c1, snd c1) (fst c2, snd c2)" by simp
  from race_lists [OF this] more show ?case by blast
qed simp

text \<open>
  A schedule names whose turn it is, step by step.
\<close>

fun turns :: "('w host \<times> 'w knowledge) list \<Rightarrow> nat list \<Rightarrow> pass list \<times> 'w \<times> pg \<Rightarrow> pass list \<times> 'w \<times> pg" where
  "turns jobs [] c = c"
| "turns jobs (i # is) c =
     (case pass_step (fst (jobs ! i)) (snd (jobs ! i)) (fst c ! i) (snd c) of
        (pc, s') \<Rightarrow> turns jobs is ((fst c)[i := pc], s'))"

lemma turns_run: "race_run jobs c0 c \<Longrightarrow> list_all (\<lambda>i. i < length (fst c)) is \<Longrightarrow> race_run jobs c0 (turns jobs is c)"
proof (induction "is" arbitrary: c)
  case (Cons i "is")
  obtain pc s' where step: "pass_step (fst (jobs ! i)) (snd (jobs ! i)) (fst c ! i) (snd c) = (pc, s')" by (rule prod.exhaust)
  from Cons.prems(2) have "race jobs (fst c, snd c) ((fst c)[i := pc], s')" by (intro turn [OF _ step]) simp
  with Cons.prems(1) have "race_run jobs c0 ((fst c)[i := pc], s')" by (auto intro: more)
  from Cons.IH [OF this] Cons.prems(2) step show ?case by simp
qed simp

lemma race_run_trans: "race_run jobs b c \<Longrightarrow> race_run jobs a b \<Longrightarrow> race_run jobs a c"
  by (induction rule: race_run.induct) (auto intro: more)

text \<open>A pass nobody disturbs is one of the interleavings.\<close>

lemma pass_run_race:
  assumes "i < length ps" "jobs ! i = (h, k)" "pass_run h k n (ps ! i, s) = (pc, s')"
  shows "race_run jobs (ps, s) (ps[i := pc], s')"
  using assms
proof (induction n arbitrary: ps s)
  case 0
  then have "pc = ps ! i" "s' = s" by simp_all
  then show ?case by (simp add: none)
next
  case (Suc n)
  obtain pc1 s1 where step: "pass_step h k (ps ! i) s = (pc1, s1)" by (rule prod.exhaust)
  then have "race jobs (ps, s) (ps[i := pc1], s1)" using Suc.prems by (intro turn) simp_all
  then have one: "race_run jobs (ps, s) (ps[i := pc1], s1)" using none more by metis
  have "race_run jobs (ps[i := pc1], s1) (ps[i := pc1, i := pc], s')"
    using Suc.prems step by (intro Suc.IH) (simp_all add: pass_run_Suc)
  from race_run_trans [OF this one] show ?case by simp
qed

lemma indexed_hash:
  "indexed_note n idx note \<noteq> None \<Longrightarrow> map_option docHash (indexed_note n idx note) = Some (noteHash note)"
  by (auto simp: indexed_note_def unchanged_def new_doc_def split: if_splits sum.splits)

section \<open>The properties\<close>

text \<open>
  C7. Passes may overlap. Let any number of passes, in any processes, with any vaults, providers
  and chunk sizes, run on one database in any interleaving of their steps; let each be
  killed and begun again at any moment, the server refuse calls or lose replies, files and
  clocks change and spaces be opened in between. Then the database is consistent at every
  moment; every vector in every table was given by a provider of that table for the text of
  its own chunk; and every document of the index has exactly the chunks of its own text,
  never some of them and never those of another version.
\<close>

theorem overlapping_passes_are_safe:
  assumes "db_ok db" "providers_keep V jobs" "vectors_true V db" "whole_docs (chunk_sizes jobs) db"
    "race_run jobs (replicate (length jobs) Beginning, w, db) (ps, w', db')"
  shows "db_ok db' \<and> vectors_true V db' \<and> whole_docs (chunk_sizes jobs) db'"
  using race_run_keeps [OF assms(5), of V] assms(1-4) passes_ok_start [of V jobs db] by simp

text \<open>
  C21. A note whose file is there is never lost to a race. If the scans of all passes, whenever they
  are made, find or skip the file of a path, and the path is in the index, then it is in the
  index at every moment of every interleaving.
\<close>

theorem overlapping_passes_keep_notes:
  assumes "db_ok db" "always_there p jobs" "index_of db p \<noteq> None"
    "race_run jobs (replicate (length jobs) Beginning, w, db) (ps, w', db')"
  shows "index_of db' p \<noteq> None"
  using race_run_lists [OF assms(4,2)] assms(1,3) by simp

text \<open>
  C8. One quiet pass repairs whatever the races left. After any interleaving, let one of the
  knowledge bases run a pass undisturbed, and let it report no error. Then no chunk waits
  for a vector, every scanned note is in the index in its present version and nothing else
  is but the skipped files (unless the scan found no file at all); and all the other
  guarantees still hold, for the tables of the other providers too.
\<close>

theorem undisturbed_pass_repairs:
  assumes "db_ok db" "providers_keep V jobs" "vectors_true V db" "whole_docs (chunk_sizes jobs) db"
    "race_run jobs (replicate (length jobs) Beginning, w, db) (ps, w', db')"
    "(h, k) \<in> set jobs" "hRoot h w' = Inr node" "names_ok node"
    "Knowledge_Index h k (w', db') = Some ((res, None), w'', db'')"
  defines "scan \<equiv> fst (scan_now h k w')"
  shows "db_ok db'' \<and> vectors_true V db'' \<and> whole_docs (chunk_sizes jobs) db'' \<and> waiting (kSpace k) db'' = [] \<and>
    (\<forall>n\<in>set (Notes scan). map_option docHash (index_of db'' (notePath n)) = Some (noteHash n)) \<and>
    (\<forall>p. p \<notin> notePath ` set (Notes scan) \<and> p \<notin> set (Skipped scan) \<and> (Notes scan \<noteq> [] \<or> Skipped scan \<noteq> []) \<longrightarrow>
       index_of db'' p = None)"
proof -
  have now: "db_ok db' \<and> passes_ok V jobs ps db' \<and> vectors_true V db' \<and> whole_docs (chunk_sizes jobs) db'"
    using race_run_keeps [OF assms(5), of V] assms(1-4) passes_ok_start [of V jobs db] by simp
  obtain i where i: "i < length jobs" "jobs ! i = (h, k)" using assms(6) by (metis in_set_conv_nth)
  have len: "i < length ps" using now i(1) by (simp add: passes_ok_def)
  obtain n where run: "pass_run h k n (Beginning, w', db') = (Finished res None, w'', db'')"
    using assms(9) Index_run by blast
  have again: "race_run jobs (ps, w', db') (ps[i := Beginning], w', db')" using restart [OF len] none more by metis
  have "race_run jobs (ps[i := Beginning], w', db') (ps[i := Beginning, i := Finished res None], w'', db'')"
    using len i(2) run by (intro pass_run_race) simp_all
  from race_run_keeps [OF race_run_trans [OF this again], of V] now assms(2)
  have after: "db_ok db'' \<and> vectors_true V db'' \<and> whole_docs (chunk_sizes jobs) db''" by simp
  have emb: "embedding (Embed (kEmbed k)) (V (refTable (kSpace k)))"
    using assms(2,6) unfolding providers_keep_def list_all_iff by auto
  have "faithful (V (refTable (kSpace k)) KindDocument) (kSpace k) (snd (w', db'))"
    using now by (simp add: vectors_true_def faithful_def)
  note line = Index_in_line [OF _ _ assms(8) emb this assms(9), unfolded fst_conv snd_conv, OF _ assms(7), folded scan_def]
  have paths: "distinct (map notePath (Notes scan))" unfolding scan_def using assms(7,8) by (rule scan_now_paths)
  have "map_option docHash (index_of db'' (notePath nt)) = Some (noteHash nt)" if "nt \<in> set (Notes scan)" for nt
  proof -
    have "index_of db'' (notePath nt) = indexed_note (chunkN k) (index_of db') nt"
      "index_of db'' (notePath nt) \<noteq> None"
      using line now find_distinct [OF paths that] that by auto
    then show ?thesis by (metis indexed_hash)
  qed
  moreover have "index_of db'' p = None"
    if "p \<notin> notePath ` set (Notes scan)" "p \<notin> set (Skipped scan)" "Notes scan \<noteq> [] \<or> Skipped scan \<noteq> []" for p
  proof -
    have "find (\<lambda>n. notePath n = p) (Notes scan) = None" using that(1) by (auto simp: find_None)
    then show ?thesis using line now that by auto
  qed
  ultimately show ?thesis using after line now by blast
qed

section \<open>Two passes over two versions of a note\<close>

definition race_host :: "gostring \<Rightarrow> unit host" where
  "race_host content = demo_host\<lparr>hRoot := \<lambda>w. Inr (Dir None [(''a.md'', File (Inr content))])\<rparr>"

definition race_jobs :: "(unit host \<times> unit knowledge) list" where
  "race_jobs = [(race_host ''one'', demo_kb), (race_host ''two'', demo_kb)]"

definition race_pg :: pg where
  "race_pg = demo_pg\<lparr>noteRows := [], chunkRows := [], vecTables := [\<lparr>tname = ''emb'', tdim = 1, trows = []\<rparr>]\<rparr>"

definition race_schedule :: "nat list" where
  "race_schedule = replicate 6 0 @ replicate 2 1 @ [0] @ replicate 7 1"

definition race_end :: "pass list \<times> unit \<times> pg" where
  "race_end = turns race_jobs race_schedule (replicate (length race_jobs) Beginning, (), race_pg)"

lemma race_end_run: "race_run race_jobs (replicate (length race_jobs) Beginning, (), race_pg) race_end"
  unfolding race_end_def by (rule turns_run [OF none]) code_simp

lemma race_start:
  "db_ok race_pg" "providers_keep (\<lambda>_. one_dim) race_jobs" "vectors_true (\<lambda>_. one_dim) race_pg"
  "whole_docs (chunk_sizes race_jobs) race_pg"
proof -
  show "db_ok race_pg" by code_simp
  show "providers_keep (\<lambda>_. one_dim) race_jobs"
    using embedding_length by (simp add: providers_keep_def race_jobs_def demo_kb_def)
  show "vectors_true (\<lambda>_. one_dim) race_pg" by (simp add: vectors_true_def race_pg_def)
  show "whole_docs (chunk_sizes race_jobs) race_pg" by (simp add: whole_docs_def race_pg_def index_of_def)
qed

text \<open>
  The first pass has sent a text to the provider when the second replaces the note; its
  vector no longer has a chunk, the foreign key refuses it, and the first pass ends with an
  error although the server, the provider and the files never failed. The second one
  completes the index.
\<close>

lemma overlapping_passes_can_fail:
  "(\<exists>res e res'. fst race_end = [Finished res (Some e), Finished res' None]) \<and>
   waiting demo_ref (snd (snd race_end)) = [] \<and> \<not> isl (Cut ''one'' 800) \<and>
   map_option docText (index_of (snd (snd race_end)) ''a.md'') = Some ''two''"
proof (intro conjI)
  have "case fst race_end of [Finished res (Some e), Finished res' None] \<Rightarrow> True | _ \<Rightarrow> False" by code_simp
  then show "\<exists>res e res'. fst race_end = [Finished res (Some e), Finished res' None]"
    by (auto split: list.splits pass.splits option.splits)
qed code_simp+

lemma overlapping_passes_are_safe_witness:
  "db_ok (snd (snd race_end)) \<and> vectors_true (\<lambda>_. one_dim) (snd (snd race_end)) \<and>
   whole_docs (chunk_sizes race_jobs) (snd (snd race_end)) \<and> chunkRows (snd (snd race_end)) \<noteq> []"
proof -
  have run: "race_run race_jobs (replicate (length race_jobs) Beginning, (), race_pg)
      (fst race_end, (), snd (snd race_end))"
    using race_end_run by (metis (full_types) old.unit.exhaust prod.collapse)
  have "chunkRows (snd (snd race_end)) \<noteq> []" by code_simp
  then show ?thesis using overlapping_passes_are_safe [OF race_start run] by simp
qed

lemma overlapping_passes_keep_notes_witness:
  "index_of demo_pg ''a.md'' \<noteq> None \<and>
   index_of (snd (snd (turns race_jobs race_schedule ([Beginning, Beginning], (), demo_pg)))) ''a.md'' \<noteq> None"
proof -
  let ?stop = "turns race_jobs race_schedule ([Beginning, Beginning], (), demo_pg)"
  have two: "replicate (length race_jobs) Beginning = [Beginning, Beginning]" by code_simp
  have "race_run race_jobs ([Beginning, Beginning], (), demo_pg) ?stop" by (rule turns_run [OF none]) code_simp
  then have run: "race_run race_jobs (replicate (length race_jobs) Beginning, (), demo_pg) (fst ?stop, (), snd (snd ?stop))"
    unfolding two by (metis (full_types) old.unit.exhaust prod.collapse)
  have "''a.md'' \<in> set (Skipped (fst (scan_now h k ()))) \<union> notePath ` set (Notes (fst (scan_now h k ())))"
    if "(h, k) \<in> set race_jobs" for h k
  proof -
    have "list_all (\<lambda>(h, k). ''a.md'' \<in> notePath ` set (Notes (fst (scan_now h k ())))) race_jobs" by code_simp
    then show ?thesis using that unfolding list_all_iff by auto
  qed
  then have there: "always_there ''a.md'' race_jobs" by (auto simp: always_there_def)
  have "index_of demo_pg ''a.md'' \<noteq> None" by code_simp
  with overlapping_passes_keep_notes [OF demo_pg_ok there this run] show ?thesis by simp
qed

lemma undisturbed_pass_repairs_witness:
  "\<exists>res s. Knowledge_Index (race_host ''one'') demo_kb ((), snd (snd race_end)) = Some ((res, None), s) \<and>
     NotesWritten res = 1 \<and> vectors_true (\<lambda>_. one_dim) (snd s) \<and> waiting demo_ref (snd s) = []"
proof -
  let ?run = "Knowledge_Index (race_host ''one'') demo_kb ((), snd (snd race_end))"
  have run: "race_run race_jobs (replicate (length race_jobs) Beginning, (), race_pg)
      (fst race_end, (), snd (snd race_end))"
    using race_end_run by (metis (full_types) old.unit.exhaust prod.collapse)
  have "case ?run of None \<Rightarrow> False | Some ((res, err), s) \<Rightarrow> err = None \<and> NotesWritten res = 1" by code_simp
  then obtain res s where i: "?run = Some ((res, None), s)" "NotesWritten res = 1" by (auto split: option.splits)
  have job: "(race_host ''one'', demo_kb) \<in> set race_jobs" by (simp add: race_jobs_def)
  have root: "hRoot (race_host ''one'') () = Inr (Dir None [(''a.md'', File (Inr ''one''))])" by (simp add: race_host_def)
  have names: "names_ok (Dir None [(''a.md'', File (Inr ''one''))])" by code_simp
  obtain w'' db'' where s: "s = (w'', db'')" by (rule prod.exhaust)
  from undisturbed_pass_repairs [OF race_start run job root names i(1) [unfolded s]] i show ?thesis
    by (simp add: s demo_kb_def)
qed

end
