(* ===== verification/Background.thy ===== *)
theory Background
  imports Concurrent Reindex
begin

text \<open>
  What a status of the background indexer says about the database: the server of
  \<open>internal/httpapi/reindex.go\<close> with its passes in steps (\<open>Concurrent\<close>), its requests, and the
  world that moves on between them. A pass is the goroutine \<open>run\<close>, begun by \<open>start\<close> and over
  when it has stored its result; nothing here assumes that there is only one.
\<close>

section \<open>A server and its passes\<close>

text \<open>\<open>bgSeen\<close> is not state of the program: it is what the pass that began last found in the vault.\<close>

record 'w background =
  bgStatus :: indexStatus
  bgPasses :: "pass list"
  bgWorld :: 'w
  bgDb :: pg
  bgSeen :: scan_result

definition fresh_server :: "'w \<Rightarrow> pg \<Rightarrow> 'w background" where
  "fresh_server w db = \<lparr>bgStatus = newIndexer, bgPasses = [], bgWorld = w, bgDb = db, bgSeen = scan_empty\<rparr>"

text \<open>The critical section of \<open>start\<close>, with the goroutine it begins.\<close>

definition accept :: "int \<Rightarrow> 'w background \<Rightarrow> bool \<times> 'w background" where
  "accept clock b =
     (case start clock (bgStatus b) of
        (began, st) \<Rightarrow> (began, b\<lparr>bgStatus := st, bgPasses := bgPasses b @ (if began then [Beginning] else [])\<rparr>))"

text \<open>A goroutine's next call, and its end.\<close>

definition proceed :: "'w host \<Rightarrow> 'w knowledge \<Rightarrow> nat \<Rightarrow> 'w background \<Rightarrow> 'w background" where
  "proceed h k i b =
     (case pass_step h k (bgPasses b ! i) (bgWorld b, bgDb b) of
        (pc, w, db) \<Rightarrow> b\<lparr>bgPasses := (bgPasses b)[i := pc], bgWorld := w, bgDb := db,
          bgSeen := (if bgPasses b ! i = Beginning then fst (scan_now h k (bgWorld b)) else bgSeen b)\<rparr>)"

definition conclude :: "int \<Rightarrow> nat \<Rightarrow> 'w background \<Rightarrow> 'w background" where
  "conclude clock i b =
     (case bgPasses b ! i of
        Finished res err \<Rightarrow>
          b\<lparr>bgStatus := run_end clock res err (bgStatus b), bgPasses := take i (bgPasses b) @ drop (Suc i) (bgPasses b)\<rparr>
      | _ \<Rightarrow> b)"

text \<open>
  Requests that read, files, clocks and providers change the world and not the database; and
  the server may die at any moment and begin anew.
\<close>

inductive bg_step :: "'w host \<Rightarrow> 'w knowledge \<Rightarrow> 'w background \<Rightarrow> 'w background \<Rightarrow> bool" for h k where
  request: "bg_step h k b (snd (accept clock b))"
| go_on: "i < length (bgPasses b) \<Longrightarrow> bg_step h k b (proceed h k i b)"
| conclusion: "i < length (bgPasses b) \<Longrightarrow> bg_step h k b (conclude clock i b)"
| elsewhere: "bg_step h k b (b\<lparr>bgWorld := w\<rparr>)"
| dies: "bg_step h k b (fresh_server w (bgDb b))"

inductive bg_run :: "'w host \<Rightarrow> 'w knowledge \<Rightarrow> 'w background \<Rightarrow> 'w background \<Rightarrow> bool" for h k where
  at_rest: "bg_run h k b b"
| one_more: "bg_run h k b b1 \<Longrightarrow> bg_step h k b1 b2 \<Longrightarrow> bg_run h k b b2"

inductive_cases bg_step_cases [consumes 1, case_names request go_on conclusion elsewhere dies]: "bg_step h k b b'"

section \<open>A pass follows what it has seen\<close>

abbreviation stored :: "pg \<Rightarrow> Note \<Rightarrow> bool" where
  "stored db n \<equiv> unchanged (index_of db) n"

text \<open>The index is the vault that was seen: its notes in their versions, and nothing that was not there.\<close>

definition matches :: "scan_result \<Rightarrow> pg \<Rightarrow> bool" where
  "matches seen db \<longleftrightarrow> list_all (stored db) (Notes seen) \<and>
     (\<forall>p. p \<notin> notePath ` set (Notes seen) \<and> p \<notin> set (Skipped seen) \<and> (Notes seen \<noteq> [] \<or> Skipped seen \<noteq> []) \<longrightarrow>
        index_of db p = None)"

fun on_course :: "SpaceRef \<Rightarrow> scan_result \<Rightarrow> pg \<Rightarrow> pass \<Rightarrow> bool" where
  "on_course ref seen db Beginning \<longleftrightarrow> True"
| "on_course ref seen db (Saving ns res errs paths) \<longleftrightarrow> distinct (map notePath (Notes seen)) \<and>
     (\<exists>saved. Notes seen = saved @ ns \<and> paths = Skipped seen @ map notePath saved \<and>
        (errs = [] \<longrightarrow> list_all (stored db) saved))"
| "on_course ref seen db (Pruning res paths) \<longleftrightarrow>
     paths = Skipped seen @ map notePath (Notes seen) \<and> list_all (stored db) (Notes seen)"
| "on_course ref seen db (Finished res err) \<longleftrightarrow> (err = None \<longrightarrow> matches seen db \<and> waiting ref db = [])"
| "on_course ref seen db (Claiming res errs n) \<longleftrightarrow> (errs = [] \<longrightarrow> matches seen db)"
| "on_course ref seen db (Embedding res errs n claimed i) \<longleftrightarrow> (errs = [] \<longrightarrow> matches seen db)"
| "on_course ref seen db (Storing res errs n claimed i vs) \<longleftrightarrow> (errs = [] \<longrightarrow> matches seen db)"

lemma matches_cong: "index_of db' = index_of db \<Longrightarrow> matches seen db' = matches seen db"
  by (simp add: matches_def)

lemma stored_other: "index_of db' = (index_of db)(p := d) \<Longrightarrow> notePath n \<noteq> p \<Longrightarrow> stored db' n = stored db n"
  by (simp add: unchanged_def)

lemma Save_on_course:
  assumes "db_ok (snd s)" "SaveNoteWithChunks env nt (Cut (noteText nt) n) s = (Inr (i, written), s')"
    "list_all (stored (snd s)) saved" "notePath nt \<notin> notePath ` set saved"
  shows "list_all (stored (snd s')) (saved @ [nt])"
proof -
  have "(\<exists>cs. index_of (snd s') = (index_of (snd s))(notePath nt \<mapsto> new_doc nt cs)) \<or>
      map_option docHash (index_of (snd s) (notePath nt)) = Some (noteHash nt) \<and> index_of (snd s') = index_of (snd s)"
    using Save_cases [OF assms(1,2)] by (cases written) auto
  then show ?thesis
  proof
    assume "\<exists>cs. index_of (snd s') = (index_of (snd s))(notePath nt \<mapsto> new_doc nt cs)"
    then obtain cs where idx: "index_of (snd s') = (index_of (snd s))(notePath nt \<mapsto> new_doc nt cs)" ..
    have "stored (snd s') m" if "m \<in> set saved" for m
    proof -
      have "notePath m \<noteq> notePath nt" using that assms(4) by (metis image_eqI)
      from stored_other [OF idx this] show ?thesis using that assms(3) by (simp add: list_all_iff)
    qed
    then show ?thesis by (simp add: list_all_iff idx unchanged_def new_doc_def)
  next
    assume same: "map_option docHash (index_of (snd s) (notePath nt)) = Some (noteHash nt) \<and> index_of (snd s') = index_of (snd s)"
    then have "stored (snd s') nt" by (simp add: unchanged_def)
    then show ?thesis using same assms(3) by simp
  qed
qed

lemma Delete_matches:
  assumes "db_ok (snd s)" "DeleteMissingNotes env (Skipped seen @ map notePath (Notes seen)) s = (Inr n, s')"
    "list_all (stored (snd s)) (Notes seen)"
  shows "matches seen (snd s')"
proof (cases "Skipped seen @ map notePath (Notes seen) = []")
  case True
  then show ?thesis using Delete_cases [OF assms(1,2)] assms(3) by (simp add: matches_def)
next
  case False
  then have idx: "index_of (snd s') = (index_of (snd s)) |` set (Skipped seen @ map notePath (Notes seen))"
    using Delete_cases [OF assms(1,2)] by (simp split: if_splits)
  have "stored (snd s') m" if "m \<in> set (Notes seen)" for m
    using that assms(3) by (simp add: idx unchanged_def list_all_iff)
  then show ?thesis by (simp add: matches_def list_all_iff idx restrict_map_def)
qed

text \<open>One step keeps a pass on its course.\<close>

lemma pass_step_on_course:
  assumes "db_ok (snd s)" "on_course (kSpace k) seen (snd s) pc" "pass_step h k pc s = (pc', s')"
    "pc = Beginning \<Longrightarrow> seen' = fst (scan_now h k (fst s)) \<and> distinct (map notePath (Notes seen'))"
    "pc \<noteq> Beginning \<Longrightarrow> seen' = seen"
  shows "on_course (kSpace k) seen' (snd s') pc'"
proof (cases pc)
  case Beginning
  then show ?thesis using assms(3,4) by (auto simp: Let_def split: if_splits)
next
  case (Saving ns res errs paths)
  then have seen: "seen' = seen" using assms(5) by simp
  obtain saved where saved: "Notes seen = saved @ ns" "paths = Skipped seen @ map notePath saved"
    "errs = [] \<longrightarrow> list_all (stored (snd s)) saved" "distinct (map notePath (Notes seen))"
    using assms(2) Saving by auto
  show ?thesis
  proof (cases ns)
    case Nil
    then show ?thesis using assms(3) Saving saved seen by (auto split: if_splits)
  next
    case (Cons nt rest)
    show ?thesis
    proof (cases "hCtx h (fst s)")
      case (Some e)
      then show ?thesis using assms(3) Saving Cons by auto
    next
      case None
      obtain r s1 where sv: "SaveNoteWithChunks (hDb h) nt (Cut (noteText nt) (chunkN k)) s = (r, s1)" by (rule prod.exhaust)
      have more: "Notes seen = (saved @ [nt]) @ rest" "paths @ [notePath nt] = Skipped seen @ map notePath (saved @ [nt])"
        using saved Cons by simp_all
      show ?thesis
      proof (cases r)
        case (Inl e)
        then show ?thesis using assms(3) Saving Cons None sv more saved(4) seen by auto
      next
        case (Inr iw)
        obtain i written where iw: "iw = (i, written)" by (rule prod.exhaust)
        have new: "notePath nt \<notin> notePath ` set saved" using saved(1,4) Cons by auto
        have "errs = [] \<longrightarrow> list_all (stored (snd s1)) (saved @ [nt])"
          using Save_on_course [OF assms(1) sv [unfolded Inr iw] _ new] saved(3) by blast
        then show ?thesis using assms(3) Saving Cons None sv Inr iw more saved(4) seen by auto
      qed
    qed
  qed
next
  case (Pruning res paths)
  obtain r s1 where del: "DeleteMissingNotes (hDb h) paths s = (r, s1)" by (rule prod.exhaust)
  have "matches seen (snd s1)" if "r = Inr n" for n
    using Delete_matches [OF assms(1), of "hDb h" seen n s1] assms(2) del that Pruning by simp
  then show ?thesis using assms(3,5) Pruning del by (auto split: sum.splits)
next
  case (Claiming res errs n)
  obtain r s1 where cl: "PendingChunks (hDb h) (kSpace k) pendingBatch s = (r, s1)" by (rule prod.exhaust)
  have same: "snd s1 = snd s" by (rule Pending_keeps [OF cl])
  have "waiting (kSpace k) (snd s) = []" if "r = Inr []"
    using Pending_first [OF cl [unfolded that]] by (simp add: pendingBatch_def)
  then show ?thesis using assms(2,3,5) Claiming cl same
    by (auto simp: join_errs_None split: sum.splits if_splits)
next
  case (Embedding res errs n claimed start)
  then show ?thesis using assms(2,3,5) by (auto split: sum.splits prod.splits if_splits)
next
  case (Storing res errs n claimed start vs)
  obtain r s1 where sv: "SaveEmbeddings (hDb h) (kSpace k) (chunk_vectors (part_at k claimed start) vs) s = (r, s1)"
    by (rule prod.exhaust)
  have "matches seen (snd s1) = matches seen (snd s)"
    using SaveEmbeddings_cases [OF assms(1) sv] by (intro matches_cong) simp
  then show ?thesis using assms(2,3,5) Storing sv by (auto split: sum.splits)
next
  case (Finished res err)
  then show ?thesis using assms(2,3,5) by auto
qed

section \<open>What every reachable state keeps\<close>

definition bg_ok :: "(Kind \<Rightarrow> gostring \<Rightarrow> Vector \<Rightarrow> bool) \<Rightarrow> 'w knowledge \<Rightarrow> 'w background \<Rightarrow> bool" where
  "bg_ok R k b \<longleftrightarrow>
     db_ok (bgDb b) \<and> faithful (R KindDocument) (kSpace k) (bgDb b) \<and>
     length (bgPasses b) = (if State (bgStatus b) = stateRunning then 1 else 0) \<and>
     list_all (\<lambda>pc. on_course (kSpace k) (bgSeen b) (bgDb b) pc \<and> pass_ok (R KindDocument) k (bgDb b) pc) (bgPasses b) \<and>
     (State (bgStatus b) = stateDone \<longrightarrow> matches (bgSeen b) (bgDb b) \<and> waiting (kSpace k) (bgDb b) = [])"

lemma bg_ok_started: "db_ok db \<Longrightarrow> faithful (R KindDocument) (kSpace k) db \<Longrightarrow> bg_ok R k (fresh_server w db)"
  by (simp add: bg_ok_def fresh_server_def newIndexer_def state_defs)

lemma adds_faithful: "adds_vectors R ref db db' \<Longrightarrow> faithful R ref db \<Longrightarrow> faithful R ref db'"
  unfolding adds_vectors_def faithful_def by blast

lemma only_pass:
  assumes "bg_ok R k b" "i < length (bgPasses b)"
  obtains pc where "bgPasses b = [pc]" "i = 0" "State (bgStatus b) = stateRunning"
    "on_course (kSpace k) (bgSeen b) (bgDb b) pc" "pass_ok (R KindDocument) k (bgDb b) pc"
proof -
  have run: "State (bgStatus b) = stateRunning" using assms by (auto simp: bg_ok_def split: if_splits)
  then have "length (bgPasses b) = 1" using assms(1) by (simp add: bg_ok_def)
  then obtain pc where "bgPasses b = [pc]" by (metis One_nat_def length_0_conv length_Suc_conv)
  then show thesis using that assms run by (auto simp: bg_ok_def)
qed

lemma accept_ok: "bg_ok R k b \<Longrightarrow> bg_ok R k (snd (accept clock b))"
  by (auto simp: bg_ok_def accept_def start_def state_defs split: if_splits)

lemma conclude_ok:
  assumes "bg_ok R k b" "i < length (bgPasses b)"
  shows "bg_ok R k (conclude clock i b)"
  using assms
proof (rule only_pass)
  fix pc assume p: "bgPasses b = [pc]" "i = 0" "State (bgStatus b) = stateRunning"
    "on_course (kSpace k) (bgSeen b) (bgDb b) pc"
  show ?thesis
  proof (cases pc)
    case (Finished res err)
    then show ?thesis using assms(1) p
      by (cases err) (auto simp: bg_ok_def conclude_def run_end_def Let_def state_defs)
  qed (use assms(1) p in \<open>simp_all add: conclude_def\<close>)
qed

lemma proceed_ok:
  assumes "bg_ok R k b" "i < length (bgPasses b)" "embedding (Embed (kEmbed k)) R"
    "\<And>w. distinct (map notePath (Notes (fst (scan_now h k w))))"
  shows "bg_ok R k (proceed h k i b)"
  using assms(1,2)
proof (rule only_pass)
  fix pc assume p: "bgPasses b = [pc]" "i = 0" "State (bgStatus b) = stateRunning"
    "on_course (kSpace k) (bgSeen b) (bgDb b) pc" "pass_ok (R KindDocument) k (bgDb b) pc"
  obtain pc' w db where step: "pass_step h k pc (bgWorld b, bgDb b) = (pc', w, db)" by (metis prod.exhaust)
  have ok: "db_ok (bgDb b)" "faithful (R KindDocument) (kSpace k) (bgDb b)" using assms(1) by (simp_all add: bg_ok_def)
  have keeps: "step_keeps (R KindDocument) k pc' (bgDb b) db"
    using pass_step_keeps [of "(bgWorld b, bgDb b)" R k pc h pc' "(w, db)"] ok p(5) assms(3) step by simp
  have moved: "db_ok db" using pass_step_moves [of "(bgWorld b, bgDb b)" h k pc pc' "(w, db)"] ok step by simp
  define seen' where "seen' = (if pc = Beginning then fst (scan_now h k (bgWorld b)) else bgSeen b)"
  have "on_course (kSpace k) seen' (snd (w, db)) pc'"
    using ok(1) p(4) assms(4) by (intro pass_step_on_course [OF _ _ step]) (simp_all add: seen'_def)
  moreover have "faithful (R KindDocument) (kSpace k) db" "pass_ok (R KindDocument) k db pc'"
    using keeps adds_faithful ok(2) unfolding step_keeps_def by blast+
  moreover have "proceed h k i b = b\<lparr>bgPasses := [pc'], bgWorld := w, bgDb := db, bgSeen := seen'\<rparr>"
    using p(1,2) step by (simp add: proceed_def seen'_def)
  ultimately show ?thesis using moved p(3) by (simp add: bg_ok_def state_defs)
qed

lemma bg_step_ok:
  assumes "bg_step h k b b'" "bg_ok R k b" "embedding (Embed (kEmbed k)) R"
    "\<And>w. distinct (map notePath (Notes (fst (scan_now h k w))))"
  shows "bg_ok R k b'"
  using assms(1)
proof (cases rule: bg_step_cases)
  case (request clock)
  then show ?thesis using accept_ok assms(2) by simp
next
  case (go_on i)
  then show ?thesis using proceed_ok assms(2-4) by blast
next
  case (conclusion i clock)
  then show ?thesis using conclude_ok assms(2) by blast
next
  case (elsewhere w)
  then show ?thesis using assms(2) by (simp add: bg_ok_def)
next
  case (dies w)
  have "db_ok (bgDb b)" "faithful (R KindDocument) (kSpace k) (bgDb b)" using assms(2) by (simp_all add: bg_ok_def)
  then show ?thesis unfolding dies by (rule bg_ok_started)
qed

lemma bg_run_ok:
  assumes "bg_run h k b b'" "bg_ok R k b" "embedding (Embed (kEmbed k)) R"
    "\<And>w. distinct (map notePath (Notes (fst (scan_now h k w))))"
  shows "bg_ok R k b'"
  using assms by (induction rule: bg_run.induct) (auto intro: bg_step_ok)

section \<open>The property\<close>

text \<open>A file system does not name two entries of a directory alike.\<close>

definition sound_files :: "'w host \<Rightarrow> bool" where
  "sound_files h \<longleftrightarrow> (\<forall>w node. hRoot h w = Inr node \<longrightarrow> names_ok node)"

lemma sound_scan: "sound_files h \<Longrightarrow> distinct (map notePath (Notes (fst (scan_now h k w))))"
proof (cases "hRoot h w")
  case (Inl e)
  then show ?thesis by (simp add: scan_now_def Scan_def scan_empty_def)
next
  case (Inr node)
  moreover assume "sound_files h"
  ultimately show ?thesis by (intro scan_now_paths) (auto simp: sound_files_def)
qed

text \<open>
  C6. A server that says \<open>done\<close> means it. Let one server index a database - whatever requests come,
  however they fall between the calls of its passes, whatever files, providers and clocks
  do meanwhile, and however often the server dies and starts again. At most one pass runs
  at any time, and the database stays consistent with every vector true to its chunk. And
  whenever the status is \<open>done\<close>, every note the last pass saw is in the index in the version
  it saw, nothing is that it did not see or skip (unless it saw no file), and no chunk waits
  for a vector.
\<close>

theorem done_means_indexed:
  assumes "db_ok db" "faithful (R KindDocument) (kSpace k) db" "embedding (Embed (kEmbed k)) R" "sound_files h"
    "bg_run h k (fresh_server w db) b"
  shows "length (bgPasses b) \<le> 1 \<and> db_ok (bgDb b) \<and> faithful (R KindDocument) (kSpace k) (bgDb b) \<and>
    (State (bgStatus b) = stateDone \<longrightarrow>
       (\<forall>n\<in>set (Notes (bgSeen b)). map_option docHash (index_of (bgDb b) (notePath n)) = Some (noteHash n)) \<and>
       (\<forall>p. p \<notin> notePath ` set (Notes (bgSeen b)) \<and> p \<notin> set (Skipped (bgSeen b)) \<and>
            (Notes (bgSeen b) \<noteq> [] \<or> Skipped (bgSeen b) \<noteq> []) \<longrightarrow> index_of (bgDb b) p = None) \<and>
       waiting (kSpace k) (bgDb b) = [])"
proof -
  have "bg_ok R k (fresh_server w db)" using assms(1,2) by (rule bg_ok_started)
  from bg_run_ok [OF assms(5) this assms(3)] sound_scan [OF assms(4)] have "bg_ok R k b" by metis
  then show ?thesis unfolding bg_ok_def matches_def unchanged_def list_all_iff by auto
qed

section \<open>A run\<close>

lemma bg_run_trans: "bg_run h k b c \<Longrightarrow> bg_run h k a b \<Longrightarrow> bg_run h k a c"
  by (induction rule: bg_run.induct) (auto intro: one_more)

lemma proceed_passes: "length (bgPasses (proceed h k i b)) = length (bgPasses b)"
  by (simp add: proceed_def split: prod.splits)

fun proceeds :: "'w host \<Rightarrow> 'w knowledge \<Rightarrow> nat \<Rightarrow> 'w background \<Rightarrow> 'w background" where
  "proceeds h k 0 b = b"
| "proceeds h k (Suc n) b = proceeds h k n (proceed h k 0 b)"

lemma proceeds_run:
  "bg_run h k b0 b \<Longrightarrow> 0 < length (bgPasses b) \<Longrightarrow>
   bg_run h k b0 (proceeds h k n b) \<and> 0 < length (bgPasses (proceeds h k n b))"
proof (induction n arbitrary: b)
  case (Suc n)
  from Suc.IH [OF one_more [OF Suc.prems(1) go_on [OF Suc.prems(2)]]] Suc.prems(2) show ?case
    by (simp add: proceed_passes)
qed simp

text \<open>One request, and the pass it begins, to its end; a second request in between is turned away.\<close>

definition demo_asked :: "unit background" where
  "demo_asked = snd (accept 5 (fresh_server () race_pg))"

definition demo_done :: "unit background" where
  "demo_done = conclude 9 0 (snd (accept 6 (proceeds (race_host ''one'') demo_kb 9 demo_asked)))"

lemma demo_done_run: "bg_run (race_host ''one'') demo_kb (fresh_server () race_pg) demo_done"
proof -
  let ?n = "proceeds (race_host ''one'') demo_kb 9 demo_asked"
  have asked: "bg_run (race_host ''one'') demo_kb (fresh_server () race_pg) demo_asked"
    unfolding demo_asked_def by (rule one_more [OF at_rest request])
  have "0 < length (bgPasses demo_asked)" by code_simp
  note n = proceeds_run [OF asked this, of 9]
  have "bg_run (race_host ''one'') demo_kb (fresh_server () race_pg) (snd (accept 6 ?n))"
    by (rule one_more [OF _ request]) (rule conjunct1 [OF n])
  moreover have "0 < length (bgPasses (snd (accept 6 ?n)))" using n by (auto simp: accept_def split: prod.splits)
  ultimately show ?thesis unfolding demo_done_def by (intro one_more [OF _ conclusion])
qed

lemma done_means_indexed_witness:
  "State (bgStatus demo_done) = stateDone \<and> waiting demo_ref (bgDb demo_done) = [] \<and>
   map notePath (Notes (bgSeen demo_done)) = [''a.md''] \<and> faithful (one_dim KindDocument) demo_ref (bgDb demo_done)"
proof -
  have emb: "embedding (Embed (kEmbed demo_kb)) one_dim" using embedding_length by (simp add: demo_kb_def)
  have ok: "db_ok race_pg" by code_simp
  have fa: "faithful (one_dim KindDocument) (kSpace demo_kb) race_pg"
    by (simp add: faithful_def race_pg_def)
  have "names_ok (Dir None [(''a.md'', File (Inr ''one''))])" by code_simp
  then have files: "sound_files (race_host ''one'')" by (simp add: sound_files_def race_host_def)
  have "State (bgStatus demo_done) = stateDone" "map notePath (Notes (bgSeen demo_done)) = [''a.md'']"
    by code_simp+
  then show ?thesis using done_means_indexed [OF ok fa emb files demo_done_run] by (simp add: demo_kb_def)
qed

end
