(* ===== verification/Migrate.thy ===== *)
theory Migrate
  imports Database
begin

text \<open>
  The schema and its history: the two migrations of \<open>internal/migrate/migrations\<close> as lists of
  statements over a schema whose columns may still be nullable, capped or not yet dropped,
  and what \<open>goose\<close> is documented to do with them (\<open>internal/migrate/migrate.go\<close>). Where they
  end is the database of \<open>Database\<close>: \<open>pg_of\<close> reads it off a schema. \<open>goose\<close> is a parameter.
\<close>

section \<open>A schema on its way\<close>

text \<open>Rows as the older schemas allow them: \<open>None\<close> is \<open>NULL\<close>.\<close>

record old_note =
  oId :: int
  oPath :: gostring
  oName :: "gostring option"
  oText :: "gostring option"
  oHash :: "gostring option"

record old_chunk =
  oCid :: int
  oNote :: "int option"
  oIndex :: "int option"
  oChunkText :: "gostring option"
  oEmbedding :: "Vector option"
  oModel :: "gostring option"

text \<open>A table with what the migrations change about it: \<open>nameCap\<close> is the \<open>n\<close> of \<open>VARCHAR(n)\<close>.\<close>

record notes_table =
  nameCap :: "nat option"
  textNull :: bool
  hashNull :: bool
  nRows :: "old_note list"
  nSeq :: int

record chunks_table =
  noteNull :: bool
  indexNull :: bool
  chunkTextNull :: bool
  uniqueKey :: bool
  embeddingCol :: bool
  modelCol :: bool
  cRows :: "old_chunk list"
  cSeq :: int

record registry =
  gRows :: "space_row list"
  gSeq :: int

text \<open>\<open>history\<close> gives the versions recorded in each version table of the database.\<close>

record schema =
  vectorExt :: bool
  notesT :: "notes_table option"
  chunksT :: "chunks_table option"
  spacesT :: "registry option"
  vectorsT :: "vec_table list"
  history :: "gostring \<Rightarrow> int list option"

section \<open>Statements of the migrations\<close>

datatype column = NoteId | ChunkIndex | ChunkText | NoteText | NoteHash

datatype old_column = EmbeddingCol | ModelCol

datatype table = NotesTable | ChunksTable | SpacesTable

datatype ddl =
    CreateExtension
  | CreateNotes
  | CreateChunks
  | CreateSpaces
  | SetNotNull column
  | DropNotNull column
  | AddUniqueKey
  | DropUniqueKey
  | NameType "nat option"
  | DropCol old_column
  | AddCol old_column
  | DropTable table

datatype sqlstate =
    NotNullViolation
  | UniqueViolation
  | StringTooLong
  | UndefinedTable
  | DependentObjects

definition new_notes :: notes_table where
  "new_notes = \<lparr>nameCap = Some 255, textNull = True, hashNull = True, nRows = [], nSeq = 1\<rparr>"

definition new_chunks :: chunks_table where
  "new_chunks = \<lparr>noteNull = True, indexNull = True, chunkTextNull = True, uniqueKey = False,
     embeddingCol = True, modelCol = True, cRows = [], cSeq = 1\<rparr>"

definition new_spaces :: registry where
  "new_spaces = \<lparr>gRows = [], gSeq = 1\<rparr>"

text \<open>Statements on one table that must exist.\<close>

definition alter_notes :: "(notes_table \<Rightarrow> sqlstate + notes_table) \<Rightarrow> schema \<Rightarrow> sqlstate + schema" where
  "alter_notes f s =
     (case notesT s of
        None \<Rightarrow> Inl UndefinedTable
      | Some t \<Rightarrow> (case f t of Inl e \<Rightarrow> Inl e | Inr t \<Rightarrow> Inr (s\<lparr>notesT := Some t\<rparr>)))"

definition alter_chunks :: "(chunks_table \<Rightarrow> sqlstate + chunks_table) \<Rightarrow> schema \<Rightarrow> sqlstate + schema" where
  "alter_chunks f s =
     (case chunksT s of
        None \<Rightarrow> Inl UndefinedTable
      | Some t \<Rightarrow> (case f t of Inl e \<Rightarrow> Inl e | Inr t \<Rightarrow> Inr (s\<lparr>chunksT := Some t\<rparr>)))"

definition require :: "bool \<Rightarrow> sqlstate \<Rightarrow> 'a \<Rightarrow> sqlstate + 'a" where
  "require p e a = (if p then Inr a else Inl e)"

text \<open>The key of a chunk; two keys with a \<open>NULL\<close> in them never conflict.\<close>

definition chunk_keys :: "old_chunk list \<Rightarrow> (int \<times> int) list" where
  "chunk_keys rows = concat (map (\<lambda>r. case (oNote r, oIndex r) of (Some n, Some i) \<Rightarrow> [(n, i)] | _ \<Rightarrow> []) rows)"

text \<open>Converting to \<open>VARCHAR(n)\<close> cuts off spaces, and nothing else.\<close>

definition to_varchar :: "nat \<Rightarrow> gostring \<Rightarrow> gostring option" where
  "to_varchar n t =
     (if rune_count t \<le> n then Some t
      else if list_all (\<lambda>r. r = 32) (drop n (runes t)) then Some (of_runes (take n (runes t)))
      else None)"

definition cap_name :: "nat option \<Rightarrow> old_note \<Rightarrow> old_note option" where
  "cap_name cap r =
     (case (cap, oName r) of
        (Some n, Some t) \<Rightarrow> map_option (\<lambda>t. r\<lparr>oName := Some t\<rparr>) (to_varchar n t)
      | _ \<Rightarrow> Some r)"

fun ddl_step :: "ddl \<Rightarrow> schema \<Rightarrow> sqlstate + schema" where
  "ddl_step CreateExtension s = Inr (s\<lparr>vectorExt := True\<rparr>)"
| "ddl_step CreateNotes s = Inr (if notesT s = None then s\<lparr>notesT := Some new_notes\<rparr> else s)"
| "ddl_step CreateChunks s =
     (if chunksT s \<noteq> None then Inr s
      else if notesT s = None then Inl UndefinedTable
      else Inr (s\<lparr>chunksT := Some new_chunks\<rparr>))"
| "ddl_step CreateSpaces s = Inr (if spacesT s = None then s\<lparr>spacesT := Some new_spaces\<rparr> else s)"
| "ddl_step (SetNotNull c) s =
     (case c of
        NoteId \<Rightarrow> alter_chunks (\<lambda>t. require (list_all (\<lambda>r. oNote r \<noteq> None) (cRows t)) NotNullViolation (t\<lparr>noteNull := False\<rparr>)) s
      | ChunkIndex \<Rightarrow> alter_chunks (\<lambda>t. require (list_all (\<lambda>r. oIndex r \<noteq> None) (cRows t)) NotNullViolation (t\<lparr>indexNull := False\<rparr>)) s
      | ChunkText \<Rightarrow> alter_chunks (\<lambda>t. require (list_all (\<lambda>r. oChunkText r \<noteq> None) (cRows t)) NotNullViolation (t\<lparr>chunkTextNull := False\<rparr>)) s
      | NoteText \<Rightarrow> alter_notes (\<lambda>t. require (list_all (\<lambda>r. oText r \<noteq> None) (nRows t)) NotNullViolation (t\<lparr>textNull := False\<rparr>)) s
      | NoteHash \<Rightarrow> alter_notes (\<lambda>t. require (list_all (\<lambda>r. oHash r \<noteq> None) (nRows t)) NotNullViolation (t\<lparr>hashNull := False\<rparr>)) s)"
| "ddl_step (DropNotNull c) s =
     (case c of
        NoteId \<Rightarrow> alter_chunks (\<lambda>t. Inr (t\<lparr>noteNull := True\<rparr>)) s
      | ChunkIndex \<Rightarrow> alter_chunks (\<lambda>t. Inr (t\<lparr>indexNull := True\<rparr>)) s
      | ChunkText \<Rightarrow> alter_chunks (\<lambda>t. Inr (t\<lparr>chunkTextNull := True\<rparr>)) s
      | NoteText \<Rightarrow> alter_notes (\<lambda>t. Inr (t\<lparr>textNull := True\<rparr>)) s
      | NoteHash \<Rightarrow> alter_notes (\<lambda>t. Inr (t\<lparr>hashNull := True\<rparr>)) s)"
| "ddl_step AddUniqueKey s =
     alter_chunks (\<lambda>t. if uniqueKey t then Inr t
       else require (distinct (chunk_keys (cRows t))) UniqueViolation (t\<lparr>uniqueKey := True\<rparr>)) s"
| "ddl_step DropUniqueKey s = alter_chunks (\<lambda>t. Inr (t\<lparr>uniqueKey := False\<rparr>)) s"
| "ddl_step (NameType cap) s =
     alter_notes (\<lambda>t. case those (map (cap_name cap) (nRows t)) of
         None \<Rightarrow> Inl StringTooLong
       | Some rows \<Rightarrow> Inr (t\<lparr>nameCap := cap, nRows := rows\<rparr>)) s"
| "ddl_step (DropCol c) s =
     alter_chunks (\<lambda>t. Inr (case c of
         EmbeddingCol \<Rightarrow> t\<lparr>embeddingCol := False, cRows := map (\<lambda>r. r\<lparr>oEmbedding := None\<rparr>) (cRows t)\<rparr>
       | ModelCol \<Rightarrow> t\<lparr>modelCol := False, cRows := map (\<lambda>r. r\<lparr>oModel := None\<rparr>) (cRows t)\<rparr>)) s"
| "ddl_step (AddCol c) s =
     alter_chunks (\<lambda>t. Inr (case c of EmbeddingCol \<Rightarrow> t\<lparr>embeddingCol := True\<rparr> | ModelCol \<Rightarrow> t\<lparr>modelCol := True\<rparr>)) s"
| "ddl_step (DropTable tbl) s =
     (case tbl of
        NotesTable \<Rightarrow> require (notesT s = None \<or> chunksT s = None) DependentObjects (s\<lparr>notesT := None\<rparr>)
      | ChunksTable \<Rightarrow> require (chunksT s = None \<or> vectorsT s = []) DependentObjects (s\<lparr>chunksT := None\<rparr>)
      | SpacesTable \<Rightarrow> Inr (s\<lparr>spacesT := None\<rparr>))"

fun run_ddl :: "ddl list \<Rightarrow> schema \<Rightarrow> sqlstate + schema" where
  "run_ddl [] s = Inr s"
| "run_ddl (d # ds) s = (case ddl_step d s of Inl e \<Rightarrow> Inl e | Inr s \<Rightarrow> run_ddl ds s)"

section \<open>The two migrations\<close>

record migration =
  mVersion :: int
  mUp :: "ddl list"
  mDown :: "ddl list"

definition init_migration :: migration where
  "init_migration = \<lparr>mVersion = 1, mUp = [CreateExtension, CreateNotes, CreateChunks],
     mDown = [DropTable ChunksTable, DropTable NotesTable]\<rparr>"

definition spaces_migration :: migration where
  "spaces_migration = \<lparr>mVersion = 2,
     mUp = [SetNotNull NoteId, SetNotNull ChunkIndex, SetNotNull ChunkText, AddUniqueKey, NameType None,
            SetNotNull NoteText, SetNotNull NoteHash, DropCol EmbeddingCol, DropCol ModelCol, CreateSpaces],
     mDown = [DropTable SpacesTable, AddCol EmbeddingCol, AddCol ModelCol, DropNotNull NoteHash, DropNotNull NoteText,
              NameType (Some 255), DropUniqueKey, DropNotNull ChunkText, DropNotNull ChunkIndex, DropNotNull NoteId]\<rparr>"

definition migrations :: "migration list" where
  "migrations = [init_migration, spaces_migration]"

definition VersionTable :: gostring where
  "VersionTable = ''rag_db_version''"

section \<open>What the server enforces in every schema\<close>

text \<open>The database of the program, read off a schema; a missing name is read as an empty one.\<close>

definition note_of :: "old_note \<Rightarrow> note_row" where
  "note_of r = \<lparr>nid = oId r, npath = oPath r, nname = (case oName r of None \<Rightarrow> [] | Some n \<Rightarrow> n),
     ntext = the (oText r), nhash = the (oHash r)\<rparr>"

definition chunk_of :: "old_chunk \<Rightarrow> chunk_row" where
  "chunk_of r = \<lparr>cid = oCid r, cnote = the (oNote r), cindex = the (oIndex r), ctext = the (oChunkText r)\<rparr>"

definition the_notes :: "schema \<Rightarrow> notes_table" where
  "the_notes s = (case notesT s of None \<Rightarrow> new_notes | Some t \<Rightarrow> t)"

definition the_chunks :: "schema \<Rightarrow> chunks_table" where
  "the_chunks s = (case chunksT s of None \<Rightarrow> new_chunks | Some t \<Rightarrow> t)"

definition the_spaces :: "schema \<Rightarrow> registry" where
  "the_spaces s = (case spacesT s of None \<Rightarrow> new_spaces | Some t \<Rightarrow> t)"

definition pg_of :: "schema \<Rightarrow> pg" where
  "pg_of s = \<lparr>noteRows = map note_of (nRows (the_notes s)), chunkRows = map chunk_of (cRows (the_chunks s)),
     spaceRows = gRows (the_spaces s), vecTables = vectorsT s,
     noteSeq = nSeq (the_notes s), chunkSeq = cSeq (the_chunks s), spaceSeq = gSeq (the_spaces s)\<rparr>"

text \<open>What the columns of a table, as they are now, admit.\<close>

fun if_some :: "('a \<Rightarrow> bool) \<Rightarrow> 'a option \<Rightarrow> bool" where
  "if_some p None \<longleftrightarrow> True"
| "if_some p (Some x) \<longleftrightarrow> p x"

definition notes_enforced :: "notes_table \<Rightarrow> bool" where
  "notes_enforced t \<longleftrightarrow>
     (textNull t \<or> list_all (\<lambda>r. oText r \<noteq> None) (nRows t)) \<and> (hashNull t \<or> list_all (\<lambda>r. oHash r \<noteq> None) (nRows t)) \<and>
     list_all (\<lambda>r. if_some (\<lambda>n. if_some (\<lambda>x. rune_count x \<le> n) (oName r)) (nameCap t)) (nRows t)"

definition chunks_enforced :: "chunks_table \<Rightarrow> bool" where
  "chunks_enforced t \<longleftrightarrow>
     (noteNull t \<or> list_all (\<lambda>r. oNote r \<noteq> None) (cRows t)) \<and> (indexNull t \<or> list_all (\<lambda>r. oIndex r \<noteq> None) (cRows t)) \<and>
     (chunkTextNull t \<or> list_all (\<lambda>r. oChunkText r \<noteq> None) (cRows t)) \<and>
     (uniqueKey t \<longrightarrow> distinct (chunk_keys (cRows t))) \<and>
     (embeddingCol t \<or> list_all (\<lambda>r. oEmbedding r = None) (cRows t)) \<and>
     (modelCol t \<or> list_all (\<lambda>r. oModel r = None) (cRows t))"

text \<open>With keys, foreign keys and the vector tables with their registry.\<close>

definition schema_ok :: "schema \<Rightarrow> bool" where
  "schema_ok s \<longleftrightarrow>
     (notesT s = None \<longrightarrow> chunksT s = None) \<and>
     distinct (map oId (nRows (the_notes s))) \<and> distinct (map oPath (nRows (the_notes s))) \<and>
     list_all (\<lambda>r. oId r < nSeq (the_notes s)) (nRows (the_notes s)) \<and>
     distinct (map oCid (cRows (the_chunks s))) \<and> list_all (\<lambda>r. oCid r < cSeq (the_chunks s)) (cRows (the_chunks s)) \<and>
     list_all (\<lambda>r. if_some (\<lambda>n. n \<in> oId ` set (nRows (the_notes s))) (oNote r)) (cRows (the_chunks s)) \<and>
     notes_enforced (the_notes s) \<and> chunks_enforced (the_chunks s) \<and> tables_ok (pg_of s) \<and> spaces_ok (pg_of s)"

text \<open>What the second migration needs of the rows: \<open>clean\<close>.\<close>

definition clean_notes :: "notes_table \<Rightarrow> bool" where
  "clean_notes t \<longleftrightarrow> list_all (\<lambda>r. oText r \<noteq> None) (nRows t) \<and> list_all (\<lambda>r. oHash r \<noteq> None) (nRows t)"

definition clean_chunks :: "chunks_table \<Rightarrow> bool" where
  "clean_chunks t \<longleftrightarrow> list_all (\<lambda>r. oNote r \<noteq> None) (cRows t) \<and> list_all (\<lambda>r. oIndex r \<noteq> None) (cRows t) \<and>
     list_all (\<lambda>r. oChunkText r \<noteq> None) (cRows t) \<and> distinct (chunk_keys (cRows t))"

definition clean :: "schema \<Rightarrow> bool" where
  "clean s \<longleftrightarrow> clean_notes (the_notes s) \<and> clean_chunks (the_chunks s)"

text \<open>The schema this build expects.\<close>

definition current :: "schema \<Rightarrow> bool" where
  "current s \<longleftrightarrow> vectorExt s \<and> spacesT s \<noteq> None \<and>
     (\<exists>t. notesT s = Some t \<and> nameCap t = None \<and> \<not> textNull t \<and> \<not> hashNull t) \<and>
     (\<exists>t. chunksT s = Some t \<and> \<not> noteNull t \<and> \<not> indexNull t \<and> \<not> chunkTextNull t \<and> uniqueKey t \<and>
        \<not> embeddingCol t \<and> \<not> modelCol t)"

text \<open>What the two migrations make of a schema.\<close>

definition bare_chunk :: "old_chunk \<Rightarrow> old_chunk" where
  "bare_chunk r = r\<lparr>oEmbedding := None, oModel := None\<rparr>"

definition created :: "schema \<Rightarrow> schema" where
  "created s = s\<lparr>vectorExt := True, notesT := Some (the_notes s), chunksT := Some (the_chunks s)\<rparr>"

definition tightened :: "schema \<Rightarrow> schema" where
  "tightened s = s\<lparr>
     notesT := Some ((the_notes s)\<lparr>nameCap := None, textNull := False, hashNull := False\<rparr>),
     chunksT := Some ((the_chunks s)\<lparr>noteNull := False, indexNull := False, chunkTextNull := False, uniqueKey := True,
       embeddingCol := False, modelCol := False, cRows := map bare_chunk (cRows (the_chunks s))\<rparr>),
     spacesT := Some (the_spaces s)\<rparr>"

section \<open>What the statements do\<close>

named_theorems ddl_simps

lemma ddl_tables [ddl_simps]:
  "notesT s = Some t \<Longrightarrow> alter_notes f s = (case f t of Inl e \<Rightarrow> Inl e | Inr t \<Rightarrow> Inr (s\<lparr>notesT := Some t\<rparr>))"
  "chunksT s = Some c \<Longrightarrow> alter_chunks g s = (case g c of Inl e \<Rightarrow> Inl e | Inr c \<Rightarrow> Inr (s\<lparr>chunksT := Some c\<rparr>))"
  by (simp_all add: alter_notes_def alter_chunks_def)

lemma require_simps [ddl_simps]: "p \<Longrightarrow> require p e a = Inr a" "\<not> p \<Longrightarrow> require p e a = Inl e"
  by (simp_all add: require_def)

lemma run_init: "run_ddl (mUp init_migration) s = (if chunksT s \<noteq> None \<and> notesT s = None
    then Inr (s\<lparr>vectorExt := True, notesT := Some new_notes\<rparr>) else Inr (created s))"
  by (cases "notesT s"; cases "chunksT s") (simp_all add: init_migration_def created_def the_notes_def the_chunks_def)

lemma run_init_ok: "schema_ok s \<Longrightarrow> run_ddl (mUp init_migration) s = Inr (created s)"
  by (auto simp: run_init schema_ok_def)

lemma cap_none [simp]: "those (map (cap_name None) rows) = Some rows"
  by (induction rows) (simp_all add: cap_name_def)

lemma bare_chunk_simps [simp]:
  "oCid (bare_chunk r) = oCid r" "oNote (bare_chunk r) = oNote r" "oIndex (bare_chunk r) = oIndex r"
  "oChunkText (bare_chunk r) = oChunkText r"
  by (simp_all add: bare_chunk_def)

lemma bare_two: "map (\<lambda>r. r\<lparr>oModel := None\<rparr>) (map (\<lambda>r. r\<lparr>oEmbedding := None\<rparr>) rows) = map bare_chunk rows"
  by (simp add: bare_chunk_def)

lemma chunk_keys_bare [simp]: "chunk_keys (map bare_chunk rows) = chunk_keys rows"
  unfolding chunk_keys_def map_map comp_def bare_chunk_simps by (rule refl)

lemma run_spaces:
  assumes "notesT s = Some t" "chunksT s = Some c" "uniqueKey c \<longrightarrow> distinct (chunk_keys (cRows c))"
  shows "run_ddl (mUp spaces_migration) s = (if clean s then Inr (tightened s) else Inl (projl (run_ddl (mUp spaces_migration) s)))"
proof (cases "clean s")
  case True
  then show ?thesis using assms
    by (simp add: spaces_migration_def ddl_simps clean_def clean_notes_def clean_chunks_def tightened_def
        the_notes_def the_chunks_def the_spaces_def bare_chunk_def comp_def split: option.splits)
next
  case False
  then have "isl (run_ddl (mUp spaces_migration) s)" using assms
    by (simp add: spaces_migration_def alter_notes_def alter_chunks_def require_def clean_def clean_notes_def clean_chunks_def
        the_notes_def the_chunks_def split: option.splits) blast
  then show ?thesis using False by (cases "run_ddl (mUp spaces_migration) s") simp_all
qed

section \<open>What \<open>goose\<close> does with them\<close>

text \<open>
  \<open>Up\<close> gives \<open>goose\<close> its own version table, the embedded migrations and no others. \<open>goose\<close> is
  documented to run the migrations whose versions the table does not list, in their order,
  each in one transaction with the row that records it, and to stop at the first that fails.
\<close>

definition applied :: "gostring \<Rightarrow> schema \<Rightarrow> int list" where
  "applied t s = (case history s t of None \<Rightarrow> [] | Some vs \<Rightarrow> vs)"

definition outstanding :: "gostring \<Rightarrow> migration list \<Rightarrow> schema \<Rightarrow> migration list" where
  "outstanding t ms s = filter (\<lambda>m. mVersion m \<notin> set (applied t s)) ms"

definition with_table :: "gostring \<Rightarrow> schema \<Rightarrow> schema" where
  "with_table t s = (if history s t = None then s\<lparr>history := (history s)(t \<mapsto> [0])\<rparr> else s)"

definition recorded :: "gostring \<Rightarrow> int \<Rightarrow> schema \<Rightarrow> schema" where
  "recorded t v s = s\<lparr>history := (history s)(t \<mapsto> applied t s @ [v])\<rparr>"

fun apply_each :: "gostring \<Rightarrow> migration list \<Rightarrow> schema \<Rightarrow> sqlstate + schema" where
  "apply_each t [] s = Inr s"
| "apply_each t (m # ms) s =
     (case run_ddl (mUp m) s of Inl e \<Rightarrow> Inl e | Inr s \<Rightarrow> apply_each t ms (recorded t (mVersion m) s))"

type_synonym 'w goose = "gostring \<Rightarrow> migration list \<Rightarrow> 'w \<times> schema \<Rightarrow> goerr option \<times> 'w \<times> schema"

definition goose_contract :: "'w goose \<Rightarrow> bool" where
  "goose_contract goose \<longleftrightarrow>
     (\<forall>t ms w s err w' s'. goose t ms (w, s) = (err, w', s') \<longrightarrow>
        s' = s \<and> err \<noteq> None \<or>
        (\<exists>did rest. outstanding t ms s = did @ rest \<and> apply_each t did (with_table t s) = Inr s' \<and>
           (err = None \<longleftrightarrow> rest = [])))"

text \<open>A run in which nothing but a migration fails.\<close>

definition goose_undisturbed :: "'w goose \<Rightarrow> bool" where
  "goose_undisturbed goose \<longleftrightarrow>
     (\<forall>t ms w s. \<not> isl (apply_each t (outstanding t ms s) (with_table t s)) \<longrightarrow> fst (goose t ms (w, s)) = None)"

definition Up_on :: "'w goose \<Rightarrow> 'w \<times> schema \<Rightarrow> goerr option \<times> 'w \<times> schema" where
  "Up_on goose = goose VersionTable migrations"

section \<open>From any older schema to the current one\<close>

text \<open>The history fits the schema: what it lists has been done.\<close>

definition history_fits :: "schema \<Rightarrow> bool" where
  "history_fits s \<longleftrightarrow>
     (case history s VersionTable of
        None \<Rightarrow> True
      | Some vs \<Rightarrow> vs = [0] \<or> vs = [0, 1] \<and> vectorExt s \<and> notesT s \<noteq> None \<and> chunksT s \<noteq> None \<or>
          vs = [0, 1, 2] \<and> current s)"

definition keeps_rows :: "schema \<Rightarrow> schema \<Rightarrow> bool" where
  "keeps_rows s s' \<longleftrightarrow>
     nRows (the_notes s') = nRows (the_notes s) \<and> nSeq (the_notes s') = nSeq (the_notes s) \<and>
     map bare_chunk (cRows (the_chunks s')) = map bare_chunk (cRows (the_chunks s)) \<and>
     cSeq (the_chunks s') = cSeq (the_chunks s) \<and>
     the_spaces s' = the_spaces s \<and> vectorsT s' = vectorsT s \<and>
     (\<forall>t. t \<noteq> VersionTable \<longrightarrow> history s' t = history s t)"

lemma keeps_rows_refl [simp]: "keeps_rows s s"
  by (simp add: keeps_rows_def)

lemma keeps_rows_trans: "keeps_rows a b \<Longrightarrow> keeps_rows b c \<Longrightarrow> keeps_rows a c"
  by (simp add: keeps_rows_def)

named_theorems schema_simps

lemma the_history [schema_simps]:
  "the_notes (s\<lparr>history := h\<rparr>) = the_notes s" "the_chunks (s\<lparr>history := h\<rparr>) = the_chunks s"
  "the_spaces (s\<lparr>history := h\<rparr>) = the_spaces s" "pg_of (s\<lparr>history := h\<rparr>) = pg_of s"
  "schema_ok (s\<lparr>history := h\<rparr>) = schema_ok s" "clean (s\<lparr>history := h\<rparr>) = clean s" "current (s\<lparr>history := h\<rparr>) = current s"
  by (simp_all add: the_notes_def the_chunks_def the_spaces_def pg_of_def schema_ok_def clean_def current_def)

lemma the_created [schema_simps]:
  "the_notes (created s) = the_notes s" "the_chunks (created s) = the_chunks s" "the_spaces (created s) = the_spaces s"
  "clean (created s) = clean s" "pg_of (created s) = pg_of s" "schema_ok s \<Longrightarrow> schema_ok (created s)"
  "vectorsT (created s) = vectorsT s" "history (created s) = history s"
  by (simp_all add: created_def the_notes_def the_chunks_def the_spaces_def clean_def pg_of_def schema_ok_def)

lemma chunk_of_bare [simp]: "chunk_of (bare_chunk r) = chunk_of r"
  by (simp add: chunk_of_def)

lemma the_tightened [schema_simps]:
  "nRows (the_notes (tightened s)) = nRows (the_notes s)" "nSeq (the_notes (tightened s)) = nSeq (the_notes s)"
  "cRows (the_chunks (tightened s)) = map bare_chunk (cRows (the_chunks s))"
  "cSeq (the_chunks (tightened s)) = cSeq (the_chunks s)" "the_spaces (tightened s) = the_spaces s"
  "pg_of (tightened s) = pg_of s" "vectorsT (tightened s) = vectorsT s" "history (tightened s) = history s"
  by (simp_all add: tightened_def the_notes_def the_chunks_def the_spaces_def pg_of_def)

lemma clean_tightened [schema_simps]: "clean (tightened s) = clean s"
  by (simp add: clean_def clean_notes_def clean_chunks_def schema_simps list_all_iff)

lemma enforced_tightened:
  "clean s \<Longrightarrow> notes_enforced (the_notes (tightened s)) \<and> chunks_enforced (the_chunks (tightened s))"
  by (simp add: tightened_def the_notes_def the_chunks_def notes_enforced_def chunks_enforced_def clean_def clean_notes_def
      clean_chunks_def list_all_iff) (simp add: bare_chunk_def)

lemma schema_ok_tightened: "schema_ok s \<Longrightarrow> clean s \<Longrightarrow> schema_ok (tightened s)"
  using enforced_tightened [of s]
  by (simp add: schema_ok_def schema_simps list_all_iff comp_def) (simp add: tightened_def)

lemma current_tightened: "vectorExt s \<Longrightarrow> current (tightened s)"
  by (simp add: current_def tightened_def)

lemma bare_same: "chunks_enforced t \<Longrightarrow> \<not> embeddingCol t \<Longrightarrow> \<not> modelCol t \<Longrightarrow> map bare_chunk (cRows t) = cRows t"
  by (intro map_idI) (auto simp: chunks_enforced_def list_all_iff bare_chunk_def)

text \<open>On the current schema the migrations change nothing.\<close>

lemma current_clean:
  assumes "schema_ok s" "current s"
  shows "clean s"
proof -
  from assms(2) obtain t c where t: "notesT s = Some t" "\<not> textNull t" "\<not> hashNull t"
    "chunksT s = Some c" "\<not> noteNull c" "\<not> indexNull c" "\<not> chunkTextNull c" "uniqueKey c"
    by (auto simp: current_def)
  have "notes_enforced t" "chunks_enforced c" using assms(1) t by (simp_all add: schema_ok_def the_notes_def the_chunks_def)
  with t show ?thesis
    by (simp add: clean_def clean_notes_def clean_chunks_def the_notes_def the_chunks_def notes_enforced_def chunks_enforced_def)
qed

lemma current_fixed:
  assumes "schema_ok s" "current s"
  shows "created s = s \<and> tightened s = s"
proof -
  from assms(2) obtain t c g where t: "notesT s = Some t" "nameCap t = None" "\<not> textNull t" "\<not> hashNull t"
    "chunksT s = Some c" "\<not> noteNull c" "\<not> indexNull c" "\<not> chunkTextNull c" "uniqueKey c" "\<not> embeddingCol c" "\<not> modelCol c"
    "spacesT s = Some g" "vectorExt s" by (auto simp: current_def)
  then have "map bare_chunk (cRows c) = cRows c"
    using assms(1) by (intro bare_same) (simp_all add: schema_ok_def the_chunks_def)
  with t show ?thesis by (simp add: tightened_def created_def the_notes_def the_chunks_def the_spaces_def)
qed

lemma keeps_created: "keeps_rows s (created s)"
  by (simp add: keeps_rows_def schema_simps)

lemma keeps_tightened: "keeps_rows s (tightened s)"
  by (simp add: keeps_rows_def schema_simps bare_chunk_def)

lemma keeps_recorded: "keeps_rows s (recorded VersionTable v s)"
  by (simp add: keeps_rows_def recorded_def schema_simps)

lemma keeps_with_table: "keeps_rows s (with_table VersionTable s)"
  by (simp add: keeps_rows_def with_table_def schema_simps)

lemma distinct_keys:
  "list_all (\<lambda>r. oNote r \<noteq> None) rows \<Longrightarrow> list_all (\<lambda>r. oIndex r \<noteq> None) rows \<Longrightarrow>
   chunk_keys rows = map (\<lambda>c. (cnote c, cindex c)) (map chunk_of rows)"
  by (induction rows) (auto simp: chunk_keys_def chunk_of_def)

text \<open>A consistent clean schema is a consistent database.\<close>

lemma db_ok_pg_of: "schema_ok s \<Longrightarrow> clean s \<Longrightarrow> db_ok (pg_of s)"
proof (rule db_okI)
  assume ok: "schema_ok s" and cl: "clean s"
  have ids: "map nid (map note_of rows) = map oId rows" "map npath (map note_of rows) = map oPath rows" for rows
    by (simp_all add: note_of_def)
  have cids: "map cid (map chunk_of rows) = map oCid rows" for rows by (simp add: chunk_of_def)
  show "notes_ok (pg_of s)"
    using ok unfolding notes_ok_def pg_of_def by (simp add: ids schema_ok_def list_all_iff del: map_map) (simp add: note_of_def)
  have keys: "distinct (map (\<lambda>c. (cnote c, cindex c)) (map chunk_of (cRows (the_chunks s))))"
    using cl distinct_keys [of "cRows (the_chunks s)"] by (simp add: clean_def clean_chunks_def)
  have nids: "nid ` set (map note_of rows) = oId ` set rows" for rows by (simp add: note_of_def image_image)
  have "cid (chunk_of r) < cSeq (the_chunks s) \<and> cnote (chunk_of r) \<in> oId ` set (nRows (the_notes s))"
    if r: "r \<in> set (cRows (the_chunks s))" for r
  proof -
    obtain n where "oNote r = Some n" using cl r by (auto simp: clean_def clean_chunks_def list_all_iff)
    then show ?thesis using ok r by (auto simp: schema_ok_def list_all_iff chunk_of_def)
  qed
  then show "chunks_ok (pg_of s)"
    using ok keys unfolding chunks_ok_def pg_of_def
    by (simp add: cids nids schema_ok_def del: map_map set_map) (simp add: comp_def)
  show "tables_ok (pg_of s)" "spaces_ok (pg_of s)" using ok by (simp_all add: schema_ok_def)
qed

text \<open>What every migration keeps, and what a run of some of them leaves.\<close>

definition upgrade :: "schema \<Rightarrow> schema \<Rightarrow> bool" where
  "upgrade s s' \<longleftrightarrow> schema_ok s' \<and> keeps_rows s s' \<and> clean s' = clean s \<and> (current s \<longrightarrow> s' = s\<lparr>history := history s'\<rparr>)"

lemma upgrade_refl: "schema_ok s \<Longrightarrow> upgrade s s"
  by (simp add: upgrade_def)

lemma upgrade_trans: "upgrade a b \<Longrightarrow> upgrade b c \<Longrightarrow> upgrade a c"
  unfolding upgrade_def using keeps_rows_trans by (metis (no_types, lifting) schema.update_convs(6) the_history(7) schema.surjective)

lemma upgrade_steps:
  assumes "schema_ok s"
  shows "upgrade s (with_table VersionTable s)" "upgrade s (recorded VersionTable v s)" "upgrade s (created s)"
    "clean s \<Longrightarrow> upgrade s (tightened s)"
  using assms current_fixed [OF assms] keeps_with_table keeps_recorded keeps_created keeps_tightened schema_ok_tightened
  by (simp_all add: upgrade_def schema_simps with_table_def recorded_def)

lemma apply_init:
  assumes "schema_ok s"
  shows "apply_each t (init_migration # ms) s = apply_each t ms (recorded t 1 (created s))"
  using run_init_ok [OF assms] by (simp add: init_migration_def)

lemma apply_spaces:
  assumes "schema_ok s" "notesT s \<noteq> None" "chunksT s \<noteq> None"
  shows "clean s \<Longrightarrow> apply_each t [spaces_migration] s = Inr (recorded t 2 (tightened s))"
    "\<not> clean s \<Longrightarrow> isl (apply_each t [spaces_migration] s)"
proof -
  obtain n c where nc: "notesT s = Some n" "chunksT s = Some c" using assms(2,3) by auto
  then have "uniqueKey c \<longrightarrow> distinct (chunk_keys (cRows c))"
    using assms(1) by (simp add: schema_ok_def chunks_enforced_def the_chunks_def)
  note run = run_spaces [OF nc this]
  show "clean s \<Longrightarrow> apply_each t [spaces_migration] s = Inr (recorded t 2 (tightened s))"
    using run by (simp add: spaces_migration_def)
  assume "\<not> clean s"
  then obtain e where "run_ddl (mUp spaces_migration) s = Inl e" using run by auto
  then show "isl (apply_each t [spaces_migration] s)" by simp
qed

text \<open>What a run of \<open>goose\<close> can leave, with what is still to do.\<close>

lemma history_steps [schema_simps]:
  "history (recorded t v s) t = Some (applied t s @ [v])" "applied t (recorded t v s) = applied t s @ [v]"
  "applied t (with_table t s) = (if history s t = None then [0] else applied t s)"
  "history (with_table t s) t = Some (if history s t = None then [0] else applied t s)"
  "applied t (created s) = applied t s" "applied t (tightened s) = applied t s"
  by (auto simp: recorded_def with_table_def applied_def schema_simps)

lemma tables_steps [schema_simps]:
  "notesT (recorded t v s) = notesT s" "chunksT (recorded t v s) = chunksT s" "vectorExt (recorded t v s) = vectorExt s"
  "notesT (with_table t s) = notesT s" "chunksT (with_table t s) = chunksT s" "vectorExt (with_table t s) = vectorExt s"
  "notesT (created s) = Some (the_notes s)" "chunksT (created s) = Some (the_chunks s)" "vectorExt (created s)"
  "current (recorded t v s) = current s" "current (with_table t s) = current s"
  by (simp_all add: recorded_def with_table_def created_def schema_simps)

lemma two_appended: "[x, y] = a @ b \<longleftrightarrow> a = [] \<and> b = [x, y] \<or> a = [x] \<and> b = [y] \<or> a = [x, y] \<and> b = []"
  by (auto simp: Cons_eq_append_conv)

lemma goose_leaves:
  assumes ok: "schema_ok s" and fits: "history_fits s"
    and run: "outstanding VersionTable migrations s = did @ rest" "apply_each VersionTable did (with_table VersionTable s) = Inr s'"
  shows "upgrade s s' \<and> history_fits s' \<and> (rest = [] \<longrightarrow> current s' \<and> clean s \<and> history s' VersionTable = Some [0, 1, 2])"
proof -
  define s0 where "s0 = with_table VersionTable s"
  have u0: "upgrade s s0" using upgrade_steps(1) [OF ok] by (simp add: s0_def)
  then have ok0: "schema_ok s0" by (simp add: upgrade_def)
  have last: "upgrade s s' \<and> history_fits s' \<and> current s' \<and> clean s \<and> history s' VersionTable = Some [0, 1, 2]"
    if run: "apply_each VersionTable [spaces_migration] s1 = Inr s'" and u: "upgrade s s1"
      and t: "notesT s1 \<noteq> None" "chunksT s1 \<noteq> None" "vectorExt s1" "applied VersionTable s1 = [0, 1]" for s1
  proof -
    have ok1: "schema_ok s1" and cl: "clean s1 = clean s" using u by (simp_all add: upgrade_def)
    have "clean s1" using apply_spaces(2) [OF ok1 t(1,2)] run by (metis sum.disc(2))
    then have s': "s' = recorded VersionTable 2 (tightened s1)" using apply_spaces(1) [OF ok1 t(1,2)] run by simp
    have ut: "upgrade s1 (tightened s1)" using upgrade_steps(4) [OF ok1] \<open>clean s1\<close> by simp
    then have "schema_ok (tightened s1)" by (simp add: upgrade_def)
    then have "upgrade s s'" using u ut upgrade_steps(2) upgrade_trans unfolding s' by blast
    moreover have "history s' VersionTable = Some [0, 1, 2]" "current s'"
      using t(3,4) current_tightened [of s1] by (simp_all add: s' schema_simps)
    ultimately show ?thesis using cl \<open>clean s1\<close> by (simp add: history_fits_def)
  qed
  consider (fresh) "applied VersionTable s0 = [0]" "outstanding VersionTable migrations s = [init_migration, spaces_migration]"
    | (half) "applied VersionTable s0 = [0, 1]" "notesT s0 \<noteq> None" "chunksT s0 \<noteq> None" "vectorExt s0"
        "outstanding VersionTable migrations s = [spaces_migration]"
    | (full) "applied VersionTable s0 = [0, 1, 2]" "current s0" "outstanding VersionTable migrations s = []"
    using fits by (fastforce simp: history_fits_def s0_def schema_simps applied_def outstanding_def migrations_def
        init_migration_def spaces_migration_def split: option.splits)
  then show ?thesis
  proof cases
    case full
    then have "s' = s0" "rest = []" using run by (simp_all add: s0_def)
    moreover have "history s0 VersionTable = Some [0, 1, 2]"
      using full(1) by (simp add: s0_def schema_simps split: if_splits)
    ultimately show ?thesis using u0 full(2) current_clean [OF ok0] by (simp add: history_fits_def upgrade_def)
  next
    case half
    then consider "did = []" "rest = [spaces_migration]" | "did = [spaces_migration]" "rest = []"
      using run(1) by (auto simp: append_eq_Cons_conv)
    then show ?thesis
    proof cases
      case 1
      then have "s' = s0" using run(2) by (simp add: s0_def)
      moreover have "history s0 VersionTable = Some [0, 1]" using half(1) by (simp add: s0_def schema_simps split: if_splits)
      ultimately show ?thesis using 1 u0 half by (simp add: history_fits_def)
    next
      case 2
      then show ?thesis using last [OF _ u0 half(2,3,4,1)] run(2) by (simp add: s0_def)
    qed
  next
    case fresh
    define s1 where "s1 = recorded VersionTable 1 (created s0)"
    have uc: "upgrade s0 (created s0)" using upgrade_steps(3) [OF ok0] .
    then have "schema_ok (created s0)" by (simp add: upgrade_def)
    then have u1: "upgrade s s1" using u0 uc upgrade_steps(2) upgrade_trans unfolding s1_def by blast
    have t1: "notesT s1 \<noteq> None" "chunksT s1 \<noteq> None" "vectorExt s1" "applied VersionTable s1 = [0, 1]"
      "history s1 VersionTable = Some [0, 1]" using fresh(1) by (simp_all add: s1_def schema_simps)
    have init: "apply_each VersionTable (init_migration # ms) s0 = apply_each VersionTable ms s1" for ms
      using apply_init [OF ok0] by (simp add: s1_def)
    from run(1) fresh(2) consider "did = []" "rest = [init_migration, spaces_migration]" | "did = [init_migration]" "rest = [spaces_migration]"
      | "did = [init_migration, spaces_migration]" "rest = []"
      by (auto simp: two_appended)
    then show ?thesis
    proof cases
      case 1
      then have "s' = s0" using run(2) by (simp add: s0_def)
      moreover have "history s0 VersionTable = Some [0]" using fresh(1) by (simp add: s0_def schema_simps split: if_splits)
      ultimately show ?thesis using 1 u0 by (simp add: history_fits_def)
    next
      case 2
      then have "s' = s1" using run(2) init [of "[]"] by (simp add: s0_def)
      then show ?thesis using 2 u1 t1 by (simp add: history_fits_def)
    next
      case 3
      then show ?thesis using last [OF _ u1 t1(1,2,3,4)] run(2) init [of "[spaces_migration]"] by (simp add: s0_def)
    qed
  qed
qed

lemma keeps_pg: "keeps_rows s s' \<Longrightarrow> pg_of s' = pg_of s"
proof -
  assume k: "keeps_rows s s'"
  have "map chunk_of (cRows (the_chunks r)) = map chunk_of (map bare_chunk (cRows (the_chunks r)))" for r by simp
  then have "map chunk_of (cRows (the_chunks s')) = map chunk_of (cRows (the_chunks s))"
    using k by (metis keeps_rows_def)
  with k show ?thesis by (simp add: pg_of_def keeps_rows_def)
qed

lemma apply_all_clean:
  assumes "schema_ok s" "history_fits s" "clean s"
  shows "\<not> isl (apply_each VersionTable (outstanding VersionTable migrations s) (with_table VersionTable s))"
proof -
  define s0 where "s0 = with_table VersionTable s"
  have ok0: "schema_ok s0" and cl0: "clean s0" using upgrade_steps(1) [OF assms(1)] assms(3) by (simp_all add: upgrade_def s0_def)
  define s1 where "s1 = recorded VersionTable 1 (created s0)"
  have s1: "schema_ok s1" "clean s1" "notesT s1 \<noteq> None" "chunksT s1 \<noteq> None"
    using ok0 cl0 by (simp_all add: s1_def schema_simps recorded_def)
  consider (fresh) "outstanding VersionTable migrations s = [init_migration, spaces_migration]"
    | (half) "notesT s0 \<noteq> None" "chunksT s0 \<noteq> None" "outstanding VersionTable migrations s = [spaces_migration]"
    | (full) "outstanding VersionTable migrations s = []"
    using assms(2) by (fastforce simp: history_fits_def s0_def schema_simps applied_def outstanding_def migrations_def
        init_migration_def spaces_migration_def split: option.splits)
  then have "\<not> isl (apply_each VersionTable (outstanding VersionTable migrations s) s0)"
  proof cases
    case fresh
    then show ?thesis
      using apply_init [OF ok0, of VersionTable "[spaces_migration]"] apply_spaces(1) [OF s1(1,3,4,2), of VersionTable]
      by (simp add: s1_def del: apply_each.simps)
  next
    case half
    then show ?thesis using apply_spaces(1) [OF ok0 half(1,2) cl0] by (simp del: apply_each.simps)
  qed simp
  then show ?thesis unfolding s0_def .
qed

text \<open>What one run of \<open>Up\<close> leaves.\<close>

lemma Up_keeps:
  assumes "goose_contract goose" "schema_ok s" "history_fits s" "Up_on goose (w, s) = (err, w', s')"
  shows "upgrade s s' \<and> history_fits s' \<and>
    (err = None \<longrightarrow> current s' \<and> clean s \<and> history s' VersionTable = Some [0, 1, 2]) \<and>
    (history s VersionTable = Some [0, 1, 2] \<longrightarrow> s' = s)"
proof -
  have run: "goose VersionTable migrations (w, s) = (err, w', s')" using assms(4) by (simp add: Up_on_def)
  consider (unstarted) "s' = s" "err \<noteq> None"
    | (some) did rest where "outstanding VersionTable migrations s = did @ rest"
        "apply_each VersionTable did (with_table VersionTable s) = Inr s'" "err = None \<longleftrightarrow> rest = []"
    using assms(1) [unfolded goose_contract_def, rule_format, OF run] by blast
  then show ?thesis
  proof cases
    case unstarted
    then show ?thesis using upgrade_refl [OF assms(2)] assms(3) by auto
  next
    case some
    have "s' = s" if "history s VersionTable = Some [0, 1, 2]"
    proof -
      have "outstanding VersionTable migrations s = []" "with_table VersionTable s = s"
        using that by (simp_all add: outstanding_def applied_def with_table_def migrations_def init_migration_def spaces_migration_def)
      then show ?thesis using some by simp
    qed
    then show ?thesis using goose_leaves [OF assms(2,3) some(1,2)] some(3) by blast
  qed
qed

lemma Up_database:
  assumes "goose_contract goose" "schema_ok s" "history_fits s" "Up_on goose (w, s) = (err, w', s')"
  shows "pg_of s' = pg_of s" "err = None \<Longrightarrow> db_ok (pg_of s)"
proof -
  have up: "keeps_rows s s'" "err = None \<Longrightarrow> clean s" using Up_keeps [OF assms] by (auto simp: upgrade_def)
  show "pg_of s' = pg_of s" using up(1) by (rule keeps_pg)
  show "err = None \<Longrightarrow> db_ok (pg_of s)" using up(2) assms(2) db_ok_pg_of by blast
qed

text \<open>
  C19. However old the schema, \<open>Up\<close> ends in the one this build expects. Take any database this
  project has had - none of its tables yet, those of the first migration, the present ones,
  with a history in the version table or without one, because the table was renamed - and
  any run of \<open>goose\<close>. The run keeps every note and chunk with its fields, the registry,
  the vector tables and the histories of other programs, and what the server enforces. If
  it reports no error, the schema is the current one, the database read off it is
  consistent and the same as before, and both versions are recorded; on the current schema
  a replay changes nothing but the history. A row with a missing text, hash, note, index or
  chunk text, or two chunks with one key, makes every run fail; without one, a run that
  nothing else disturbs succeeds.
\<close>

theorem Up_ends_in_the_schema:
  assumes "goose_contract goose" "schema_ok s" "history_fits s" "Up_on goose (w, s) = (err, w', s')"
  shows "schema_ok s' \<and> history_fits s' \<and> keeps_rows s s' \<and> pg_of s' = pg_of s \<and>
    (err = None \<longrightarrow> current s' \<and> db_ok (pg_of s') \<and> history s' VersionTable = Some [0, 1, 2]) \<and>
    (current s \<longrightarrow> s' = s\<lparr>history := history s'\<rparr>) \<and>
    (\<not> clean s \<longrightarrow> err \<noteq> None) \<and> (clean s \<and> goose_undisturbed goose \<longrightarrow> err = None)"
proof -
  have quiet: "err = None" if "clean s" "goose_undisturbed goose"
    using that apply_all_clean [OF assms(2,3)] assms(4) unfolding goose_undisturbed_def Up_on_def by (metis fst_conv)
  then show ?thesis using Up_keeps [OF assms] Up_database [OF assms] by (auto simp: upgrade_def)
qed

section \<open>Down and up again\<close>

definition names_fit :: "schema \<Rightarrow> bool" where
  "names_fit s \<longleftrightarrow> list_all (\<lambda>r. if_some (\<lambda>x. rune_count x \<le> 255) (oName r)) (nRows (the_notes s))"

definition name_too_long :: "schema \<Rightarrow> bool" where
  "name_too_long s \<longleftrightarrow> \<not> list_all (\<lambda>r. if_some (\<lambda>x. to_varchar 255 x \<noteq> None) (oName r)) (nRows (the_notes s))"

text \<open>The schema after the second migration is taken back.\<close>

definition loosened :: "notes_table \<Rightarrow> chunks_table \<Rightarrow> old_note list \<Rightarrow> schema \<Rightarrow> schema" where
  "loosened t c rows s = s\<lparr>spacesT := None,
     notesT := Some (t\<lparr>nameCap := Some 255, textNull := True, hashNull := True, nRows := rows\<rparr>),
     chunksT := Some (c\<lparr>noteNull := True, indexNull := True, chunkTextNull := True, uniqueKey := False,
       embeddingCol := True, modelCol := True\<rparr>)\<rparr>"

lemma run_down:
  assumes "notesT s = Some t" "chunksT s = Some c"
  shows "run_ddl (mDown spaces_migration) s =
    (case those (map (cap_name (Some 255)) (nRows t)) of None \<Rightarrow> Inl StringTooLong | Some rows \<Rightarrow> Inr (loosened t c rows s))"
  using assms by (simp add: spaces_migration_def ddl_simps loosened_def split: option.splits)

lemma capped_None: "those (map (cap_name (Some n)) rows) = None \<longleftrightarrow>
    \<not> list_all (\<lambda>r. if_some (\<lambda>x. to_varchar n x \<noteq> None) (oName r)) rows"
  by (induction rows) (auto simp: cap_name_def split: option.splits)

lemma capped_fit: "list_all (\<lambda>r. if_some (\<lambda>x. rune_count x \<le> n) (oName r)) rows \<Longrightarrow> those (map (cap_name (Some n)) rows) = Some rows"
  by (induction rows) (auto simp: cap_name_def to_varchar_def split: option.splits)

lemma down_up:
  assumes "schema_ok s" "current s" "notesT s = Some t" "chunksT s = Some c"
  shows "run_ddl (mUp spaces_migration) (loosened t c (nRows t) s) = Inr (s\<lparr>spacesT := Some new_spaces\<rparr>)"
proof -
  let ?s = "loosened t c (nRows t) s"
  have keep: "notesT ?s = Some (t\<lparr>nameCap := Some 255, textNull := True, hashNull := True\<rparr>)"
    "chunksT ?s = Some (c\<lparr>noteNull := True, indexNull := True, chunkTextNull := True, uniqueKey := False,
       embeddingCol := True, modelCol := True\<rparr>)"
    by (simp_all add: loosened_def)
  have flags: "nameCap t = None" "\<not> textNull t" "\<not> hashNull t" "\<not> noteNull c" "\<not> indexNull c" "\<not> chunkTextNull c"
    "uniqueKey c" "\<not> embeddingCol c" "\<not> modelCol c" using assms(2-4) by (auto simp: current_def)
  have "clean s" using assms(1,2) by (rule current_clean)
  then have cl: "clean ?s" using assms(3,4)
    by (simp add: clean_def the_notes_def the_chunks_def keep clean_notes_def clean_chunks_def)
  have "map bare_chunk (cRows c) = cRows c"
    using assms(1,4) flags by (intro bare_same) (simp_all add: schema_ok_def the_chunks_def)
  then have "tightened ?s = s\<lparr>spacesT := Some new_spaces\<rparr>"
    using assms(3,4) flags by (simp add: tightened_def the_notes_def the_chunks_def the_spaces_def loosened_def)
  then show ?thesis using run_spaces [OF keep] cl by simp
qed

text \<open>
  C39. The way back, and forth again. On the current schema the \<open>Down\<close> of the second migration
  goes through exactly if every title can be cut to 255 characters by dropping spaces; one
  long title stops it. If all titles are short, \<open>Up\<close> afterwards gives the same schema and rows
  again, except that the registry of the spaces is empty: the vector tables are still there,
  but nobody knows them. And while one of them is, the \<open>Down\<close> of the first migration fails.
\<close>

theorem Down_then_Up:
  assumes "schema_ok s" "current s"
  shows "(names_fit s \<longrightarrow> (\<exists>s1. run_ddl (mDown spaces_migration) s = Inr s1 \<and>
      run_ddl (mUp spaces_migration) s1 = Inr (s\<lparr>spacesT := Some new_spaces\<rparr>))) \<and>
    (isl (run_ddl (mDown spaces_migration) s) \<longleftrightarrow> name_too_long s) \<and>
    (\<forall>s1. run_ddl (mDown spaces_migration) s = Inr s1 \<and> vectorsT s \<noteq> [] \<longrightarrow>
       run_ddl (mDown init_migration) s1 = Inl DependentObjects)"
proof -
  obtain t c where tc: "notesT s = Some t" "chunksT s = Some c" using assms(2) by (auto simp: current_def)
  note down = run_down [OF tc]
  have "\<exists>s1. run_ddl (mDown spaces_migration) s = Inr s1 \<and> run_ddl (mUp spaces_migration) s1 = Inr (s\<lparr>spacesT := Some new_spaces\<rparr>)"
    if "names_fit s"
    using that down capped_fit [of 255 "nRows t"] down_up [OF assms tc] tc by (simp add: names_fit_def the_notes_def)
  moreover have "isl (run_ddl (mDown spaces_migration) s) \<longleftrightarrow> name_too_long s"
    unfolding down name_too_long_def the_notes_def tc(1) option.case
    using capped_None [of 255 "nRows t"] by (cases "those (map (cap_name (Some 255)) (nRows t))") simp_all
  moreover have "run_ddl (mDown init_migration) s1 = Inl DependentObjects"
    if "run_ddl (mDown spaces_migration) s = Inr s1" "vectorsT s \<noteq> []" for s1
    using that down by (auto simp: loosened_def init_migration_def require_def split: option.splits)
  ultimately show ?thesis by blast
qed

section \<open>Concrete runs\<close>

text \<open>A \<open>goose\<close> on a server that answers everything.\<close>

fun apply_until :: "gostring \<Rightarrow> migration list \<Rightarrow> schema \<Rightarrow> goerr option \<times> schema" where
  "apply_until t [] s = (None, s)"
| "apply_until t (m # ms) s =
     (case run_ddl (mUp m) s of
        Inl e \<Rightarrow> (Some (Plain ''migration failed''), s)
      | Inr s \<Rightarrow> apply_until t ms (recorded t (mVersion m) s))"

definition plain_goose :: "'w goose" where
  "plain_goose t ms = (\<lambda>(w, s). (case apply_until t (outstanding t ms s) (with_table t s) of (err, s') \<Rightarrow> (err, w, s')))"

lemma apply_until_prefix:
  "apply_until t ms s = (err, s') \<Longrightarrow> \<exists>did rest. ms = did @ rest \<and> apply_each t did s = Inr s' \<and> (err = None \<longleftrightarrow> rest = [])"
proof (induction ms arbitrary: s)
  case (Cons m ms)
  show ?case
  proof (cases "run_ddl (mUp m) s")
    case (Inl e)
    then show ?thesis using Cons.prems by (intro exI [of _ "[]"] exI [of _ "m # ms"]) auto
  next
    case (Inr s1)
    then have "apply_until t ms (recorded t (mVersion m) s1) = (err, s')" using Cons.prems by simp
    from Cons.IH [OF this] obtain did rest where "ms = did @ rest"
      "apply_each t did (recorded t (mVersion m) s1) = Inr s'" "err = None \<longleftrightarrow> rest = []" by blast
    then show ?thesis using Inr by (intro exI [of _ "m # did"] exI [of _ rest]) simp
  qed
qed simp

lemma apply_until_all: "\<not> isl (apply_each t ms s) \<Longrightarrow> fst (apply_until t ms s) = None"
  by (induction t ms s rule: apply_each.induct) (auto split: sum.splits)

lemma plain_goose_ok: "goose_contract plain_goose" "goose_undisturbed plain_goose"
proof -
  show "goose_contract plain_goose"
    unfolding goose_contract_def using apply_until_prefix
    by (fastforce simp: plain_goose_def split: prod.splits)
  show "goose_undisturbed plain_goose"
    using apply_until_all by (auto simp: goose_undisturbed_def plain_goose_def split: prod.splits) (metis fst_conv)
qed

definition host_schema :: schema where
  "host_schema = \<lparr>vectorExt = False, notesT = None, chunksT = None, spacesT = None, vectorsT = [],
     history = [''journal_db_version'' \<mapsto> [0, 1, 2, 3]]\<rparr>"

text \<open>The first migration's schema with a note and a chunk that still holds its old vector.\<close>

definition old_schema :: "gostring option \<Rightarrow> schema" where
  "old_schema txt = created (host_schema\<lparr>notesT := Some (new_notes\<lparr>nRows := [\<lparr>oId = 1, oPath = ''a.md'', oName = None,
       oText = txt, oHash = Some ''h''\<rparr>], nSeq := 2\<rparr>),
     chunksT := Some (new_chunks\<lparr>cRows := [\<lparr>oCid = 1, oNote = Some 1, oIndex = Some 0, oChunkText = Some ''x'',
       oEmbedding = Some [5], oModel = Some ''m''\<rparr>], cSeq := 2\<rparr>)\<rparr>)"

lemma old_schema_ok: "schema_ok (old_schema txt)" "history_fits (old_schema txt)" "clean (old_schema txt) \<longleftrightarrow> txt \<noteq> None"
  by (simp_all add: old_schema_def host_schema_def created_def schema_ok_def the_notes_def the_chunks_def the_spaces_def new_notes_def
      new_chunks_def new_spaces_def notes_enforced_def chunks_enforced_def pg_of_def tables_ok_def spaces_ok_def history_fits_def
      clean_def clean_notes_def clean_chunks_def VersionTable_def chunk_keys_def)

lemma Up_ends_in_the_schema_witness:
  "\<exists>s'. Up_on plain_goose ((), old_schema (Some ''x'')) = (None, (), s') \<and> current s' \<and> db_ok (pg_of s') \<and>
     map ctext (chunkRows (pg_of s')) = [''x''] \<and> history s' ''journal_db_version'' = Some [0, 1, 2, 3] \<and>
     fst (Up_on plain_goose ((), old_schema None)) \<noteq> None"
proof -
  obtain err s' where run: "Up_on plain_goose ((), old_schema (Some ''x'')) = (err, (), s')"
    by (metis (full_types) old.unit.exhaust prod.exhaust)
  obtain err2 s2 where bad: "Up_on plain_goose ((), old_schema None) = (err2, (), s2)"
    by (metis (full_types) old.unit.exhaust prod.exhaust)
  note up = Up_ends_in_the_schema [OF plain_goose_ok(1) old_schema_ok(1,2)]
  have none: "err = None" using up [OF run] old_schema_ok(3) [of "Some ''x''"] by (simp add: plain_goose_ok(2))
  have some: "err2 \<noteq> None" using up [OF bad] old_schema_ok(3) [of None] by simp
  have "map ctext (chunkRows (pg_of (old_schema (Some ''x'')))) = [''x'']" by code_simp
  moreover have "history (old_schema (Some ''x'')) ''journal_db_version'' = Some [0, 1, 2, 3]" by code_simp
  moreover have "history s' ''journal_db_version'' = history (old_schema (Some ''x'')) ''journal_db_version''"
    using up [OF run] by (simp add: keeps_rows_def VersionTable_def)
  moreover have "current s' \<and> db_ok (pg_of s') \<and> pg_of s' = pg_of (old_schema (Some ''x''))" using up [OF run] none by blast
  ultimately show ?thesis unfolding run bad none using some by auto
qed

definition used_schema :: "gostring \<Rightarrow> schema" where
  "used_schema name = tightened (old_schema (Some ''x''))\<lparr>
     notesT := Some ((the_notes (tightened (old_schema (Some ''x''))))\<lparr>nRows := [\<lparr>oId = 1, oPath = ''a.md'', oName = Some name,
       oText = Some ''x'', oHash = Some ''h''\<rparr>]\<rparr>),
     spacesT := Some \<lparr>gRows = [\<lparr>sid = 1, sspace = \<lparr>spaceProvider = ''fake'', spaceModel = ''m'', Dim = 1\<rparr>, stable = ''emb'', screated = 0\<rparr>],
       gSeq = 2\<rparr>, vectorsT := [\<lparr>tname = ''emb'', tdim = 1, trows = [(1, [5])]\<rparr>]\<rparr>"

lemma used_schema_ok: "schema_ok (used_schema name)" "current (used_schema name)"
  by (simp_all add: used_schema_def old_schema_def host_schema_def created_def tightened_def schema_ok_def the_notes_def the_chunks_def
      the_spaces_def new_notes_def new_chunks_def new_spaces_def notes_enforced_def chunks_enforced_def pg_of_def tables_ok_def
      spaces_ok_def rows_ok_def current_def chunk_keys_def bare_chunk_def chunk_of_def)

lemma Down_then_Up_witness:
  "isl (run_ddl (mDown spaces_migration) (used_schema (replicate 256 CHR ''x''))) \<and>
   (\<exists>s1. run_ddl (mDown spaces_migration) (used_schema ''t'') = Inr s1 \<and>
      run_ddl (mUp spaces_migration) s1 = Inr ((used_schema ''t'')\<lparr>spacesT := Some new_spaces\<rparr>) \<and>
      run_ddl (mDown init_migration) s1 = Inl DependentObjects)"
proof -
  have "name_too_long (used_schema (replicate 256 CHR ''x''))" "names_fit (used_schema ''t'')" "vectorsT (used_schema ''t'') \<noteq> []"
    by (code_simp, code_simp, simp add: used_schema_def)
  then show ?thesis
    using Down_then_Up [OF used_schema_ok, of "replicate 256 CHR ''x''"] Down_then_Up [OF used_schema_ok, of "''t''"] by blast
qed

text \<open>
  Why the version table is the program's own: in a table another program writes to, the
  versions of that program stand for these migrations, nothing is run and no error says so.
\<close>

lemma shared_table_skips:
  "plain_goose ''journal_db_version'' migrations (w, host_schema) = (None, w, host_schema) \<and> notesT host_schema = None"
  by (simp add: plain_goose_def outstanding_def applied_def with_table_def host_schema_def migrations_def init_migration_def
      spaces_migration_def)

end
