(* ===== verification/Upgrade.thy ===== *)
theory Upgrade
  imports Migrate
begin

text \<open>
  Several programs that start at once: \<open>Up\<close> of \<open>internal/migrate/migrate.go\<close> as steps of its
  callers, which share a database, an advisory lock and perhaps a connection pool. A caller
  takes a connection from its pool, takes the lock on it, lets \<open>goose\<close> work on a second
  connection of the same pool, and gives everything back; an unlock that fails costs the
  connection, and the server frees the lock with it. What \<open>goose\<close> does is known only if the
  schema it started from is still there when it finishes.
\<close>

section \<open>The callers of \<open>Up\<close>\<close>

datatype up_phase =
    Arriving
  | Connected
  | Holding
  | Running schema
  | Upgraded "goerr option"

record upgrading =
  phases :: "up_phase list"
  lockedBy :: "nat option"
  freeConns :: "nat \<Rightarrow> nat"
  onDisk :: schema

definition take_conn :: "nat \<Rightarrow> upgrading \<Rightarrow> upgrading" where
  "take_conn p u = u\<lparr>freeConns := (freeConns u)(p := freeConns u p - 1)\<rparr>"

definition give_conns :: "nat \<Rightarrow> nat \<Rightarrow> upgrading \<Rightarrow> upgrading" where
  "give_conns p n u = u\<lparr>freeConns := (freeConns u)(p := freeConns u p + n)\<rparr>"

definition goto :: "nat \<Rightarrow> up_phase \<Rightarrow> upgrading \<Rightarrow> upgrading" where
  "goto i ph u = u\<lparr>phases := (phases u)[i := ph]\<rparr>"

text \<open>
  \<open>pool i\<close> is the pool of caller \<open>i\<close>; the rules that fail a call to the pool or the server need
  \<open>may_fail\<close>, which a context without an end and a server that answers do not give.
\<close>

inductive up_step :: "'w goose \<Rightarrow> (nat \<Rightarrow> nat) \<Rightarrow> bool \<Rightarrow> upgrading \<Rightarrow> upgrading \<Rightarrow> bool" for goose pool may_fail where
  acquire: "i < length (phases u) \<Longrightarrow> phases u ! i = Arriving \<Longrightarrow> 0 < freeConns u (pool i) \<Longrightarrow>
    up_step goose pool may_fail u (take_conn (pool i) (goto i Connected u))"
| no_connection: "may_fail \<Longrightarrow> i < length (phases u) \<Longrightarrow> phases u ! i = Arriving \<Longrightarrow>
    up_step goose pool may_fail u (goto i (Upgraded (Some e)) u)"
| take_lock: "i < length (phases u) \<Longrightarrow> phases u ! i = Connected \<Longrightarrow> lockedBy u = None \<Longrightarrow>
    up_step goose pool may_fail u ((goto i Holding u)\<lparr>lockedBy := Some i\<rparr>)"
| no_lock: "may_fail \<Longrightarrow> i < length (phases u) \<Longrightarrow> phases u ! i = Connected \<Longrightarrow>
    up_step goose pool may_fail u (give_conns (pool i) 1 (goto i (Upgraded (Some e)) u))"
| start_goose: "i < length (phases u) \<Longrightarrow> phases u ! i = Holding \<Longrightarrow> 0 < freeConns u (pool i) \<Longrightarrow>
    up_step goose pool may_fail u (take_conn (pool i) (goto i (Running (onDisk u)) u))"
| no_goose: "may_fail \<Longrightarrow> i < length (phases u) \<Longrightarrow> phases u ! i = Holding \<Longrightarrow>
    up_step goose pool may_fail u (give_conns (pool i) 1 ((goto i (Upgraded (Some e)) u)\<lparr>lockedBy := None\<rparr>))"
| finish: "i < length (phases u) \<Longrightarrow> phases u ! i = Running s0 \<Longrightarrow>
    (onDisk u = s0 \<Longrightarrow> \<exists>w w'. Up_on goose (w, s0) = (err, w', s')) \<Longrightarrow>
    up_step goose pool may_fail u
      (give_conns (pool i) 2 ((goto i (Upgraded err) u)\<lparr>lockedBy := None, onDisk := s'\<rparr>))"

inductive up_run :: "'w goose \<Rightarrow> (nat \<Rightarrow> nat) \<Rightarrow> bool \<Rightarrow> upgrading \<Rightarrow> upgrading \<Rightarrow> bool" for goose pool may_fail where
  done_up: "up_run goose pool may_fail u u"
| next_up: "up_run goose pool may_fail u u1 \<Longrightarrow> up_step goose pool may_fail u1 u2 \<Longrightarrow> up_run goose pool may_fail u u2"

inductive_simps up_step_iff: "up_step goose pool may_fail u u'"

definition all_arriving :: "nat \<Rightarrow> (nat \<Rightarrow> nat) \<Rightarrow> schema \<Rightarrow> upgrading" where
  "all_arriving n conns s = \<lparr>phases = replicate n Arriving, lockedBy = None, freeConns = conns, onDisk = s\<rparr>"

lemmas moves = goto_def take_conn_def give_conns_def

section \<open>The lock does its work\<close>

fun in_lock :: "up_phase \<Rightarrow> bool" where
  "in_lock Holding \<longleftrightarrow> True"
| "in_lock (Running s) \<longleftrightarrow> True"
| "in_lock _ \<longleftrightarrow> False"

text \<open>
  The lock is held by the one caller that is between taking and giving it; what it works on
  is what is on disk, an upgrade of the first schema; and a success means the current one.
\<close>

definition locked_ok :: "upgrading \<Rightarrow> bool" where
  "locked_ok u \<longleftrightarrow>
     (\<forall>i<length (phases u). in_lock (phases u ! i) \<longleftrightarrow> lockedBy u = Some i) \<and>
     (\<forall>i. lockedBy u = Some i \<longrightarrow> i < length (phases u)) \<and>
     (\<forall>i<length (phases u). \<forall>s. phases u ! i = Running s \<longrightarrow> s = onDisk u)"

definition disk_ok :: "schema \<Rightarrow> upgrading \<Rightarrow> bool" where
  "disk_ok s u \<longleftrightarrow> upgrade s (onDisk u) \<and> history_fits (onDisk u) \<and>
     (Upgraded None \<in> set (phases u) \<longrightarrow> current (onDisk u) \<and> history (onDisk u) VersionTable = Some [0, 1, 2])"

lemma set_goto: "ph' \<in> set ((phases u)[i := ph]) \<Longrightarrow> ph' = ph \<or> ph' \<in> set (phases u)"
  using set_update_subset_insert by fastforce

lemma step_locked:
  assumes "up_step goose pool may_fail u u'" "locked_ok u"
  shows "locked_ok u'"
  using assms
proof (cases rule: up_step.cases)
  case (finish i s0 err s')
  have "\<not> in_lock (phases u ! j)" if "j < length (phases u)" "j \<noteq> i" for j
    using assms(2) finish(2,3) that unfolding locked_ok_def by (metis in_lock.simps(2) option.inject)
  then show ?thesis using finish unfolding locked_ok_def by (auto simp: moves nth_list_update) (metis in_lock.simps(2))+
qed (auto simp: locked_ok_def moves nth_list_update)

lemma step_disk:
  assumes "up_step goose pool may_fail u u'" "locked_ok u" "disk_ok s u" "goose_contract goose"
  shows "disk_ok s u' \<and> (history (onDisk u) VersionTable = Some [0, 1, 2] \<longrightarrow> onDisk u' = onDisk u)"
  using assms(1)
proof (cases rule: up_step.cases)
  case (finish i s0 err s')
  have s0: "s0 = onDisk u" using assms(2) finish(2,3) unfolding locked_ok_def by blast
  then obtain w w' where run: "Up_on goose (w, onDisk u) = (err, w', s')" using finish(4) by blast
  have ok: "schema_ok (onDisk u)" "history_fits (onDisk u)" using assms(3) by (simp_all add: disk_ok_def upgrade_def)
  note left = Up_keeps [OF assms(4) ok run]
  have "upgrade s s'" using assms(3) left upgrade_trans unfolding disk_ok_def by blast
  moreover have "current s' \<and> history s' VersionTable = Some [0, 1, 2]" if "Upgraded None \<in> set (phases u')"
    using that left assms(3) set_goto [of "Upgraded None" u i "Upgraded err"] finish(1)
    by (auto simp: moves disk_ok_def)
  ultimately show ?thesis using left finish(1) by (simp add: disk_ok_def moves)
qed (use assms(3) set_goto [of "Upgraded None" u] in \<open>fastforce simp: disk_ok_def moves\<close>)+

lemma run_safe:
  assumes "up_run goose pool may_fail u u'" "locked_ok u" "disk_ok s u" "goose_contract goose"
  shows "locked_ok u' \<and> disk_ok s u'"
  using assms step_locked step_disk by (induction rule: up_run.induct) blast+

lemma start_ok: "schema_ok s \<Longrightarrow> history_fits s \<Longrightarrow> locked_ok (all_arriving n conns s) \<and> disk_ok s (all_arriving n conns s)"
  by (auto simp: locked_ok_def disk_ok_def all_arriving_def upgrade_refl)

text \<open>
  C20. Programs may start together. Let any number of callers run \<open>Up\<close> on one database in any
  interleaving, and let calls to pools, the lock and \<open>goose\<close> fail as they like. Then at every
  moment at most one of them is between taking and giving the lock, the one that holds it,
  and the schema it works on is what is on disk; the disk is an upgrade of the first schema
  with every row kept and each version recorded once. As soon as one caller has succeeded
  the schema is the current one, and whatever the others still do leaves it as it is.
\<close>

theorem upgrades_exclude_each_other:
  assumes "goose_contract goose" "schema_ok s" "history_fits s" "up_run goose pool may_fail (all_arriving n conns s) u"
  shows "(\<forall>i<length (phases u). in_lock (phases u ! i) \<longleftrightarrow> lockedBy u = Some i) \<and>
    (\<forall>i<length (phases u). \<forall>s0. phases u ! i = Running s0 \<longrightarrow> s0 = onDisk u) \<and>
    schema_ok (onDisk u) \<and> keeps_rows s (onDisk u) \<and> distinct (applied VersionTable (onDisk u)) \<and>
    (Upgraded None \<in> set (phases u) \<longrightarrow> current (onDisk u) \<and>
       (\<forall>u'. up_step goose pool may_fail u u' \<longrightarrow> onDisk u' = onDisk u))"
proof -
  have ok: "locked_ok u" "disk_ok s u" using run_safe [OF assms(4) _ _ assms(1)] start_ok [OF assms(2,3)] by blast+
  have "distinct (applied VersionTable (onDisk u))"
    using ok(2) by (auto simp: disk_ok_def history_fits_def applied_def split: option.splits)
  then show ?thesis using ok step_disk [OF _ ok assms(1)] unfolding locked_ok_def disk_ok_def upgrade_def by blast
qed

section \<open>Whether they all get through\<close>

fun conns_of :: "up_phase \<Rightarrow> nat" where
  "conns_of Connected = 1"
| "conns_of Holding = 1"
| "conns_of (Running s) = 2"
| "conns_of _ = 0"

fun rank :: "up_phase \<Rightarrow> nat" where
  "rank Arriving = 4"
| "rank Connected = 3"
| "rank Holding = 2"
| "rank (Running s) = 1"
| "rank (Upgraded err) = 0"

definition to_go :: "upgrading \<Rightarrow> nat" where
  "to_go u = sum_list (map rank (phases u))"

lemma to_go_goto: "i < length (phases u) \<Longrightarrow> to_go (goto i ph u) + rank (phases u ! i) = to_go u + rank ph"
proof -
  assume i: "i < length (phases u)"
  then have "rank (phases u ! i) \<le> sum_list (map rank (phases u))"
    by (metis elem_le_sum_list length_map nth_map)
  then show ?thesis using i by (simp add: to_go_def goto_def map_update sum_list_update)
qed

lemma to_go_same [simp]:
  "to_go (take_conn p u) = to_go u" "to_go (give_conns p n u) = to_go u" "to_go (u\<lparr>lockedBy := l\<rparr>) = to_go u"
  "to_go (u\<lparr>onDisk := s\<rparr>) = to_go u"
  by (simp_all add: to_go_def take_conn_def give_conns_def)

lemma to_go_less: "i < length (phases u) \<Longrightarrow> rank ph < rank (phases u ! i) \<Longrightarrow> to_go (goto i ph u) < to_go u"
  using to_go_goto [of i u ph] by linarith

lemma step_to_go: "up_step goose pool may_fail u u' \<Longrightarrow> to_go u' < to_go u"
  by (induction rule: up_step.induct) (simp_all add: to_go_less)

text \<open>Every pool serves one caller.\<close>

definition own_pools :: "(nat \<Rightarrow> nat) \<Rightarrow> (nat \<Rightarrow> nat) \<Rightarrow> upgrading \<Rightarrow> bool" where
  "own_pools pool conns u \<longleftrightarrow> inj_on pool {..<length (phases u)} \<and>
     (\<forall>i<length (phases u). 2 \<le> conns (pool i) \<and> freeConns u (pool i) + conns_of (phases u ! i) = conns (pool i))"

lemma own_pools_change:
  assumes "own_pools pool conns u" "i < length (phases u)" "phases u' = (phases u)[i := ph]"
    "freeConns u' = (freeConns u)(pool i := x)" "x + conns_of ph = conns (pool i)"
  shows "own_pools pool conns u'"
proof -
  have other: "\<forall>j<length (phases u). j \<noteq> i \<longrightarrow> pool j \<noteq> pool i"
    using assms(1,2) unfolding own_pools_def inj_on_def by blast
  have "freeConns u' (pool j) + conns_of (phases u' ! j) = conns (pool j)" if "j < length (phases u)" for j
    using assms other that unfolding own_pools_def by (cases "j = i") simp_all
  then show ?thesis using assms unfolding own_pools_def by simp
qed

lemma step_own_pools:
  assumes "up_step goose pool may_fail u u'" "own_pools pool conns u"
  shows "own_pools pool conns u'"
proof -
  have count: "freeConns u (pool i) + conns_of (phases u ! i) = conns (pool i)" if "i < length (phases u)" for i
    using assms(2) that by (simp add: own_pools_def)
  from assms(1) show ?thesis
  proof (cases rule: up_step.cases)
    case (acquire i)
    then show ?thesis using count [of i]
      by (intro own_pools_change [OF assms(2), of i _ Connected "freeConns u (pool i) - 1"]) (simp_all add: moves)
  next
    case (no_connection i e)
    then show ?thesis using count [of i]
      by (intro own_pools_change [OF assms(2), of i _ "Upgraded (Some e)" "freeConns u (pool i)"]) (simp_all add: moves fun_upd_idem)
  next
    case (take_lock i)
    then show ?thesis using count [of i]
      by (intro own_pools_change [OF assms(2), of i _ Holding "freeConns u (pool i)"]) (simp_all add: moves fun_upd_idem)
  next
    case (no_lock i e)
    then show ?thesis using count [of i]
      by (intro own_pools_change [OF assms(2), of i _ "Upgraded (Some e)" "freeConns u (pool i) + 1"]) (simp_all add: moves)
  next
    case (start_goose i)
    then show ?thesis using count [of i]
      by (intro own_pools_change [OF assms(2), of i _ "Running (onDisk u)" "freeConns u (pool i) - 1"]) (simp_all add: moves)
  next
    case (no_goose i e)
    then show ?thesis using count [of i]
      by (intro own_pools_change [OF assms(2), of i _ "Upgraded (Some e)" "freeConns u (pool i) + 1"]) (simp_all add: moves)
  next
    case (finish i s0 err s')
    then show ?thesis using count [of i]
      by (intro own_pools_change [OF assms(2), of i _ "Upgraded err" "freeConns u (pool i) + 2"]) (simp_all add: moves)
  qed
qed

lemma own_pools_progress:
  assumes "locked_ok u" "own_pools pool conns u" "i < length (phases u)" "\<And>err. phases u ! i \<noteq> Upgraded err"
  shows "\<exists>u'. up_step goose pool False u u'"
proof (cases "lockedBy u")
  case (Some j)
  then have j: "j < length (phases u)" "in_lock (phases u ! j)" using assms(1) by (simp_all add: locked_ok_def)
  then consider "phases u ! j = Holding" | s0 where "phases u ! j = Running s0" by (cases "phases u ! j") auto
  then show ?thesis
  proof cases
    case 1
    then have "0 < freeConns u (pool j)" using assms(2) j(1) by (fastforce simp: own_pools_def)
    then show ?thesis using start_goose [OF j(1) 1] by blast
  next
    case 2
    obtain err w' s' where "Up_on goose (undefined, s0) = (err, w', s')" by (metis prod.exhaust)
    then show ?thesis using finish [of j u s0 goose err s' pool False, OF j(1) 2] by blast
  qed
next
  case None
  then have "\<not> in_lock (phases u ! i)" using assms(1,3) by (simp add: locked_ok_def)
  then consider "phases u ! i = Arriving" | "phases u ! i = Connected" using assms(4) by (cases "phases u ! i") auto
  then show ?thesis
  proof cases
    case 1
    then have "0 < freeConns u (pool i)" using assms(2,3) by (fastforce simp: own_pools_def)
    then show ?thesis using acquire [OF assms(3) 1] by blast
  next
    case 2
    then show ?thesis using take_lock [OF assms(3) 2 None] by blast
  qed
qed

lemma run_own_pools:
  "up_run goose pool may_fail u u' \<Longrightarrow> own_pools pool conns u \<Longrightarrow> own_pools pool conns u'"
  by (induction rule: up_run.induct) (auto intro: step_own_pools)

lemma run_locked: "up_run goose pool may_fail u u' \<Longrightarrow> locked_ok u \<Longrightarrow> locked_ok u'"
  by (induction rule: up_run.induct) (auto intro: step_locked)

lemma run_length: "up_run goose pool may_fail u u' \<Longrightarrow> length (phases u') = length (phases u)"
  by (induction rule: up_run.induct) (auto simp: up_step_iff moves)

text \<open>
  Callers with pools of their own all get through. If no two callers share a pool and every
  pool has two connections, then as long as calls are answered a caller that is not done
  never leaves all of them waiting for one another: some caller can go on, every step brings
  the end nearer, and there are at most four steps for each caller.
\<close>

theorem own_pools_get_through:
  assumes "inj_on pool {..<n}" "\<And>i. i < n \<Longrightarrow> 2 \<le> conns (pool i)"
    "up_run goose pool False (all_arriving n conns s) u"
  shows "((\<exists>i<length (phases u). \<forall>err. phases u ! i \<noteq> Upgraded err) \<longrightarrow> (\<exists>u'. up_step goose pool False u u')) \<and>
    (\<forall>u'. up_step goose pool False u u' \<longrightarrow> to_go u' < to_go u) \<and> to_go (all_arriving n conns s) = 4 * n"
proof -
  have start: "own_pools pool conns (all_arriving n conns s)" "locked_ok (all_arriving n conns s)"
    using assms(1,2) by (auto simp: own_pools_def all_arriving_def locked_ok_def)
  have "own_pools pool conns u" "locked_ok u"
    using run_own_pools [OF assms(3) start(1)] run_locked [OF assms(3) start(2)] .
  then have "(\<exists>i<length (phases u). \<forall>err. phases u ! i \<noteq> Upgraded err) \<longrightarrow> (\<exists>u'. up_step goose pool False u u')"
    using own_pools_progress by blast
  moreover have "to_go (all_arriving n conns s) = 4 * n" by (simp add: to_go_def all_arriving_def sum_list_replicate)
  ultimately show ?thesis using step_to_go by blast
qed

text \<open>Callers that share one pool.\<close>

definition hung :: "'w goose \<Rightarrow> (nat \<Rightarrow> nat) \<Rightarrow> upgrading \<Rightarrow> bool" where
  "hung goose pool u \<longleftrightarrow> (\<nexists>u'. up_step goose pool False u u') \<and>
     (\<forall>i<length (phases u). \<forall>err. phases u ! i \<noteq> Upgraded err)"

lemma replicate_next: "(replicate k a @ b # bs)[k := a] = replicate (Suc k) a @ bs"
  by (induction k) simp_all

lemma all_connect:
  "k \<le> n \<Longrightarrow> up_run goose (\<lambda>_. 0) False (all_arriving n (\<lambda>_. n) s)
     \<lparr>phases = replicate k Connected @ replicate (n - k) Arriving, lockedBy = None,
      freeConns = (\<lambda>_. n)(0 := n - k), onDisk = s\<rparr>"
proof (induction k)
  case 0
  then show ?case using done_up [of goose "\<lambda>_. 0" False] by (simp add: all_arriving_def fun_upd_idem)
next
  case (Suc k)
  let ?u = "\<lparr>phases = replicate k Connected @ replicate (n - k) Arriving, lockedBy = None,
      freeConns = (\<lambda>_. n)(0 := n - k), onDisk = s\<rparr>"
  have rest: "replicate (n - k) Arriving = Arriving # replicate (n - Suc k) Arriving"
    using Suc.prems by (metis Suc_diff_Suc Suc_le_lessD replicate_Suc)
  have "up_step goose (\<lambda>_. 0) False ?u (take_conn 0 (goto k Connected ?u))"
    using Suc.prems by (intro acquire) (simp_all add: rest nth_append)
  moreover have "take_conn 0 (goto k Connected ?u) = \<lparr>phases = replicate (Suc k) Connected @ replicate (n - Suc k) Arriving,
      lockedBy = None, freeConns = (\<lambda>_. n)(0 := n - Suc k), onDisk = s\<rparr>"
    using replicate_next [of k Connected Arriving] by (simp add: moves rest)
  ultimately show ?case using Suc next_up by (metis Suc_leD)
qed

text \<open>
  Callers that share a pool can wait for ever. With as many callers as the pool has
  connections - one caller and a pool of one connection included - each can hold the
  connection for its lock while the one that has the lock needs another for \<open>goose\<close>: none of
  them can take a step, and none of them is done.
\<close>

theorem shared_pool_hangs:
  assumes "0 < n"
  shows "\<exists>u. up_run goose (\<lambda>_. 0) False (all_arriving n (\<lambda>_. n) s) u \<and> hung goose (\<lambda>_. 0) u \<and> onDisk u = s"
proof -
  let ?u = "\<lparr>phases = replicate n Connected, lockedBy = None, freeConns = (\<lambda>_. n)(0 := 0), onDisk = s\<rparr>"
  let ?v = "(goto 0 Holding ?u)\<lparr>lockedBy := Some 0\<rparr>"
  have "up_run goose (\<lambda>_. 0) False (all_arriving n (\<lambda>_. n) s) ?u" using all_connect [of n n] by simp
  moreover have "up_step goose (\<lambda>_. 0) False ?u ?v" using assms by (intro take_lock) simp_all
  ultimately have run: "up_run goose (\<lambda>_. 0) False (all_arriving n (\<lambda>_. n) s) ?v" by (rule next_up)
  have "phases ?v ! i = (if i = 0 then Holding else Connected)" if "i < n" for i
    using that by (simp add: goto_def nth_list_update)
  then have "hung goose (\<lambda>_. 0) ?v"
    unfolding hung_def up_step_iff by (auto simp: goto_def nth_list_update)
  with run show ?thesis by (intro exI [of _ ?v]) (simp add: goto_def)
qed

section \<open>Concrete runs\<close>

text \<open>The step of caller \<open>i\<close> when nothing fails, and a schedule of such steps.\<close>

definition caller_turn :: "unit goose \<Rightarrow> (nat \<Rightarrow> nat) \<Rightarrow> nat \<Rightarrow> upgrading \<Rightarrow> upgrading option" where
  "caller_turn goose pool i u =
     (case phases u ! i of
        Arriving \<Rightarrow> if 0 < freeConns u (pool i) then Some (take_conn (pool i) (goto i Connected u)) else None
      | Connected \<Rightarrow> if lockedBy u = None then Some ((goto i Holding u)\<lparr>lockedBy := Some i\<rparr>) else None
      | Holding \<Rightarrow> if 0 < freeConns u (pool i) then Some (take_conn (pool i) (goto i (Running (onDisk u)) u)) else None
      | Running s0 \<Rightarrow>
          (case Up_on goose ((), s0) of
             (err, _, s') \<Rightarrow> Some (give_conns (pool i) 2 ((goto i (Upgraded err) u)\<lparr>lockedBy := None, onDisk := s'\<rparr>)))
      | Upgraded err \<Rightarrow> None)"

fun caller_turns :: "unit goose \<Rightarrow> (nat \<Rightarrow> nat) \<Rightarrow> nat list \<Rightarrow> upgrading \<Rightarrow> upgrading option" where
  "caller_turns goose pool [] u = Some u"
| "caller_turns goose pool (i # is) u =
     (if i < length (phases u) then
        (case caller_turn goose pool i u of None \<Rightarrow> None | Some u' \<Rightarrow> caller_turns goose pool is u')
      else None)"

lemma caller_turn_step: "i < length (phases u) \<Longrightarrow> caller_turn goose pool i u = Some u' \<Longrightarrow> up_step goose pool False u u'"
  by (auto simp: caller_turn_def intro: up_step.intros split: up_phase.splits if_splits prod.splits)

lemma caller_turns_run: "up_run goose pool False u0 u \<Longrightarrow> caller_turns goose pool is u = Some u' \<Longrightarrow> up_run goose pool False u0 u'"
proof (induction "is" arbitrary: u)
  case (Cons i "is")
  then obtain u1 where u1: "i < length (phases u)" "caller_turn goose pool i u = Some u1" "caller_turns goose pool is u1 = Some u'"
    by (auto split: if_splits option.splits)
  then show ?case using Cons next_up caller_turn_step by metis
qed simp

abbreviation calm_goose :: "unit goose" where
  "calm_goose \<equiv> plain_goose"

definition two_callers :: upgrading where
  "two_callers = all_arriving 2 (\<lambda>_. 2) (old_schema (Some ''x''))"

definition two_turns :: "upgrading option" where
  "two_turns = caller_turns calm_goose id [0, 1, 0, 0, 0, 1, 1] two_callers"

lemma two_turns_run:
  obtains u where "up_run calm_goose id False two_callers u" "length (phases u) = 2" "phases u ! 0 = Upgraded None"
    "in_lock (phases u ! 1)" "two_turns = Some u"
proof -
  have "case two_turns of None \<Rightarrow> False | Some u \<Rightarrow>
      length (phases u) = 2 \<and> (case phases u ! 0 of Upgraded None \<Rightarrow> in_lock (phases u ! 1) | _ \<Rightarrow> False)"
    by code_simp
  then obtain u where u: "two_turns = Some u" "length (phases u) = 2" "phases u ! 0 = Upgraded None" "in_lock (phases u ! 1)"
    by (auto split: option.splits up_phase.splits)
  show thesis by (rule that [OF caller_turns_run [OF done_up u(1) [unfolded two_turns_def]] u(2,3,4,1)])
qed

lemma upgrades_exclude_each_other_witness:
  "\<exists>u. two_turns = Some u \<and> lockedBy u = Some 1 \<and> current (onDisk u) \<and> keeps_rows (old_schema (Some ''x'')) (onDisk u)"
proof -
  obtain u where u: "up_run calm_goose id False two_callers u" "length (phases u) = 2" "phases u ! 0 = Upgraded None"
    "in_lock (phases u ! 1)" "two_turns = Some u" by (rule two_turns_run)
  have "Upgraded None \<in> set (phases u)" using u(2,3) by (metis nth_mem zero_less_numeral)
  moreover have "1 < length (phases u)" using u(2) by simp
  ultimately show ?thesis
    using upgrades_exclude_each_other [OF plain_goose_ok(1) old_schema_ok(1,2) u(1) [unfolded two_callers_def]] u(4,5) by blast
qed

lemma own_pools_get_through_witness:
  "\<exists>u u'. two_turns = Some u \<and> up_step calm_goose id False u u' \<and> to_go u' < to_go u \<and> to_go two_callers = 8"
proof -
  obtain u where u: "up_run calm_goose id False two_callers u" "length (phases u) = 2" "phases u ! 0 = Upgraded None"
    "in_lock (phases u ! 1)" "two_turns = Some u" by (rule two_turns_run)
  have inj: "inj_on id {..<2 :: nat}" by simp
  have "phases u ! 1 \<noteq> Upgraded err" for err using u(4) by auto
  then have "\<exists>i<length (phases u). \<forall>err. phases u ! i \<noteq> Upgraded err" using u(2) by (intro exI [of _ 1]) simp
  then show ?thesis
    using own_pools_get_through [where n = 2 and pool = id and conns = "\<lambda>_. 2" and s = "old_schema (Some ''x'')",
        OF inj _ u(1) [unfolded two_callers_def]] u(5) unfolding two_callers_def by auto
qed

lemma shared_pool_hangs_witness:
  "\<exists>u. up_run calm_goose (\<lambda>_. 0) False (all_arriving 1 (\<lambda>_. 1) host_schema) u \<and>
     hung calm_goose (\<lambda>_. 0) u"
  using shared_pool_hangs [of 1 calm_goose host_schema] by auto

end
