(* ===== verification/Startup.thy ===== *)
theory Startup
  imports Opening Migrate
begin

text \<open>
  \<open>Open\<close> on a database of any version: the schema of \<open>Migrate\<close> under \<open>Open\<close> of \<open>Opening\<close>, and the
  first pass after it. \<open>goose\<close> works on the schema, everything later on the database read off it.
\<close>

section \<open>Opening a database of any version\<close>

text \<open>
  The cluster whose tables are those of a schema. \<open>Open\<close> lets \<open>goose\<close> run at most once, before
  any statement of its own, so the schema \<open>goose\<close> finds is the one the pool was opened on.
\<close>

definition on_schema :: "'w goose \<Rightarrow> schema \<Rightarrow> 'w cluster \<Rightarrow> 'w cluster" where
  "on_schema goose s cl =
     cl\<lparr>gooseUp := \<lambda>(w, db). (case Up_on goose (w, s) of (err, w, s') \<Rightarrow> (err, w, pg_of s'))\<rparr>"

text \<open>
  C11. From a database of any version to a complete index. Let \<open>Open\<close> with migrations succeed on
  a database this project has had in any version, with \<open>goose\<close> as documented. Then the
  schema has been brought to the one this build expects with every row kept, and the index
  holds the documents it held; the knowledge base writes the space of its own provider into
  a table of exactly that dimension, cuts notes into chunks of a positive size, and has a
  generator exactly if one was configured. If \<open>Index\<close> on it, in any later world, ends without
  an error, then every chunk of the index has a vector of that dimension, those of documents
  stored by the older version included, and every scanned note is in the index.
\<close>

theorem Open_any_version_then_Index:
  assumes "goose_contract goose" "schema_ok s" "history_fits s" "\<not> cSkipMigrate cfg" "sorts_items (sortByIndex (dCodec d))"
    "Open h d (on_schema goose s cl) cfg (w, pg_of s, log) = (Inr k, w', db', log')"
    "hRoot h w2 = Inr node" "names_ok node" "Knowledge_Index h k (w2, db') = Some ((res, None), s3)"
  shows "(\<exists>w0 w3 s'. Up_on goose (w0, s) = (None, w3, s') \<and> current s' \<and> keeps_rows s s') \<and>
    index_of db' = index_of (pg_of s) \<and>
    knowledge_Space k = embedSpace (kEmbed k) \<and> 1 \<le> chunkN k \<and> (kLlm k = None \<longleftrightarrow> cGenerator cfg = None) \<and>
    (\<exists>t. table_of db' (refTable (kSpace k)) = Some t \<and> tdim t = Dim (knowledge_Space k)) \<and>
    (\<forall>c\<in>set (chunkRows (snd s3)). \<exists>v. vector_of (snd s3) (refTable (kSpace k)) (cid c) = Some v \<and>
       int (length v) = Dim (knowledge_Space k)) \<and>
    (\<forall>n\<in>set (Notes (fst (scan_now h k w2))). index_of (snd s3) (notePath n) \<noteq> None)"
proof -
  note run = assms(1-3)
  from Open_Inr [OF assms(6)] obtain w0 w3 w1 db1 where
    goose: "gooseUp (on_schema goose s cl) (w0, pg_of s) = (None, w3, db1)" and
    space: "EnsureSpace (hDb h) (hSha h) (hLower h) (embedSpace (kEmbed k)) (w1, db1) = (Inr (kSpace k), w', db')"
    using assms(4) by (metis (full_types))
  from goose obtain s' where up: "Up_on goose (w0, s) = (None, w3, s')" "db1 = pg_of s'"
    by (auto simp: on_schema_def split: prod.splits)
  have same: "db1 = pg_of s" and ok: "db_ok (pg_of s)" using Up_database [OF run up(1)] up(2) by simp_all
  have kept: "db_ok (snd (snd (gooseUp (on_schema goose s cl) (v, pg_of s))))" for v
    using Up_database(1) [OF run] ok by (auto simp: on_schema_def split: prod.split)
  have "index_of db' = index_of (pg_of s)" using EnsureSpace_cases [OF _ space] ok same by simp
  moreover have "current s' \<and> keeps_rows s s'" using Up_keeps [OF run up(1)] by (simp add: upgrade_def)
  ultimately show ?thesis using Open_then_Index [OF ok assms(5,6) kept assms(7-9)] up(1) by blast
qed

text \<open>The schema of the first migration with one note, under the demonstration of \<open>Opening\<close>.\<close>

definition old_open :: "nat knowledge result \<times> nat pooled" where
  "old_open = Open nat_host small_deps (on_schema plain_goose (old_schema (Some ''x'')) demo_cluster) demo_config
     (0, pg_of (old_schema (Some ''x'')), [])"

lemma Open_any_version_then_Index_witness:
  "\<exists>k s res s3. old_open = (Inr k, s) \<and> Knowledge_Index nat_host k (7, fst (snd s)) = Some ((res, None), s3) \<and>
     chunkRows (snd s3) \<noteq> [] \<and> index_of (fst (snd s)) = index_of (pg_of (old_schema (Some ''x''))) \<and>
     (\<forall>c\<in>set (chunkRows (snd s3)). \<exists>v. vector_of (snd s3) (refTable (kSpace k)) (cid c) = Some v \<and> int (length v) = 4)"
proof -
  have srt: "sorts_items (sortByIndex (dCodec small_deps))"
    by (simp add: sorts_items_def demo_codec_def demo_deps_def small_deps_def)
  have root: "hRoot nat_host 7 = Inr demo_vault" by (simp add: nat_host_def)
  have names: "names_ok demo_vault" by code_simp
  have migrates: "\<not> cSkipMigrate demo_config" by (simp add: demo_config_def)
  have run: "case old_open of (Inl _, _) \<Rightarrow> False | (Inr k, s) \<Rightarrow>
     (case Knowledge_Index nat_host k (7, fst (snd s)) of None \<Rightarrow> False
      | Some ((res, err), s3) \<Rightarrow> err = None \<and> chunkRows (snd s3) \<noteq> [] \<and> Dim (embedSpace (kEmbed k)) = 4)"
    by code_simp
  obtain k w' db' log' where o: "old_open = (Inr k, w', db', log')"
    using run by (metis (no_types, lifting) case_prod_conv prod.exhaust sum.case(1) sum.exhaust)
  from run [unfolded o] obtain res s3 where i: "Knowledge_Index nat_host k (7, db') = Some ((res, None), s3)"
    "chunkRows (snd s3) \<noteq> []" "Dim (embedSpace (kEmbed k)) = 4"
    by (auto split: option.splits prod.splits)
  note whole = Open_any_version_then_Index [OF plain_goose_ok(1) old_schema_ok(1,2) migrates srt o [unfolded old_open_def] root names i(1)]
  have "\<forall>c\<in>set (chunkRows (snd s3)). \<exists>v. vector_of (snd s3) (refTable (kSpace k)) (cid c) = Some v \<and> int (length v) = 4"
    using whole i(3) unfolding knowledge_Space_def by auto
  with i(1,2) o whole show ?thesis by (intro exI [of _ k] exI [of _ "(w', db', log')"] exI [of _ res] exI [of _ s3]) simp
qed

end
