(* ===== verification/Testdb.thy ===== *)
theory Testdb
  imports Opening Json
begin

text \<open>
  \<open>internal/testdb/testdb.go\<close>: the throwaway databases of the integration tests. The state is
  what a test leaves on a server - the databases, the pools still open - and the functions
  it has registered to clean up. The server, the random source and \<open>url.Parse\<close> are
  parameters; \<open>URL.String\<close> is modelled.
\<close>

section \<open>The name of a database in a URL\<close>

text \<open>\<open>net/url.URL\<close>; \<open>uFragment\<close> is the fragment as \<open>EscapedFragment\<close> gives it.\<close>

record go_url =
  uScheme :: gostring
  uOpaque :: gostring
  uUser :: "(gostring \<times> gostring option) option"
  uHost :: gostring
  uPath :: gostring
  uRawPath :: gostring
  uOmitHost :: bool
  uForceQuery :: bool
  uRawQuery :: gostring
  uFragment :: gostring

definition userinfo_String :: "gostring \<times> gostring option \<Rightarrow> gostring" where
  "userinfo_String = (\<lambda>(user, password).
     url_escape UserPart user @ (case password of None \<Rightarrow> [] | Some p \<Rightarrow> '':'' @ url_escape UserPart p))"

definition valid_encoded_path :: "gostring \<Rightarrow> bool" where
  "valid_encoded_path s \<longleftrightarrow>
     list_all (\<lambda>c. c \<in> set ''!$&()*+,;=:@[]%'' \<or> byte c = 39 \<or> \<not> should_escape PathPart c) s"

definition EscapedPath :: "go_url \<Rightarrow> gostring" where
  "EscapedPath u =
     (if uRawPath u \<noteq> [] \<and> valid_encoded_path (uRawPath u) \<and> url_unescape PathPart (uRawPath u) = Some (uPath u) then uRawPath u
      else if uPath u = ''*'' then ''*''
      else url_escape PathPart (uPath u))"

definition url_authority :: "go_url \<Rightarrow> gostring" where
  "url_authority u =
     (if uScheme u = [] \<and> uHost u = [] \<and> uUser u = None \<or> uOmitHost u \<and> uHost u = [] \<and> uUser u = None then []
      else
        (if uHost u \<noteq> [] \<or> uPath u \<noteq> [] \<or> uUser u \<noteq> None then ''//'' else []) @
        (case uUser u of None \<Rightarrow> [] | Some ui \<Rightarrow> userinfo_String ui @ ''@'') @
        url_escape HostPart (uHost u))"

definition URL_String :: "go_url \<Rightarrow> gostring" where
  "URL_String u =
     (let scheme = (if uScheme u = [] then [] else uScheme u @ '':'');
          rest = (if uOpaque u \<noteq> [] then uOpaque u
                  else (let path = EscapedPath u;
                            buf = scheme @ url_authority u;
                            slash = (if path \<noteq> [] \<and> hd path \<noteq> CHR ''/'' \<and> uHost u \<noteq> [] then ''/'' else []);
                            dot = (if buf @ slash = [] \<and> CHR '':'' \<in> set (fst (cut_at CHR ''/'' path)) then ''./'' else [])
                        in url_authority u @ slash @ dot @ path))
      in scheme @ rest @ (if uForceQuery u \<or> uRawQuery u \<noteq> [] then ''?'' @ uRawQuery u else []) @
         (if uFragment u \<noteq> [] then ''#'' @ uFragment u else []))"

definition replaceDatabase :: "(gostring \<Rightarrow> go_url result) \<Rightarrow> gostring \<Rightarrow> gostring \<Rightarrow> gostring result" where
  "replaceDatabase parse dsn database =
     (case parse dsn of
        Inl e \<Rightarrow> Inl (wrap ''parse dsn'' e)
      | Inr u \<Rightarrow> Inr (URL_String (u\<lparr>uPath := ''/'' @ database\<rparr>)))"

section \<open>A test and its databases\<close>

record 'w testenv =
  teDSN :: gostring
  teParse :: "gostring \<Rightarrow> go_url result"
  teRand :: "'w \<Rightarrow> gostring result \<times> 'w"
  teConnect :: "gostring \<Rightarrow> 'w \<Rightarrow> goerr option \<times> 'w"
  tePool :: "gostring \<Rightarrow> 'w \<Rightarrow> goerr option \<times> 'w"
  teFault :: "'w \<Rightarrow> fault \<times> 'w"
  teExists :: "gostring \<Rightarrow> goerr"

record 'w testing =
  tWorld :: 'w
  databases :: "gostring list"
  poolsOpen :: nat
  cleanups :: "gostring list"
  tLog :: "gostring list"

text \<open>How a call of the test's helper ends: \<open>Skipf\<close>, \<open>Fatalf\<close>, or a pool and its DSN.\<close>

datatype outcome = Skipped gostring | Fatal gostring | Ready gostring

definition EnvVar :: gostring where
  "EnvVar = ''RAG_TEST_DSN''"

text \<open>One statement on the list of databases, refused, applied, or applied with its reply lost.\<close>

definition on_server ::
  "'w testenv \<Rightarrow> (gostring list \<Rightarrow> goerr option \<times> gostring list) \<Rightarrow> 'w testing \<Rightarrow> goerr option \<times> 'w testing" where
  "on_server te stmt s =
     (case teFault te (tWorld s) of
        (Fine, w) \<Rightarrow> (case stmt (databases s) of (r, dbs) \<Rightarrow> (r, s\<lparr>tWorld := w, databases := dbs\<rparr>))
      | (Refused e, w) \<Rightarrow> (Some e, s\<lparr>tWorld := w\<rparr>)
      | (Lost e, w) \<Rightarrow> (Some e, s\<lparr>tWorld := w, databases := snd (stmt (databases s))\<rparr>))"

definition create_database :: "'w testenv \<Rightarrow> gostring \<Rightarrow> gostring list \<Rightarrow> goerr option \<times> gostring list" where
  "create_database te name dbs = (if name \<in> set dbs then (Some (teExists te name), dbs) else (None, dbs @ [name]))"

definition drop_database :: "gostring \<Rightarrow> gostring list \<Rightarrow> goerr option \<times> gostring list" where
  "drop_database name dbs = (None, filter (\<lambda>d. d \<noteq> name) dbs)"

definition NewRaw :: "'w testenv \<Rightarrow> 'w testing \<Rightarrow> outcome \<times> 'w testing" where
  "NewRaw te s =
     (if teDSN te = [] then (Skipped (EnvVar @ '' is not set; skipping the tests that need a real Postgres''), s)
      else
        (case teConnect te (teDSN te) (tWorld s) of
           (Some e, w) \<Rightarrow> (Fatal (''connect with '' @ EnvVar @ '': '' @ err_text e), s\<lparr>tWorld := w\<rparr>)
         | (None, w) \<Rightarrow>
             (case teRand te w of
                (Inl e, w) \<Rightarrow> (Fatal (''random name: '' @ err_text e), s\<lparr>tWorld := w\<rparr>)
              | (Inr suffix, w) \<Rightarrow>
                  (let name = ''ragtest_'' @ hex_string suffix in
                   case on_server te (create_database te name) (s\<lparr>tWorld := w\<rparr>) of
                     (Some e, s) \<Rightarrow> (Fatal (''create database '' @ name @ '': '' @ err_text e), s)
                   | (None, s) \<Rightarrow>
                       (case replaceDatabase (teParse te) (teDSN te) name of
                          Inl e \<Rightarrow> (Fatal (''build dsn: '' @ err_text e), s)
                        | Inr dsn \<Rightarrow>
                            (case tePool te dsn (tWorld s) of
                               (Some e, w) \<Rightarrow> (Fatal (''connect to '' @ name @ '': '' @ err_text e), s\<lparr>tWorld := w\<rparr>)
                             | (None, w) \<Rightarrow>
                                 (Ready dsn, s\<lparr>tWorld := w, poolsOpen := poolsOpen s + 1,
                                              cleanups := cleanups s @ [name]\<rparr>)))))))"

text \<open>The function given to \<open>t.Cleanup\<close>.\<close>

definition cleanup :: "'w testenv \<Rightarrow> gostring \<Rightarrow> 'w testing \<Rightarrow> 'w testing" where
  "cleanup te name s =
     (let s = s\<lparr>poolsOpen := poolsOpen s - 1\<rparr> in
      case teConnect te (teDSN te) (tWorld s) of
        (Some e, w) \<Rightarrow> s\<lparr>tWorld := w, tLog := tLog s @ [''cleanup: connect: '' @ err_text e]\<rparr>
      | (None, w) \<Rightarrow>
          (case on_server te (drop_database name) (s\<lparr>tWorld := w\<rparr>) of
             (Some e, s) \<Rightarrow> s\<lparr>tLog := tLog s @ [''cleanup: drop '' @ name @ '': '' @ err_text e]\<rparr>
           | (None, s) \<Rightarrow> s))"

text \<open>When the test ends, its cleanups run, the last registered one first.\<close>

definition end_test :: "'w testenv \<Rightarrow> 'w testing \<Rightarrow> 'w testing" where
  "end_test te s = fold (cleanup te) (rev (cleanups s)) (s\<lparr>cleanups := []\<rparr>)"

text \<open>\<open>New\<close>: the schema is put on the fresh database, which has no rows.\<close>

definition testdb_New :: "'w testenv \<Rightarrow> 'w cluster \<Rightarrow> 'w testing \<Rightarrow> outcome \<times> 'w testing" where
  "testdb_New te cl s =
     (case NewRaw te s of
        (Ready dsn, s) \<Rightarrow>
          (case migrate_Up cl (tWorld s, empty_pg, []) of
             (Some e, w, _) \<Rightarrow> (Fatal (''migrate: '' @ err_text e), s\<lparr>tWorld := w\<rparr>)
           | (None, w, _) \<Rightarrow> (Ready dsn, s\<lparr>tWorld := w\<rparr>))
      | (r, s) \<Rightarrow> (r, s))"

section \<open>Only the database is replaced\<close>

lemma url_escape_plain: "list_all unreserved s \<Longrightarrow> url_escape part s = s"
  by (induction s) (auto simp: url_escape_def escape_char_def should_escape_def unreserved_def is_digit_def)

lemma url_String_path:
  assumes "uScheme u = ''postgres''" "uOpaque u = []" "uUser u = Some (user, Some password)" "uHost u = host" "host \<noteq> []"
    "uRawPath u = []" "\<not> uForceQuery u" "uFragment u = []" "uPath u = ''/'' @ db" "db \<noteq> []" "list_all unreserved db"
  shows "URL_String u = url_string ''postgres'' user password host db (uRawQuery u)"
proof -
  have "''/'' @ db \<noteq> ''*''" by simp
  then have path: "EscapedPath u = ''/'' @ db"
    using assms url_escape_plain [of db PathPart]
    by (simp add: EscapedPath_def url_escape_def escape_char_def should_escape_def)
  have "hd db \<noteq> CHR ''/''" using assms(10,11) by (cases db) (auto simp: unreserved_def is_digit_def)
  moreover have "db \<noteq> ''*''" using assms(11) by (auto simp: unreserved_def is_digit_def)
  ultimately show ?thesis using assms path url_escape_plain [of db PathPart]
    by (simp add: URL_String_def url_authority_def userinfo_String_def url_string_def Let_def)
qed

text \<open>
  \<open>replaceDatabase\<close> replaces the database and nothing else. For a URL with a user, a password
  and a host with a port, whatever bytes the user and the password consist of, the string it
  returns is read back as the same user, password, host, port and settings and the new
  database; and a string that is no URL is refused.
\<close>

theorem replaceDatabase_keeps_the_rest:
  assumes "parse dsn = Inr u" "uScheme u = ''postgres''" "uOpaque u = []" "uUser u = Some (user, Some password)"
    "uHost u = name @ '':'' @ port" "names_host v6 name host" "list_all is_digit port" "uRawPath u = []" "\<not> uForceQuery u"
    "uFragment u = []" "uRawQuery u \<noteq> []" "url_text (uRawQuery u)" "db \<noteq> []" "list_all unreserved db"
  shows "\<exists>dsn'. replaceDatabase parse dsn db = Inr dsn' \<and>
    dsn_parts v6 dsn' = Some \<lparr>dsnUser = user, dsnPassword = password, dsnHost = host, dsnPort = port, dsnDatabase = db,
      dsnSettings = query_settings (uRawQuery u)\<rparr> \<and>
    (\<forall>e. isl (replaceDatabase (\<lambda>_. Inl e) dsn db))"
proof -
  have "hd db \<noteq> CHR ''/''" using assms(13,14) by (cases db) (auto simp: unreserved_def is_digit_def)
  moreover have "host_text '':''" by code_simp
  then have "host_text (uHost u)"
    using host_text_names [OF assms(6)] host_text_digits [OF assms(7)] by (simp only: assms(5) host_text_append simp_thms)
  moreover have "split_host v6 (uHost u) = Some (host, port)" "uHost u \<noteq> []"
    using split_host_names [OF assms(6,7)] assms(5) by simp_all
  ultimately have "dsn_parts v6 (url_string ''postgres'' user password (uHost u) db (uRawQuery u)) =
      Some \<lparr>dsnUser = user, dsnPassword = password, dsnHost = host, dsnPort = port, dsnDatabase = db,
        dsnSettings = query_settings (uRawQuery u)\<rparr>"
    using assms(11,12) by (simp add: dsn_parts_url_string)
  moreover have "URL_String (u\<lparr>uPath := ''/'' @ db\<rparr>) = url_string ''postgres'' user password (uHost u) db (uRawQuery u)"
    using url_String_path [of "u\<lparr>uPath := ''/'' @ db\<rparr>" user password "uHost u" db] assms by simp
  ultimately show ?thesis using assms(1) by (simp add: replaceDatabase_def)
qed

lemma replaceDatabase_keeps_the_rest_witness:
  "let u = \<lparr>uScheme = ''postgres'', uOpaque = [], uUser = Some (''u'', Some ''p@/:''), uHost = ''db:5432'', uPath = ''/rag'',
        uRawPath = [], uOmitHost = False, uForceQuery = False, uRawQuery = ''sslmode=disable'', uFragment = []\<rparr>
   in replaceDatabase (\<lambda>_. Inr u) ''x'' ''ragtest_00ff'' = Inr ''postgres://u:p%40%2F%3A@db:5432/ragtest_00ff?sslmode=disable'' \<and>
      map_option dsnPassword (dsn_parts v6 ''postgres://u:p%40%2F%3A@db:5432/ragtest_00ff?sslmode=disable'') = Some ''p@/:''"
proof -
  let ?u = "\<lparr>uScheme = ''postgres'', uOpaque = [], uUser = Some (''u'', Some ''p@/:''), uHost = ''db:5432'', uPath = ''/rag'',
        uRawPath = [], uOmitHost = False, uForceQuery = False, uRawQuery = ''sslmode=disable'', uFragment = []\<rparr>"
  have "list_all unreserved ''db''" "list_all is_digit ''5432''" "url_text ''sslmode=disable''" "list_all unreserved ''ragtest_00ff''"
    by code_simp+
  then have "names_host v6 ''db'' ''db''" "list_all is_digit ''5432''" "url_text (uRawQuery ?u)" "list_all unreserved ''ragtest_00ff''"
    by (simp_all add: names_host_def)
  from replaceDatabase_keeps_the_rest [of "\<lambda>_. Inr ?u" "''x''" ?u "''u''" "''p@/:''" "''db''" "''5432''" v6 "''db''" "''ragtest_00ff''",
      OF _ _ _ _ _ this(1,2) _ _ _ _ this(3) _ this(4)]
  obtain dsn' where "replaceDatabase (\<lambda>_. Inr ?u) ''x'' ''ragtest_00ff'' = Inr dsn' \<and>
      map_option dsnPassword (dsn_parts v6 dsn') = Some ''p@/:''" by auto
  moreover have "replaceDatabase (\<lambda>_. Inr ?u) ''x'' ''ragtest_00ff'' =
      Inr ''postgres://u:p%40%2F%3A@db:5432/ragtest_00ff?sslmode=disable''" by code_simp
  ultimately show ?thesis by (simp add: Let_def)
qed

section \<open>What a test leaves on the server\<close>

definition steady :: "'w testenv \<Rightarrow> bool" where
  "steady te \<longleftrightarrow> (\<forall>dsn w. fst (teConnect te dsn w) = None) \<and> (\<forall>w. fst (teFault te w) = Fine)"

lemma steady_server: "steady te \<Longrightarrow> \<exists>w. on_server te stmt s =
    (fst (stmt (databases s)), s\<lparr>tWorld := w, databases := snd (stmt (databases s))\<rparr>)"
proof -
  assume "steady te"
  then obtain w where "teFault te (tWorld s) = (Fine, w)" by (metis steady_def prod.collapse)
  then show ?thesis by (auto simp: on_server_def split: prod.splits)
qed

lemma steady_cleanup:
  assumes "steady te"
  shows "databases (cleanup te name s) = filter (\<lambda>d. d \<noteq> name) (databases s) \<and> poolsOpen (cleanup te name s) = poolsOpen s - 1"
proof -
  obtain w where "teConnect te (teDSN te) (tWorld s) = (None, w)" using assms by (metis steady_def prod.collapse)
  moreover obtain w' where "on_server te (drop_database name) (s\<lparr>poolsOpen := poolsOpen s - 1, tWorld := w\<rparr>) =
      (None, s\<lparr>poolsOpen := poolsOpen s - 1, tWorld := w', databases := filter (\<lambda>d. d \<noteq> name) (databases s)\<rparr>)"
    using steady_server [OF assms, of "drop_database name" "s\<lparr>poolsOpen := poolsOpen s - 1, tWorld := w\<rparr>"]
    by (auto simp: drop_database_def)
  ultimately show ?thesis by (simp add: cleanup_def Let_def)
qed

text \<open>The helper gave up between creating the database and registering its cleanup.\<close>

definition gave_up :: "outcome \<Rightarrow> bool" where
  "gave_up r \<longleftrightarrow> (\<exists>t. r = Fatal (''build dsn: '' @ t) \<or> r = Fatal (''connect to '' @ t))"

lemma NewRaw_leaves:
  assumes "steady te" "cleanups s = []" "NewRaw te s = (r, s')"
    "\<And>w suffix w'. teRand te w = (Inr suffix, w') \<Longrightarrow> ''ragtest_'' @ hex_string suffix \<notin> set (databases s)"
  shows "\<exists>new. databases s' = databases s @ new \<and> length new \<le> 1 \<and> set new \<inter> set (databases s) = {} \<and>
    cleanups s' = (if gave_up r then [] else new) \<and> poolsOpen s' = poolsOpen s + length (cleanups s') \<and>
    (gave_up r \<longrightarrow> new \<noteq> []) \<and> (\<forall>dsn. r = Ready dsn \<longrightarrow> new \<noteq> [])"
proof -
  obtain w1 where con: "teConnect te (teDSN te) (tWorld s) = (None, w1)" using assms(1) by (metis steady_def prod.collapse)
  obtain q w2 where rnd: "teRand te w1 = (q, w2)" by (rule prod.exhaust)
  have early: "\<not> gave_up (Skipped t)" "\<not> gave_up (Fatal (''random name: '' @ t))" "\<not> gave_up (Ready t)" for t
    by (simp_all add: gave_up_def)
  show ?thesis
  proof (cases "teDSN te = [] \<or> isl q")
    case True
    then show ?thesis using assms(2,3) con rnd early by (intro exI [of _ "[]"]) (auto simp: NewRaw_def split: if_splits sum.splits)
  next
    case False
    then obtain suffix where q: "q = Inr suffix" by (cases q) auto
    define name where "name = ''ragtest_'' @ hex_string suffix"
    have fresh: "name \<notin> set (databases s)" using assms(4) rnd q unfolding name_def by blast
    obtain w3 where made: "on_server te (create_database te name) (s\<lparr>tWorld := w2\<rparr>) =
        (None, s\<lparr>tWorld := w3, databases := databases s @ [name]\<rparr>)"
      using steady_server [OF assms(1), of "create_database te name" "s\<lparr>tWorld := w2\<rparr>"] fresh
      by (auto simp: create_database_def)
    note step = assms(3) [unfolded NewRaw_def con rnd q prod.case option.case sum.case Let_def name_def [symmetric] made]
    have late: "gave_up (Fatal (''build dsn: '' @ t))" "gave_up (Fatal (''connect to '' @ t))" for t
      by (auto simp: gave_up_def)
    show ?thesis using step False fresh assms(2) early(3) late
      by (intro exI [of _ "[name]"]) (auto split: sum.splits prod.splits option.splits)
  qed
qed

text \<open>
  C40. A test leaves nothing behind, unless it gives up too early. On a server that answers, and
  with a name that is not taken, a test that called \<open>New\<close> and ends, however that call ended,
  leaves the server with the databases it found and no pool open, with one exception: when
  the DSN cannot be rebuilt or the pool cannot be made, the database just created is never
  dropped, because its cleanup is registered only after that.
\<close>

theorem tests_clean_up:
  assumes "steady te" "cleanups s = []" "testdb_New te cl s = (r, s')"
    "\<And>w suffix w'. teRand te w = (Inr suffix, w') \<Longrightarrow> ''ragtest_'' @ hex_string suffix \<notin> set (databases s)"
  shows "poolsOpen (end_test te s') = poolsOpen s \<and>
    (if gave_up r then \<exists>name. databases (end_test te s') = databases s @ [name] \<and> name \<notin> set (databases s)
     else databases (end_test te s') = databases s)"
proof -
  obtain r1 s1 where raw: "NewRaw te s = (r1, s1)" by (rule prod.exhaust)
  obtain new where new: "databases s1 = databases s @ new" "length new \<le> 1"
    "set new \<inter> set (databases s) = {}" "cleanups s1 = (if gave_up r1 then [] else new)"
    "poolsOpen s1 = poolsOpen s + length (cleanups s1)" "gave_up r1 \<longrightarrow> new \<noteq> []"
    by (rule exE [OF NewRaw_leaves [OF assms(1,2) raw]]) (use assms(4) in blast, elim conjE)
  have after: "databases s' = databases s1 \<and> cleanups s' = cleanups s1 \<and> poolsOpen s' = poolsOpen s1 \<and> (gave_up r \<longleftrightarrow> gave_up r1)"
  proof (cases r1)
    case (Ready dsn)
    then show ?thesis using assms(3) raw
      by (auto simp: testdb_New_def gave_up_def split: prod.splits option.splits)
  qed (use assms(3) raw in \<open>auto simp: testdb_New_def\<close>)
  have keep: "filter (\<lambda>d. d \<noteq> name) (databases s) = databases s" if "name \<notin> set (databases s)" for name
    using that by (auto simp: filter_id_conv)
  consider "new = []" | name where "new = [name]" using new(2) by (cases new) auto
  then show ?thesis
  proof cases
    case 1
    then show ?thesis using new after by (auto simp: end_test_def split: if_splits)
  next
    case 2
    then have "name \<notin> set (databases s)" using new(3) by simp
    then show ?thesis using new after 2 keep steady_cleanup [OF assms(1), of name "s'\<lparr>cleanups := []\<rparr>"]
      by (cases "gave_up r") (simp_all add: end_test_def)
  qed
qed

definition demo_testenv :: "gostring \<Rightarrow> nat testenv" where
  "demo_testenv dsn = \<lparr>teDSN = dsn,
     teParse = (\<lambda>s. if s = ''bad'' then Inl (Plain ''net/url: invalid'') else Inr \<lparr>uScheme = ''postgres'', uOpaque = [],
        uUser = Some (''u'', Some ''p''), uHost = ''db:5432'', uPath = ''/rag'', uRawPath = [], uOmitHost = False,
        uForceQuery = False, uRawQuery = ''sslmode=disable'', uFragment = []\<rparr>),
     teRand = \<lambda>w. (Inr (replicate 6 CHR 0x0F), w), teConnect = \<lambda>dsn w. (None, w), tePool = \<lambda>dsn w. (None, w),
     teFault = \<lambda>w. (Fine, w), teExists = Plain\<rparr>"

definition demo_testing :: "nat testing" where
  "demo_testing = \<lparr>tWorld = 0, databases = [''postgres''], poolsOpen = 0, cleanups = [], tLog = []\<rparr>"

lemma tests_clean_up_witness:
  "let good = testdb_New (demo_testenv ''postgres://u:p@db:5432/rag'') demo_cluster demo_testing;
       bad = testdb_New (demo_testenv ''bad'') demo_cluster demo_testing
   in databases (snd good) = [''postgres'', ''ragtest_0f0f0f0f0f0f''] \<and>
      databases (end_test (demo_testenv ''postgres://u:p@db:5432/rag'') (snd good)) = [''postgres''] \<and>
      length (databases (end_test (demo_testenv ''bad'') (snd bad))) = 2"
proof -
  let ?te = "demo_testenv ''postgres://u:p@db:5432/rag''" and ?be = "demo_testenv ''bad''"
  obtain r1 s1 where good: "testdb_New ?te demo_cluster demo_testing = (r1, s1)" by (rule prod.exhaust)
  obtain r2 s2 where bad: "testdb_New ?be demo_cluster demo_testing = (r2, s2)" by (rule prod.exhaust)
  have st: "steady (demo_testenv dsn)" "cleanups demo_testing = []" for dsn
    by (simp_all add: steady_def demo_testenv_def demo_testing_def)
  have fresh: "''ragtest_'' @ hex_string suffix \<notin> set (databases demo_testing)" for suffix
    by (simp add: demo_testing_def)
  have "databases s1 = [''postgres'', ''ragtest_0f0f0f0f0f0f'']"
    "case r1 of Ready dsn \<Rightarrow> True | _ \<Rightarrow> False" "r2 = Fatal (''build dsn: '' @ ''parse dsn: net/url: invalid'')"
  proof -
    have "databases (snd (testdb_New ?te demo_cluster demo_testing)) = [''postgres'', ''ragtest_0f0f0f0f0f0f'']"
      "case fst (testdb_New ?te demo_cluster demo_testing) of Ready dsn \<Rightarrow> True | _ \<Rightarrow> False"
      "fst (testdb_New ?be demo_cluster demo_testing) = Fatal (''build dsn: '' @ ''parse dsn: net/url: invalid'')"
      by code_simp+
    then show "databases s1 = [''postgres'', ''ragtest_0f0f0f0f0f0f'']"
      "case r1 of Ready dsn \<Rightarrow> True | _ \<Rightarrow> False" "r2 = Fatal (''build dsn: '' @ ''parse dsn: net/url: invalid'')"
      using good bad by simp_all
  qed
  moreover from this have "\<not> gave_up r1" "gave_up r2" by (auto simp: gave_up_def split: outcome.splits)
  ultimately show ?thesis
    using tests_clean_up [OF st good fresh] tests_clean_up [OF st bad fresh] unfolding good bad
    by (auto simp: demo_testing_def)
qed

end
