(* ===== verification/Spec2Isabelle.thy ===== *)
theory Spec2Isabelle
  imports Mains Background Upgrade Startup Testdb
begin

text \<open>
  A model of \<open>rag-ai-system\<close>, a Go library with three commands that indexes a directory of
  markdown notes in PostgreSQL with pgvector and answers questions from it. \<open>Index\<close> scans the
  vault, cuts notes into chunks, stores what changed, prunes what is gone and fills in the
  vectors that are missing; \<open>Search\<close> and \<open>Ask\<close> embed a query, read the nearest chunks and
  give them to a model; an HTTP server offers both and runs passes of \<open>Index\<close> in the
  background. Every definition is a translation of the code it names, with its branches,
  early returns and error texts; a Go error is a value of \<open>goerr\<close>, a result with an error a sum,
  a string its bytes. State is passed explicitly: \<open>'w\<close> is the world the parameters work on
  (clock, network, server, directory), \<open>pg\<close> the database.

  Where what is:

  \<^item> \<open>Prelude\<close>, \<open>GoUtf8\<close>, \<open>GoText\<close>, \<open>GoError\<close>: collections of facts, lists, decimals; what the
    program uses of \<open>unicode/utf8\<close>, \<open>strings\<close>, \<open>strconv\<close>, \<open>bufio\<close> and of errors.
  \<^item> \<open>Json\<close>, \<open>Unmarshal\<close>: \<open>encoding/json\<close> as the program uses it, both ways: a text written is read
    back, with what is not UTF-8 replaced; what is stored in a struct has its types, and an
    object that names its fields determines them.
  \<^item> \<open>Chunk\<close> (\<open>internal/chunk/cut.go\<close>): \<open>Cut\<close> loses no visible rune, keeps every chunk within its
    size, is the greedy packing of paragraphs, and fails only on a bad size.
  \<^item> \<open>Vault\<close> (\<open>internal/vault\<close>): the frontmatter parser against a grammar and a round trip, and
    \<open>Scan\<close> over a tree of files: what it finds, skips and stops at.
  \<^item> \<open>Prompt\<close> (\<open>rag/prompt.go\<close>): the prompt quotes the longest prefix of passages that fits.
  \<^item> \<open>Backoff\<close> (\<open>backoff\<close>): how often \<open>Do\<close> calls, how long it waits, what is retried, and how
    hints of a server are read, wrap-around of durations included.
  \<^item> \<open>Embed\<close>, \<open>Providers\<close> (\<open>embed/embed.go\<close>, \<open>middleware.go\<close>, \<open>fake.go\<close>, \<open>llm\<close>): spaces and their
    slugs; retries, rate limits and batches over any provider. The contract of a provider is
    the locale \<open>embedding\<close>; the decorators keep it (sublocales).
  \<^item> \<open>Clients\<close> (\<open>embed/openai.go\<close>, \<open>ollama.go\<close>, \<open>google.go\<close> and those of \<open>llm\<close>): every request,
    answer and refusal, with the answers decoded from their bytes; the clients are
    interpretations of \<open>embedding\<close>.
  \<^item> \<open>Settings\<close> (\<open>internal/config\<close>, \<open>storage/postgres.go\<close>, \<open>knowledge/postgres.go\<close>, the two
    \<open>factory.go\<close>): the environment, the connection string and
    its reader, the choice and wrapping of a vendor.
  \<^item> \<open>Database\<close>, \<open>Storage\<close>, \<open>StoreLaws\<close> (\<open>internal/storage\<close>, the schema of \<open>internal/migrate\<close>):
    tables, constraints and sequences, the statements, transactions, refused calls and lost
    replies; every operation of \<open>Store\<close>; the contract of a store of vectors as the locale
    \<open>vector_store\<close>, interpreted on the operations.
  \<^item> \<open>Knowledge\<close>, \<open>Pipeline\<close> (\<open>knowledge/knowledge.go\<close>): \<open>Index\<close>, \<open>Search\<close>, \<open>Ask\<close>, \<open>Stats\<close>. The loop
    that fills in vectors is proved once in the locale \<open>indexer\<close> and interpreted on the
    store; the properties of a whole pass are in \<open>Pipeline\<close>.
  \<^item> \<open>Concurrent\<close>: \<open>Index\<close> cut at its calls, and any number of passes interleaved on one
    database, killed and begun again: what stays true, what one quiet pass repairs, and how
    two overlapping passes can make one of them fail.
  \<^item> \<open>Migrate\<close>, \<open>Upgrade\<close> (\<open>internal/migrate\<close>): the statements of the two migrations over a schema on
    its way, from any older schema to the database model and back; the callers of \<open>Up\<close> as a
    step relation over the advisory lock and the connections of their pools.
  \<^item> \<open>Opening\<close> (\<open>knowledge/config.go\<close>, \<open>Open\<close>, \<open>migrate.go\<close>): from an environment to a knowledge
    base, with a log of the resources taken and given back; \<open>Startup\<close> puts it on the schema of
    any older version.
  \<^item> \<open>Reindex\<close> (\<open>internal/httpapi/reindex.go\<close>): the background indexer as a step relation over
    interleaved requests and passes, and the automaton it refines; \<open>Background\<close> joins it with the
    passes in steps and shows what its status says about the database.
  \<^item> \<open>Http\<close>, \<open>Body\<close>, \<open>Api\<close>, \<open>Access\<close> (\<open>middleware.go\<close>, \<open>auth.go\<close>, \<open>handlers.go\<close>, \<open>server.go\<close>): the
    writer, the request bodies, the wrappers, the endpoints and \<open>Handler\<close>; that a request
    reaches the service as it was written and is answered once, with JSON that reads back,
    what a caller without the token reaches, what the answers in any history of requests and
    passes tell of an upstream error, and the locale \<open>reading\<close> of a service that does not
    write, interpreted on the knowledge base.
  \<^item> \<open>Server\<close>, \<open>Commands\<close>, \<open>Mains\<close> (\<open>cmd\<close>, \<open>Serve\<close>): the three commands from their arguments to
    their exit status, with the flags of \<open>ask\<close>.
  \<^item> \<open>Testdb\<close> (\<open>internal/testdb\<close>): the throwaway databases of the integration tests, the URL they
    are reached by, and what a test leaves on its server.

  How the parts rest on each other: the lemmas of \<open>Storage\<close> state what each operation does to
  the index, a map from paths to documents, and to the pending chunks; \<open>Pipeline\<close> folds them
  over the notes \<open>Scan\<close> returns. \<open>New_embedding\<close> gives every configured vendor the contract of
  \<open>embedding\<close> for its dimension, \<open>EnsureSpace\<close> a table of that dimension, and
  \<open>Open_any_version_then_Index\<close> joins both with the migrations and a pass: from a configuration
  and a database of any version to an index without a gap. \<open>StoreLaws\<close> proves once,
  in the locale \<open>kept\<close>, that every operation keeps a relation the statements keep; \<open>Concurrent\<close>
  takes it for each thing the steps of one pass must not do to another.

  Loops and bounds. Recursion is structural or has a measure: \<open>Do\<close> the attempts left, \<open>Batched\<close>
  and \<open>embed_parts\<close> the rest of a list, with a step of at least one. The loop that claims
  pending chunks has no bound in the code, so \<open>embed_rounds\<close> is a partial function and not
  returning is the value \<open>None\<close>; \<open>Index_returns\<close> shows that it never is. The reader of JSON has
  fuel, twice the length of the text and two, as every other call consumes a byte:
  \<open>fuel_enough\<close> shows that more changes nothing. It nests at most 10000 deep, as the package does.
  Durations are 64-bit where they can wrap; identity columns end where their types do.

  Parameters. The server's faults, what it says on a violated constraint, the distance of
  two vectors and the candidates the approximate index offers; SHA-256; the case table,
  letters and digits of Unicode; floating-point arithmetic and its text; the token bucket;
  \<open>strconv.ParseFloat\<close>, \<open>time.ParseDuration\<close>, \<open>http.ParseTime\<close>, \<open>url.Parse\<close> in the test helper and the
  parser of IPv6 addresses in the reader of connection strings; the wording of
  an error of \<open>encoding/json\<close>; \<open>sort.Slice\<close> on equal keys; the \<open>genai\<close> client; the
  network; pgxpool and goose; the listener, \<open>http.Server\<close> and signals; the directory tree. What
  is assumed of one is a hypothesis of the property that needs it, never part of a definition.

  The contract of goose is \<open>goose_contract\<close>: the migrations its version table does not list, in
  order, each in a transaction with the row that records it, up to the first that fails.

  Not modelled: logging outside the HTTP server; the steps of requests that only read, which
  change nothing (\<open>requests_keep_index\<close>), beside the interleaved passes; statements of one
  transaction of the store interleaved with another's, which the row lock of the note
  prevents; connections that break while an answer is written; what \<open>flag\<close> prints.
\<close>

end
